(* ===== verification/Mpq_Base.thy ===== *)
theory Mpq_Base
  imports Main "HOL-Library.Word"
begin

text \<open>
  Shared vocabulary of the development: the machine types of the Go code, the run-time
  panics it can raise, byte strings in network order as \<^verbatim>\<open>encoding/binary\<close> writes them,
  and readers and writers in the sense of Go's \<^verbatim>\<open>io\<close> package.  Everything here models the
  Go language and its standard library as far as the repository uses them; the components
  of the repository are in the other theories.
\<close>

unbundle bit_operations_syntax

section \<open>Machine types\<close>

type_synonym byte = "8 word"
type_synonym u16 = "16 word"
type_synonym u32 = "32 word"
type_synonym u64 = "64 word"

text \<open>
  A Go \<^verbatim>\<open>int\<close> (64 bits) that only counts events is an \<open>int\<close>: no run of the program
  performs \<open>2 ^ 63\<close> increments.  A Go \<^verbatim>\<open>int\<close> that is converted from a \<^verbatim>\<open>uint64\<close> taken
  from the network is read with \<open>go_int\<close>, which wraps to negative values as the
  conversion does.
\<close>

definition go_int :: "u64 \<Rightarrow> int" where
  "go_int w = sint w"

definition len_u64 :: "'a list \<Rightarrow> u64" where
  "len_u64 xs = of_nat (length xs)"

definition len_u32 :: "'a list \<Rightarrow> u32" where
  "len_u32 xs = of_nat (length xs)"

text \<open>Run-time panics: a panic in any goroutine ends the process.\<close>

datatype go_panic =
    DivideByZero
  | SliceOutOfRange
  | IndexOutOfRange
  | MakeSliceLen
  | NegativeWaitGroup
  | CloseOfClosedChannel
  | NilDereference
  | InvalidArgument
  | DatagramSizeDecreased
  | RandomnessFailed
  | NonPositiveInterval

section \<open>Collections of facts\<close>

named_theorems wire_simps \<open>round-trip equations of the wire formats\<close>
named_theorems inv_intros \<open>invariants kept by the operations\<close>

section \<open>Lemmas on lists and maps used by several components\<close>

lemma sum_list_map_filter_split:
  "sum_list (map f xs) = sum_list (map f (filter P xs)) + sum_list (map f (filter (\<lambda>x. \<not> P x) xs))"
  for f :: "'a \<Rightarrow> 'b::comm_monoid_add"
  by (induction xs) (auto simp: ac_simps)

lemma length_eq_take_drop:
  assumes "n \<le> length bs"
  shows "bs = take n bs @ drop n bs" and "length (take n bs) = n"
  using assms by auto

lemma nth_list_update_fst_distinct:
  "i < length xs \<Longrightarrow> length (xs[i := v]) = length xs"
  by simp

lemma le_diff_pos: "0 < n \<Longrightarrow> n \<le> a - b \<longleftrightarrow> n + b \<le> a" for n a b :: nat
  by linarith

lemma count_list_map_Suc: "count_list xs x \<le> length xs"
  by (induction xs) auto

lemma length_filter_count_list: "length (filter (\<lambda>y. y = x) xs) = count_list xs x"
  by (induction xs) auto

lemma unat_len_u64: "length xs < 2 ^ 64 \<Longrightarrow> unat (len_u64 xs) = length xs"
  by (simp add: len_u64_def unat_of_nat)

lemma unat_len_u32: "length xs < 2 ^ 32 \<Longrightarrow> unat (len_u32 xs) = length xs"
  by (simp add: len_u32_def unat_of_nat)

lemma len_u64_Nil [simp]: "len_u64 [] = 0"
  by (simp add: len_u64_def)

lemma go_int_small:
  assumes "unat w < 2 ^ 63"
  shows "go_int w = int (unat w)"
proof -
  have "int (unat w) < int (2 ^ 63)"
    using assms by (simp only: of_nat_less_iff)
  then have lt: "uint w < 2 ^ 63"
    by simp
  have "signed_take_bit 63 (uint w) = uint w"
    by (rule signed_take_bit_int_eq_self)
      (use lt in \<open>auto intro: order_trans [OF _ uint_ge_0]\<close>)
  then show ?thesis
    by (simp add: go_int_def sint_uint)
qed

lemma go_int_large:
  assumes "\<not> unat w < 2 ^ 63"
  shows "go_int w < 0"
proof -
  have "int (2 ^ 63) \<le> int (unat w)"
    using assms by (simp only: of_nat_le_iff not_less)
  then have ge: "2 ^ 63 \<le> uint w"
    by simp
  have lt: "uint w < 2 ^ 64"
    using unsigned_less [where w = w and 'a = int] by simp
  have "sint w = signed_take_bit 63 (uint w)"
    by (simp add: sint_uint)
  also have "\<dots> = signed_take_bit 63 (uint w - 2 ^ 64)"
    by (rule signed_take_bit_eq_iff_take_bit_eq [THEN iffD2])
      (simp add: take_bit_eq_mod)
  also have "\<dots> = uint w - 2 ^ 64"
    by (rule signed_take_bit_int_eq_self) (use ge lt in auto)
  finally show ?thesis
    using lt by (simp add: go_int_def)
qed

end
