(* ===== verification/Mpq_Stream.thy ===== *)
theory Mpq_Stream
  imports Mpq_Base
begin

text \<open>
  Byte streams in the sense of Go's \<^verbatim>\<open>io\<close> package and the fixed-width big-endian integers
  of \<^verbatim>\<open>encoding/binary\<close>.  A reader is the bytes it will still deliver and the error it
  reports once they are used up (\<open>EOF\<close> after the peer's FIN, another error when the
  stream or its connection breaks).  The locale \<open>wire_codec\<close> is the contract between a
  frame writer and a frame reader; the wire formats of the program are instances of it.
\<close>

section \<open>Readers\<close>

datatype io_err = EOF | ErrUnexpectedEOF | StreamErr | BadStreamKind byte

record rstream =
  rbuf :: "byte list"
  rend :: io_err

text \<open>
  \<^verbatim>\<open>io.ReadFull\<close>: a read of zero bytes succeeds at once; an end of input before the first
  byte is reported as it is, an \<open>EOF\<close> after it as \<open>ErrUnexpectedEOF\<close>.
\<close>

definition read_full :: "nat \<Rightarrow> rstream \<Rightarrow> io_err + (byte list \<times> rstream)" where
  "read_full n s =
     (if n \<le> length (rbuf s) then Inr (take n (rbuf s), s\<lparr>rbuf := drop n (rbuf s)\<rparr>)
      else if rbuf s = [] then Inl (rend s)
      else if rend s = EOF then Inl ErrUnexpectedEOF
      else Inl (rend s))"

lemma read_full_append [wire_simps]:
  "length bs = n \<Longrightarrow> read_full n (s\<lparr>rbuf := bs @ rest\<rparr>) = Inr (bs, s\<lparr>rbuf := rest\<rparr>)"
  by (simp add: read_full_def)

lemma read_full_InrD:
  assumes "read_full n s = Inr (bs, s')"
  shows "length bs = n" and "rbuf s = bs @ rbuf s'" and "rend s' = rend s"
    and "s' = s\<lparr>rbuf := rbuf s'\<rparr>"
  using assms by (auto simp: read_full_def split: if_splits)

lemma read_full_0: "read_full 0 s = Inr ([], s)"
  by (simp add: read_full_def)

lemma read_full_short:
  "length (rbuf s) < n \<Longrightarrow>
     read_full n s = Inl (if rbuf s = [] \<or> rend s \<noteq> EOF then rend s else ErrUnexpectedEOF)"
  by (auto simp: read_full_def)

section \<open>Big-endian integers\<close>

fun be_bytes :: "nat \<Rightarrow> 'a::len word \<Rightarrow> byte list" where
  "be_bytes 0 w = []"
| "be_bytes (Suc n) w = ucast (drop_bit (8 * n) w) # be_bytes n w"

fun be_nat :: "nat \<Rightarrow> byte list \<Rightarrow> nat" where
  "be_nat acc [] = acc"
| "be_nat acc (b # bs) = be_nat (acc * 256 + unat b) bs"

definition be_word :: "byte list \<Rightarrow> 'a::len word" where
  "be_word bs = of_nat (be_nat 0 bs)"

lemma length_be_bytes [simp]: "length (be_bytes n w) = n"
  by (induction n) auto

lemma be_nat_acc: "be_nat acc bs = acc * 256 ^ length bs + be_nat 0 bs"
proof (induction bs arbitrary: acc)
  case Nil
  then show ?case by simp
next
  case (Cons b bs)
  show ?case
    by (simp only: be_nat.simps Cons.IH [of "acc * 256 + unat b"] Cons.IH [of "0 * 256 + unat b"])
      (simp add: algebra_simps)
qed

lemma be_nat_Cons: "be_nat 0 (b # bs) = unat b * 256 ^ length bs + be_nat 0 bs"
  by (simp add: be_nat_acc [of "unat b"])

lemma be_nat_less: "be_nat 0 bs < 256 ^ length bs"
proof (induction bs)
  case Nil
  then show ?case by simp
next
  case (Cons b bs)
  have "unat b \<le> 255"
    using unsigned_less [where w = b and 'a = nat] by simp
  then have "unat b * 256 ^ length bs \<le> 255 * 256 ^ length bs"
    by (rule mult_le_mono1)
  moreover have "(256 :: nat) ^ length (b # bs) = 255 * 256 ^ length bs + 256 ^ length bs"
    by simp
  ultimately show ?case
    using Cons unfolding be_nat_Cons by linarith
qed

lemma unat_ucast_byte: "unat (ucast (w :: 'a::len word) :: byte) = unat w mod 256"
  by (simp add: unsigned_ucast_eq take_bit_eq_mod)

lemma unat_byte_at:
  "unat (ucast (drop_bit k (w :: 'a::len word)) :: byte) = unat w div 2 ^ k mod 256"
proof -
  have "unat (ucast (drop_bit k w) :: byte) = drop_bit k (unat w) mod 256"
    by (simp only: unat_ucast_byte unat_drop_bit_eq)
  then show ?thesis
    by (simp only: drop_bit_eq_div [of k "unat w"])
qed

lemma be_nat_be_bytes: "be_nat 0 (be_bytes n w) = unat w mod 256 ^ n"
proof (induction n)
  case 0
  then show ?case by simp
next
  case (Suc n)
  have "(256 :: nat) ^ n = 2 ^ (8 * n)"
    by (simp add: power_mult)
  then have "unat (ucast (drop_bit (8 * n) w) :: byte) = unat w div 256 ^ n mod 256"
    by (simp only: unat_byte_at)
  then have "be_nat 0 (be_bytes (Suc n) w)
      = 256 ^ n * (unat w div 256 ^ n mod 256) + unat w mod 256 ^ n"
    by (simp only: be_bytes.simps be_nat_Cons Suc.IH length_be_bytes mult.commute)
  also have "\<dots> = unat w mod (256 ^ n * 256)"
    by (simp only: mod_mult2_eq)
  finally show ?case
    by (simp add: mult.commute)
qed

lemma be_word_be_bytes:
  fixes w :: "'a::len word"
  assumes "LENGTH('a) = 8 * n"
  shows "be_word (be_bytes n w) = w"
proof -
  have "unat w < 256 ^ n"
    using unsigned_less [of w] assms by (simp add: power_mult)
  then show ?thesis
    by (simp add: be_word_def be_nat_be_bytes)
qed

lemma be_bytes_of_nat:
  "length bs = n \<Longrightarrow> m mod 256 ^ n = be_nat 0 bs \<Longrightarrow> 8 * n \<le> LENGTH('a) \<Longrightarrow>
     be_bytes n (of_nat m :: 'a::len word) = bs"
proof (induction bs arbitrary: n m)
  case Nil
  then show ?case by simp
next
  case (Cons b bs)
  then obtain k where n: "n = Suc k" and k: "length bs = k"
    by auto
  have pw: "(256 :: nat) ^ k = 2 ^ (8 * k)"
    by (simp add: power_mult)
  have eq: "m mod (256 ^ k * 256) = unat b * 256 ^ k + be_nat 0 bs"
    using Cons.prems(2) k by (simp only: n be_nat_Cons power_Suc mult.commute)
  have lt: "be_nat 0 bs < 256 ^ k"
    using be_nat_less [of bs] k by simp
  have "m mod 256 ^ k = (m mod (256 ^ k * 256)) mod 256 ^ k"
    by (simp add: mod_mult2_eq)
  also have "\<dots> = be_nat 0 bs"
    using lt by (simp only: eq mod_mult_self3 mod_less)
  finally have tail: "be_bytes k (of_nat m :: 'a word) = bs"
    using Cons.IH [of k m] k n Cons.prems(3) by simp
  have "(m mod (256 ^ k * 256)) div 256 ^ k = unat b"
    using lt by (simp add: eq)
  then have hd: "m div 256 ^ k mod 256 = unat b"
    by (simp add: mod_mult2_eq)
  have "unat (ucast (drop_bit (8 * k) (of_nat m :: 'a word)) :: byte)
      = (m mod 2 ^ LENGTH('a)) div 256 ^ k mod 256"
    by (simp only: unat_byte_at unat_of_nat pw)
  also have "\<dots> = m div 256 ^ k mod 256"
  proof -
    obtain d where d: "LENGTH('a) = 8 * n + d"
      using Cons.prems(3) le_Suc_ex by blast
    have "(2 :: nat) ^ LENGTH('a) = 256 ^ k * (256 * 2 ^ d)"
      by (simp add: d n power_add power_mult)
    then have "m mod 2 ^ LENGTH('a)
        = 256 ^ k * (m div 256 ^ k mod (256 * 2 ^ d)) + m mod 256 ^ k"
      by (simp only: mod_mult2_eq)
    then have "m mod 2 ^ LENGTH('a) div 256 ^ k = m div 256 ^ k mod (256 * 2 ^ d)"
      by simp
    then show ?thesis
      by (simp add: mod_mult2_eq)
  qed
  finally have "ucast (drop_bit (8 * k) (of_nat m :: 'a word)) = b"
    using hd by (simp add: word_unat_eq_iff)
  with tail show ?case
    by (simp add: n)
qed

lemma be_bytes_be_word:
  assumes "length bs = n" and "8 * n \<le> LENGTH('a)"
  shows "be_bytes n (be_word bs :: 'a::len word) = bs"
  unfolding be_word_def
  by (rule be_bytes_of_nat) (use assms be_nat_less [of bs] in auto)

text \<open>
  \<^verbatim>\<open>binary.Read\<close> of an unsigned integer of \<open>n\<close> bytes is \<^verbatim>\<open>io.ReadFull\<close> into a buffer of
  that size and a big-endian conversion; \<^verbatim>\<open>binary.Write\<close> is one write of \<open>be_bytes\<close>.
\<close>

definition read_uint :: "nat \<Rightarrow> rstream \<Rightarrow> io_err + ('a::len word \<times> rstream)" where
  "read_uint n s =
     (case read_full n s of Inl e \<Rightarrow> Inl e | Inr (bs, s') \<Rightarrow> Inr (be_word bs, s'))"

lemma read_uint_be_bytes [wire_simps]:
  fixes w :: "'a::len word"
  assumes "LENGTH('a) = 8 * n"
  shows "read_uint n (s\<lparr>rbuf := be_bytes n w @ rest\<rparr>) = Inr (w, s\<lparr>rbuf := rest\<rparr>)"
  using assms by (simp add: read_uint_def wire_simps be_word_be_bytes)

lemma read_uint_InrD:
  fixes w :: "'a::len word"
  assumes "read_uint n s = Inr (w, s')" and "8 * n \<le> LENGTH('a)"
  shows "rbuf s = be_bytes n w @ rbuf s'" and "rend s' = rend s"
proof -
  from assms(1) obtain bs where bs: "read_full n s = Inr (bs, s')" and w: "w = be_word bs"
    by (auto simp: read_uint_def split: sum.splits)
  show "rbuf s = be_bytes n w @ rbuf s'"
    using read_full_InrD(1,2) [OF bs] assms(2) by (simp add: w be_bytes_be_word)
  show "rend s' = rend s"
    by (rule read_full_InrD(3) [OF bs])
qed

lemma read_uint_short:
  "length (rbuf s) < n \<Longrightarrow>
     read_uint n s = Inl (if rbuf s = [] \<or> rend s \<noteq> EOF then rend s else ErrUnexpectedEOF)"
  by (simp add: read_uint_def read_full_short)

text \<open>
  Reading a message field by field: a failing read returns its error at once, as the
  \<^verbatim>\<open>if err != nil { return ..., err }\<close> after every read does.
\<close>

type_synonym 'a reader = "rstream \<Rightarrow> io_err + ('a \<times> rstream)"

definition rd_return :: "'a \<Rightarrow> 'a reader" where
  "rd_return x s = Inr (x, s)"

definition rd_fail :: "io_err \<Rightarrow> 'a reader" where
  "rd_fail e s = Inl e"

definition rd_bind :: "'a reader \<Rightarrow> ('a \<Rightarrow> 'b reader) \<Rightarrow> 'b reader" where
  "rd_bind m f s = (case m s of Inl e \<Rightarrow> Inl e | Inr (x, s') \<Rightarrow> f x s')"

lemma rd_bind_Inr [wire_simps]: "m s = Inr (x, s') \<Longrightarrow> rd_bind m f s = f x s'"
  by (simp add: rd_bind_def)

lemma rd_bind_Inl: "m s = Inl e \<Longrightarrow> rd_bind m f s = Inl e"
  by (simp add: rd_bind_def)

lemma rd_return_app [wire_simps]: "rd_return x s = Inr (x, s)"
  by (simp add: rd_return_def)

lemma rd_bind_InrE:
  assumes "rd_bind m f s = Inr (y, s'')"
  obtains x s' where "m s = Inr (x, s')" and "f x s' = Inr (y, s'')"
  using assms by (auto simp: rd_bind_def split: sum.splits prod.splits)

text \<open>One field of a message, by how many bytes are left.\<close>

definition short_err :: "rstream \<Rightarrow> io_err" where
  "short_err s = (if rbuf s = [] \<or> rend s \<noteq> EOF then rend s else ErrUnexpectedEOF)"

lemma rd_bind_read_uint:
  "rd_bind (read_uint n) f s =
     (if n \<le> length (rbuf s)
      then f (be_word (take n (rbuf s))) (s\<lparr>rbuf := drop n (rbuf s)\<rparr>)
      else Inl (short_err s))"
  by (auto simp: rd_bind_def read_uint_def read_full_def short_err_def)

lemma rd_bind_read_full:
  "rd_bind (read_full n) f s =
     (if n \<le> length (rbuf s)
      then f (take n (rbuf s)) (s\<lparr>rbuf := drop n (rbuf s)\<rparr>)
      else Inl (short_err s))"
  by (auto simp: rd_bind_def read_full_def short_err_def)

text \<open>Go strings are byte sequences; a \<open>char\<close> is one byte.\<close>

definition byte_of_char :: "char \<Rightarrow> byte" where
  "byte_of_char c = of_nat (of_char c)"

definition char_of_byte :: "byte \<Rightarrow> char" where
  "char_of_byte b = char_of (unat b)"

lemma unat_byte_of_char: "unat (byte_of_char c) = of_char c"
proof -
  have "(of_char c :: nat) < 256"
    by simp
  then show ?thesis
    by (simp add: byte_of_char_def unat_of_nat)
qed

lemma char_of_byte_of_char [simp]: "char_of_byte (byte_of_char c) = c"
  by (simp add: char_of_byte_def unat_byte_of_char)

lemma byte_of_char_of_byte [simp]: "byte_of_char (char_of_byte b) = b"
proof -
  have "unat b < 256"
    using unsigned_less [where w = b and 'a = nat] by simp
  then have "unat (byte_of_char (char_of_byte b)) = unat b"
    by (simp add: unat_byte_of_char char_of_byte_def of_char_of)
  then show ?thesis
    by (simp add: word_unat_eq_iff)
qed

lemma char_of_byte_comp [simp]: "char_of_byte \<circ> byte_of_char = id"
  by (simp add: fun_eq_iff)

lemma byte_of_char_comp [simp]: "byte_of_char \<circ> char_of_byte = id"
  by (simp add: fun_eq_iff)

section \<open>Writers\<close>

text \<open>
  A writer is what has reached the stream and how many more bytes it accepts: a broken
  stream (reset by the peer, connection gone) fails the write during which it breaks and
  every later write.
\<close>

datatype wstate = Healthy | BreaksAfter nat | Broken

record wstream =
  wout :: "byte list"
  wstat :: wstate

fun stream_write :: "byte list \<Rightarrow> wstream \<Rightarrow> io_err option \<times> wstream" where
  "stream_write bs w =
     (case wstat w of
        Healthy \<Rightarrow> (None, w\<lparr>wout := wout w @ bs\<rparr>)
      | BreaksAfter k \<Rightarrow>
          (if length bs \<le> k
           then (None, w\<lparr>wout := wout w @ bs, wstat := BreaksAfter (k - length bs)\<rparr>)
           else (Some StreamErr, w\<lparr>wout := wout w @ take k bs, wstat := Broken\<rparr>))
      | Broken \<Rightarrow> (Some StreamErr, w))"

text \<open>A sequence of writes, each returning early on the first error.\<close>

fun write_seq :: "byte list list \<Rightarrow> wstream \<Rightarrow> io_err option \<times> wstream" where
  "write_seq [] w = (None, w)"
| "write_seq (b # bs) w =
     (case stream_write b w of
        (Some e, w') \<Rightarrow> (Some e, w')
      | (None, w') \<Rightarrow> write_seq bs w')"

lemma stream_write_healthy [simp]:
  "wstat w = Healthy \<Longrightarrow> stream_write bs w = (None, w\<lparr>wout := wout w @ bs\<rparr>)"
  by simp

lemma write_seq_healthy:
  "wstat w = Healthy \<Longrightarrow> write_seq bss w = (None, w\<lparr>wout := wout w @ concat bss\<rparr>)"
  by (induction bss arbitrary: w) auto

lemma stream_write_prefix:
  assumes "stream_write bs w = (r, w')"
  shows "\<exists>n. wout w' = wout w @ take n bs \<and> (r = None \<longrightarrow> take n bs = bs)"
    and "r \<noteq> None \<Longrightarrow> wstat w' = Broken"
    and "wstat w = Broken \<Longrightarrow> r = Some StreamErr \<and> w' = w"
proof -
  have "take (length bs) bs = bs" and "take 0 bs = []"
    by simp_all
  then show "\<exists>n. wout w' = wout w @ take n bs \<and> (r = None \<longrightarrow> take n bs = bs)"
    using assms
    by (cases "wstat w")
      (fastforce split: if_splits intro: exI [of _ "length bs"] exI [of _ "0::nat"])+
  show "r \<noteq> None \<Longrightarrow> wstat w' = Broken"
    using assms by (auto split: wstate.splits if_splits)
  show "wstat w = Broken \<Longrightarrow> r = Some StreamErr \<and> w' = w"
    using assms by auto
qed

lemma write_seq_prefix:
  "write_seq bss w = (r, w') \<Longrightarrow>
     \<exists>n. wout w' = wout w @ take n (concat bss) \<and> (r = None \<longrightarrow> wout w' = wout w @ concat bss)"
proof (induction bss arbitrary: w)
  case Nil
  then show ?case by auto
next
  case (Cons b bs)
  obtain r1 w1 where sw: "stream_write b w = (r1, w1)"
    by (cases "stream_write b w")
  from stream_write_prefix(1) [OF sw] obtain n where
    n: "wout w1 = wout w @ take n b" and full: "r1 = None \<longrightarrow> take n b = b"
    by auto
  show ?case
  proof (cases r1)
    case None
    with Cons.prems sw have "write_seq bs w1 = (r, w')"
      by simp
    from Cons.IH [OF this] obtain k where
      "wout w' = wout w1 @ take k (concat bs)" and
      "r = None \<longrightarrow> wout w' = wout w1 @ concat bs"
      by blast
    with None full n show ?thesis
      by (intro exI [of _ "length b + k"]) auto
  next
    case (Some e)
    with Cons.prems sw have "r = Some e" and "w' = w1"
      by auto
    with n show ?thesis
      by (intro exI [of _ "min n (length b)"]) (auto simp: min_def)
  qed
qed

section \<open>The contract of a wire format\<close>

text \<open>
  \<open>enc\<close> is what the writer puts on the stream for a value, \<open>dec\<close> the reader.  The reader
  inverts the writer and leaves the rest of the stream alone, and whatever it accepts is
  the encoding of the value it returns.
\<close>

locale wire_codec =
  fixes enc :: "'a \<Rightarrow> byte list"
    and dec :: "rstream \<Rightarrow> io_err + ('a \<times> rstream)"
    and encodable :: "'a \<Rightarrow> bool"
  assumes dec_enc: "encodable x \<Longrightarrow> dec (s\<lparr>rbuf := enc x @ rest\<rparr>) = Inr (x, s\<lparr>rbuf := rest\<rparr>)"
    and dec_sound: "dec s = Inr (x, s') \<Longrightarrow>
          encodable x \<and> rbuf s = enc x @ rbuf s' \<and> rend s' = rend s"
    and enc_nonempty: "encodable x \<Longrightarrow> enc x \<noteq> []"
begin

lemma dec_enc_stream:
  assumes "encodable x" and "rbuf (s :: rstream) = enc x @ rest"
  shows "dec s = Inr (x, s\<lparr>rbuf := rest\<rparr>)"
proof -
  have "s\<lparr>rbuf := enc x @ rest\<rparr> = s"
    using assms(2) by (cases s) simp
  with dec_enc [OF assms(1), where s = s and rest = rest] show ?thesis
    by simp
qed

lemma dec_consumes: "dec s = Inr (x, s') \<Longrightarrow> length (rbuf s') < length (rbuf s)"
  using dec_sound [of s x s'] enc_nonempty [of x] by (cases "enc x") auto

lemma enc_inj:
  assumes "encodable x" and "encodable y" and "enc x @ r = enc y @ r'"
  shows "x = y \<and> r = r'"
proof -
  let ?s = "\<lparr>rbuf = enc x @ r, rend = EOF\<rparr>"
  have "dec ?s = Inr (x, ?s\<lparr>rbuf := r\<rparr>)"
    by (rule dec_enc_stream) (use assms in auto)
  moreover have "dec ?s = Inr (y, ?s\<lparr>rbuf := r'\<rparr>)"
    by (rule dec_enc_stream) (use assms in auto)
  ultimately show ?thesis
    by auto
qed

lemma no_proper_prefix:
  assumes "encodable x" and "encodable y" and "enc x = enc y @ r"
  shows "r = [] \<and> x = y"
  using enc_inj [of x y "[]" r] assms by auto

lemma concat_enc_inj:
  "list_all encodable xs \<Longrightarrow> list_all encodable ys \<Longrightarrow>
     concat (map enc xs) = concat (map enc ys) \<Longrightarrow> xs = ys"
proof (induction xs arbitrary: ys)
  case Nil
  then show ?case
    by (cases ys) (auto dest: enc_nonempty)
next
  case (Cons x xs)
  then obtain y ys' where ys: "ys = y # ys'"
    by (cases ys) (auto dest: enc_nonempty)
  have "x = y \<and> concat (map enc xs) = concat (map enc ys')"
    by (rule enc_inj) (use Cons.prems ys in auto)
  with Cons ys show ?case
    by auto
qed

end

end
