(* ===== verification/Mpq_Crc32.thy ===== *)
theory Mpq_Crc32
  imports Mpq_Base
begin

text \<open>
  CRC-32 (IEEE 802.3, reflected, polynomial \<open>0xEDB88320\<close>), the function
  \<^verbatim>\<open>crc32.ChecksumIEEE\<close> of Go's standard library on which the per-chunk integrity check of
  \<^verbatim>\<open>internal/transfer/chunk.go\<close> rests.  The facts at the end say which corruptions it
  always detects: every change confined to four consecutive bytes.
\<close>

section \<open>The checksum\<close>

definition crc_bit :: "u32 \<Rightarrow> u32" where
  "crc_bit s = (if bit s 0 then drop_bit 1 s XOR 0xEDB88320 else drop_bit 1 s)"

definition crc_byte :: "u32 \<Rightarrow> byte \<Rightarrow> u32" where
  "crc_byte s b = (crc_bit ^^ 8) (s XOR ucast b)"

definition crc_update :: "u32 \<Rightarrow> byte list \<Rightarrow> u32" where
  "crc_update s bs = foldl crc_byte s bs"

definition checksum_ieee :: "byte list \<Rightarrow> u32" where
  "checksum_ieee bs = NOT (crc_update (NOT 0) bs)"

text \<open>
  Evaluation: one byte is eight steps of the register.  The check value of the standard
  is the checksum of the digits one to nine.
\<close>

lemma crc_byte_eval:
  "crc_byte s b = crc_bit (crc_bit (crc_bit (crc_bit (crc_bit (crc_bit (crc_bit (crc_bit
     (s XOR ucast b))))))))"
  by (simp add: crc_byte_def numeral_eq_Suc)

lemmas crc_eval = checksum_ieee_def crc_update_def crc_byte_eval crc_bit_def

lemma checksum_ieee_check_value:
  "checksum_ieee [0x31, 0x32, 0x33, 0x34, 0x35, 0x36, 0x37, 0x38, 0x39] = 0xCBF43926"
  by (simp add: crc_eval)

section \<open>Linearity and injectivity\<close>

lemmas xor_ac = xor.assoc xor.commute xor.left_commute

lemma word_xor_cancel: "x XOR y XOR y = x" "y XOR y XOR x = x" for x y :: "'a::len word"
  by (metis xor.right_neutral xor.left_neutral xor.assoc xor_self_eq)+

lemma word_xor_inj: "x XOR y = x XOR z \<longleftrightarrow> y = z" for x y z :: "'a::len word"
  by (metis word_xor_cancel(2) xor.assoc)

lemma crc_bit_xor: "crc_bit (x XOR y) = crc_bit x XOR crc_bit y"
proof -
  have "drop_bit 1 (x XOR y) = drop_bit 1 x XOR drop_bit 1 y"
    by (rule drop_bit_xor)
  then show ?thesis
    by (auto simp: crc_bit_def bit_xor_iff xor_ac)
qed

lemma crc_bit_0 [simp]: "crc_bit 0 = 0"
  by (simp add: crc_bit_def)

lemma crc_pow_xor: "(crc_bit ^^ n) (x XOR y) = (crc_bit ^^ n) x XOR (crc_bit ^^ n) y"
  by (induction n) (auto simp: crc_bit_xor)

lemma crc_pow_0 [simp]: "(crc_bit ^^ n) 0 = 0"
  by (induction n) auto

lemma crc_bit_eq_0: 
  assumes "crc_bit x = 0"
  shows "x = 0"
proof (cases "bit x 0")
  case True
  have "bit (drop_bit 1 x XOR 0xEDB88320) 31"
    using bit_imp_le_length [of x 32] by (auto simp: bit_xor_iff bit_drop_bit_eq)
  moreover have "drop_bit 1 x XOR 0xEDB88320 = 0"
    using assms True by (simp add: crc_bit_def)
  ultimately show ?thesis
    by simp
next
  case False
  then have z: "drop_bit 1 x = 0"
    using assms by (simp add: crc_bit_def)
  show ?thesis
  proof (rule bit_word_eqI)
    fix n
    assume "n < LENGTH(32)"
    show "bit x n \<longleftrightarrow> bit 0 n"
    proof (cases n)
      case 0
      with False show ?thesis
        by simp
    next
      case (Suc k)
      have "bit (drop_bit 1 x) k \<longleftrightarrow> bit x n"
        by (simp add: bit_drop_bit_eq Suc)
      with z show ?thesis
        by simp
    qed
  qed
qed

lemma crc_pow_eq_0: "(crc_bit ^^ n) x = 0 \<Longrightarrow> x = 0"
  by (induction n) (auto dest: crc_bit_eq_0)

lemma word_xor_eq_0: "x XOR y = 0 \<longleftrightarrow> x = y" for x y :: "'a::len word"
  using word_xor_inj [of x y x] by (metis xor_self_eq)

lemma crc_pow_inj: "(crc_bit ^^ n) x = (crc_bit ^^ n) y \<longleftrightarrow> x = y"
proof
  assume "(crc_bit ^^ n) x = (crc_bit ^^ n) y"
  then have "(crc_bit ^^ n) (x XOR y) = 0"
    by (simp add: crc_pow_xor)
  then show "x = y"
    using crc_pow_eq_0 word_xor_eq_0 by blast
qed simp

section \<open>Windows of up to four bytes\<close>

text \<open>
  \<open>crc_pack\<close> reads up to four bytes as one word, the first in the low bits.  Shifting it
  out of the register bit by bit is what processing these bytes does.
\<close>

fun crc_pack :: "byte list \<Rightarrow> u32" where
  "crc_pack [] = 0"
| "crc_pack (b # bs) = ucast b XOR push_bit 8 (crc_pack bs)"

lemma bit_crc_pack: "bit (crc_pack bs) k \<Longrightarrow> k < 8 * length bs"
proof (induction bs arbitrary: k)
  case Nil
  then show ?case by simp
next
  case (Cons b bs)
  show ?case
  proof (cases "k < 8")
    case True
    then show ?thesis by simp
  next
    case False
    then have "\<not> bit (ucast b :: u32) k"
      by (auto simp: bit_unsigned_iff dest: bit_imp_le_length)
    with Cons.prems False have "bit (crc_pack bs) (k - 8)"
      by (auto simp: bit_xor_iff bit_push_bit_iff)
    from Cons.IH [OF this] False show ?thesis
      by simp
  qed
qed

lemma crc_bit_push:
  assumes "\<And>k. bit x k \<Longrightarrow> k < 31 - n" and "n < 31"
  shows "crc_bit (push_bit (Suc n) x) = push_bit n x"
proof -
  have "drop_bit 1 (push_bit (Suc n) x) = push_bit n x"
  proof (rule bit_word_eqI)
    fix k
    assume k: "k < LENGTH(32)"
    show "bit (drop_bit 1 (push_bit (Suc n) x)) k \<longleftrightarrow> bit (push_bit n x) k"
    proof (cases "k = 31")
      case True
      with assms(1) [of "31 - n"] show ?thesis
        by (auto simp: bit_simps)
    next
      case False
      with k show ?thesis
        by (auto simp: bit_drop_bit_eq bit_push_bit_iff simp del: push_bit_Suc)
    qed
  qed
  moreover have "\<not> bit (push_bit (Suc n) x) 0"
    by (simp only: bit_push_bit_iff) simp
  ultimately show ?thesis
    by (simp only: crc_bit_def if_False)
qed

lemma crc_pow_push:
  assumes "\<And>k. bit x k \<Longrightarrow> k < 24"
  shows "n \<le> 8 \<Longrightarrow> (crc_bit ^^ n) (push_bit n x) = x"
proof (induction n)
  case 0
  then show ?case by simp
next
  case (Suc n)
  have "crc_bit (push_bit (Suc n) x) = push_bit n x"
  proof (rule crc_bit_push)
    fix k
    assume "bit x k"
    from assms [OF this] Suc.prems show "k < 31 - n"
      by simp
  qed (use Suc.prems in simp)
  then show ?case
    using Suc by (simp only: funpow_Suc_right o_apply)
qed

lemma crc_update_pack:
  "length ds \<le> 4 \<Longrightarrow> crc_update s ds = (crc_bit ^^ (8 * length ds)) (s XOR crc_pack ds)"
proof (induction ds arbitrary: s)
  case Nil
  then show ?case by (simp add: crc_update_def)
next
  case (Cons d ds)
  let ?p = "crc_pack ds"
  have "(crc_bit ^^ 8) (push_bit 8 ?p) = ?p"
  proof (rule crc_pow_push)
    fix k
    assume "bit ?p k"
    then have "k < 8 * length ds"
      by (rule bit_crc_pack)
    with Cons.prems show "k < 24"
      by simp
  qed simp
  then have "crc_byte s d XOR ?p = (crc_bit ^^ 8) (s XOR ucast d XOR push_bit 8 ?p)"
    by (simp only: crc_byte_def crc_pow_xor xor.assoc)
  moreover have "crc_update s (d # ds) = (crc_bit ^^ (8 * length ds)) (crc_byte s d XOR ?p)"
    using Cons.IH [of "crc_byte s d"] Cons.prems by (simp add: crc_update_def)
  ultimately have "crc_update s (d # ds)
      = (crc_bit ^^ (8 * length ds)) ((crc_bit ^^ 8) (s XOR crc_pack (d # ds)))"
    by (simp add: xor.assoc)
  also have "\<dots> = (crc_bit ^^ (8 * length (d # ds))) (s XOR crc_pack (d # ds))"
  proof -
    have "8 * length (d # ds) = 8 * length ds + 8"
      by simp
    then show ?thesis
      by (simp only: funpow_add o_apply)
  qed
  finally show ?case .
qed

lemma crc_pack_inj:
  "length xs = length ys \<Longrightarrow> length xs \<le> 4 \<Longrightarrow> crc_pack xs = crc_pack ys \<Longrightarrow> xs = ys"
proof (induction xs ys rule: list_induct2)
  case Nil
  then show ?case by simp
next
  case (Cons x xs y ys)
  have low: "bit (crc_pack (z # zs)) k \<longleftrightarrow> bit z k" if "k < 8" for z zs k
    using that by (auto simp: bit_xor_iff bit_push_bit_iff bit_unsigned_iff)
  have high: "bit (crc_pack (z # zs)) (k + 8) \<longleftrightarrow> bit (crc_pack zs) k" if "k < 24" for z zs k
    using that
    by (auto simp: bit_xor_iff bit_push_bit_iff bit_unsigned_iff dest: bit_imp_le_length)
  have "x = y"
  proof (rule bit_word_eqI)
    fix k
    assume "k < LENGTH(8)"
    then show "bit x k \<longleftrightarrow> bit y k"
      using low [of k x xs] low [of k y ys] Cons.prems by simp
  qed
  moreover have "crc_pack xs = crc_pack ys"
  proof (rule bit_word_eqI)
    fix k
    assume "k < LENGTH(32)"
    show "bit (crc_pack xs) k \<longleftrightarrow> bit (crc_pack ys) k"
    proof (cases "k < 24")
      case True
      then show ?thesis
        using high [of k x xs] high [of k y ys] Cons.prems by simp
    next
      case False
      have "length xs \<le> 3" and "length ys \<le> 3"
        using Cons.prems Cons.hyps by auto
      with False show ?thesis
        using bit_crc_pack [of xs k] bit_crc_pack [of ys k] by linarith
    qed
  qed
  ultimately show ?case
    using Cons by simp
qed

lemma crc_update_append: "crc_update s (xs @ ys) = crc_update (crc_update s xs) ys"
  by (simp add: crc_update_def)

lemma crc_byte_state_inj: "crc_byte s b = crc_byte t b \<longleftrightarrow> s = t"
  using word_xor_inj [of "ucast b" s t] by (simp add: crc_byte_def crc_pow_inj xor.commute)

lemma crc_update_state_inj: "crc_update s bs = crc_update t bs \<longleftrightarrow> s = t"
  by (induction bs arbitrary: s t) (auto simp: crc_update_def crc_byte_state_inj)

lemma crc_window_differs:
  assumes "length xs = length ys" and "length xs \<le> 4" and "xs \<noteq> ys"
  shows "crc_update s (pre @ xs @ post) \<noteq> crc_update s (pre @ ys @ post)"
proof
  assume "crc_update s (pre @ xs @ post) = crc_update s (pre @ ys @ post)"
  then have "crc_update (crc_update s pre) xs = crc_update (crc_update s pre) ys"
    by (simp add: crc_update_append crc_update_state_inj)
  then have "crc_update s pre XOR crc_pack xs = crc_update s pre XOR crc_pack ys"
    using assms(1,2) by (simp add: crc_update_pack crc_pow_inj)
  then have "crc_pack xs = crc_pack ys"
    by (simp add: word_xor_inj)
  with assms show False
    using crc_pack_inj by blast
qed

lemma checksum_window_differs:
  assumes "length xs = length ys" and "length xs \<le> 4" and "xs \<noteq> ys"
  shows "checksum_ieee (pre @ xs @ post) \<noteq> checksum_ieee (pre @ ys @ post)"
  using crc_window_differs [OF assms] by (simp add: checksum_ieee_def)

end
