(* ===== verification/Mpq_Chunk.thy ===== *)
theory Mpq_Chunk
  imports Mpq_Stream Mpq_Crc32
begin

text \<open>
  The chunk layer of \<^verbatim>\<open>internal/transfer/chunk.go\<close>: splitting a burst into chunks, the
  chunk frame on the wire and the per-chunk checksum.  The reassembler of the same file is
  in \<open>Mpq_Reassembler\<close>.
\<close>

section \<open>Chunks and their checksum\<close>

record Chunk =
  c_Seq :: u64
  c_Offset :: u64
  c_BurstID :: u64
  c_BurstBytes :: u64
  c_Checksum :: u32
  c_Data :: "byte list"

definition VerifyChecksum :: "Chunk \<Rightarrow> bool" where
  "VerifyChecksum c = (checksum_ieee (c_Data c) = c_Checksum c)"

section \<open>Split\<close>

text \<open>
  The loop of \<^verbatim>\<open>Split\<close>, with its offset, its sequence number and the slice it appends to.
  With a chunk size of zero the offset never moves: the loop does not end, which is the
  value \<open>None\<close>.
\<close>

definition split_chunk :: "byte list \<Rightarrow> nat \<Rightarrow> u64 \<Rightarrow> u64 \<Rightarrow> nat \<Rightarrow> u64 \<Rightarrow> Chunk" where
  "split_chunk data chunkSize burstID burstBytes offset seq =
     (let end0 = offset + chunkSize;
          end = (if end0 > length data then length data else end0)
      in \<lparr>c_Seq = seq, c_Offset = of_nat offset, c_BurstID = burstID,
          c_BurstBytes = burstBytes, c_Checksum = 0,
          c_Data = take (end - offset) (drop offset data)\<rparr>)"

partial_function (option) split_loop ::
  "byte list \<Rightarrow> nat \<Rightarrow> u64 \<Rightarrow> u64 \<Rightarrow> nat \<Rightarrow> u64 \<Rightarrow> Chunk list \<Rightarrow> Chunk list option" where
  "split_loop data chunkSize burstID burstBytes offset seq chunks =
     (if offset < length data
      then split_loop data chunkSize burstID burstBytes (offset + chunkSize) (seq + 1)
             (chunks @ [split_chunk data chunkSize burstID burstBytes offset seq])
      else Some chunks)"

definition effective_chunk_size :: "byte list \<Rightarrow> u32 \<Rightarrow> u32" where
  "effective_chunk_size data chunkSize = (if chunkSize = 0 then len_u32 data else chunkSize)"

definition Split :: "byte list \<Rightarrow> u32 \<Rightarrow> u64 \<Rightarrow> u64 \<Rightarrow> Chunk list option" where
  "Split data chunkSize burstID burstBytes =
     split_loop data (unat (effective_chunk_size data chunkSize)) burstID burstBytes 0 0 []"

text \<open>The chunks a terminating run produces, written out directly.\<close>

definition num_chunks :: "nat \<Rightarrow> nat \<Rightarrow> nat" where
  "num_chunks len csz = (len + csz - 1) div csz"

definition nth_chunk :: "byte list \<Rightarrow> nat \<Rightarrow> u64 \<Rightarrow> u64 \<Rightarrow> nat \<Rightarrow> Chunk" where
  "nth_chunk data csz burstID burstBytes i =
     \<lparr>c_Seq = of_nat i, c_Offset = of_nat (i * csz), c_BurstID = burstID,
      c_BurstBytes = burstBytes, c_Checksum = 0,
      c_Data = take csz (drop (i * csz) data)\<rparr>"

definition split_list :: "byte list \<Rightarrow> nat \<Rightarrow> u64 \<Rightarrow> u64 \<Rightarrow> Chunk list" where
  "split_list data csz burstID burstBytes =
     map (nth_chunk data csz burstID burstBytes) [0..<num_chunks (length data) csz]"

lemma less_num_chunks_iff:
  assumes "0 < csz"
  shows "i < num_chunks len csz \<longleftrightarrow> i * csz < len"
proof -
  have "i < num_chunks len csz \<longleftrightarrow> Suc i \<le> (len + csz - 1) div csz"
    by (auto simp: num_chunks_def)
  also have "\<dots> \<longleftrightarrow> Suc i * csz \<le> len + csz - 1"
    using assms by (simp add: less_eq_div_iff_mult_less_eq)
  also have "\<dots> \<longleftrightarrow> i * csz < len"
    using assms by auto
  finally show ?thesis .
qed

lemma num_chunks_pos: "0 < csz \<Longrightarrow> 0 < num_chunks len csz \<longleftrightarrow> 0 < len"
  using less_num_chunks_iff [of csz 0 len] by simp

lemma num_chunks_le:
  assumes "0 < sz"
  shows "num_chunks len sz \<le> len"
proof -
  have "\<not> len * sz < len"
    using assms by (cases sz) auto
  then show ?thesis
    using less_num_chunks_iff [OF assms, of len len] assms by auto
qed

lemma split_chunk_eq_nth:
  "split_chunk data csz burstID burstBytes (i * csz) (of_nat i)
     = nth_chunk data csz burstID burstBytes i"
proof -
  have "take (length data - i * csz) (drop (i * csz) data) = drop (i * csz) data"
    by simp
  moreover have "take csz (drop (i * csz) data) = drop (i * csz) data"
    if "length data < i * csz + csz"
    using that by simp
  ultimately show ?thesis
    by (auto simp: split_chunk_def nth_chunk_def Let_def)
qed

lemma split_loop_progress:
  assumes "0 < csz" and "i \<le> num_chunks (length data) csz"
  shows "split_loop data csz burstID burstBytes (i * csz) (of_nat i) acc
      = Some (acc @ map (nth_chunk data csz burstID burstBytes)
                       [i..<num_chunks (length data) csz])"
  using assms(2)
proof (induction "num_chunks (length data) csz - i" arbitrary: i acc)
  case 0
  then have i: "i = num_chunks (length data) csz"
    by simp
  then have "\<not> i * csz < length data"
    using less_num_chunks_iff [OF assms(1), of i "length data"] by simp
  with i show ?case
    by (simp add: split_loop.simps)
next
  case (Suc k)
  then have lt: "i < num_chunks (length data) csz"
    by simp
  then have off: "i * csz < length data"
    using less_num_chunks_iff [OF assms(1), of i "length data"] by simp
  let ?acc = "acc @ [nth_chunk data csz burstID burstBytes i]"
  have "split_loop data csz burstID burstBytes (Suc i * csz) (of_nat (Suc i)) ?acc
      = Some (?acc @ map (nth_chunk data csz burstID burstBytes)
                         [Suc i..<num_chunks (length data) csz])"
    by (rule Suc.hyps(1)) (use Suc.hyps(2) lt in auto)
  moreover have "split_loop data csz burstID burstBytes (i * csz) (of_nat i) acc
      = split_loop data csz burstID burstBytes (Suc i * csz) (of_nat (Suc i)) ?acc"
    by (subst split_loop.simps) (simp add: off split_chunk_eq_nth add.commute)
  ultimately show ?case
    using lt by (simp add: upt_conv_Cons)
qed

lemma split_loop_stuck:
  assumes "split_loop data 0 burstID burstBytes offset seq acc = Some r"
  shows "\<not> offset < length data"
proof (rule split_loop.raw_induct
    [where P = "\<lambda>data cs bid bb offset seq acc r. cs = 0 \<longrightarrow> \<not> offset < length data",
     OF _ assms, THEN mp])
  fix f data cs bid bb offset seq acc r
  assume IH: "\<And>data cs bid bb offset seq acc r.
      f data cs bid bb offset seq acc = Some r \<Longrightarrow> cs = (0::nat) \<longrightarrow> \<not> offset < length data"
    and eq: "(if offset < length data
       then f data cs bid bb (offset + cs) (seq + 1)
              (acc @ [split_chunk data cs bid bb offset seq])
       else Some acc) = Some r"
  show "cs = 0 \<longrightarrow> \<not> offset < length data"
  proof
    assume cs: "cs = 0"
    show "\<not> offset < length data"
    proof
      assume lt: "offset < length data"
      with eq have "f data cs bid bb (offset + cs) (seq + 1)
          (acc @ [split_chunk data cs bid bb offset seq]) = Some r"
        by simp
      from IH [OF this] cs lt show False
        by simp
    qed
  qed
qed simp

lemma Split_eq_split_list:
  assumes "effective_chunk_size data chunkSize \<noteq> 0"
  shows "Split data chunkSize burstID burstBytes
      = Some (split_list data (unat (effective_chunk_size data chunkSize)) burstID burstBytes)"
proof -
  have "0 < unat (effective_chunk_size data chunkSize)"
    using assms by (simp add: unat_gt_0)
  from split_loop_progress [OF this, of 0 data burstID burstBytes "[]"] show ?thesis
    by (simp add: Split_def split_list_def)
qed

lemma Split_None_iff:
  "Split data chunkSize burstID burstBytes = None
     \<longleftrightarrow> effective_chunk_size data chunkSize = 0 \<and> data \<noteq> []"
proof (cases "effective_chunk_size data chunkSize = 0")
  case True
  show ?thesis
  proof (cases "data = []")
    case True
    then show ?thesis
      by (simp add: Split_def split_loop.simps)
  next
    case False
    then have "Split data chunkSize burstID burstBytes = None"
      using True split_loop_stuck [of data burstID burstBytes 0 0 "[]"]
      by (cases "Split data chunkSize burstID burstBytes") (auto simp: Split_def)
    with True False show ?thesis
      by simp
  qed
next
  case False
  then show ?thesis
    by (simp add: Split_eq_split_list)
qed

lemma concat_slices:
  assumes "0 < csz"
  shows "concat (map (\<lambda>i. take csz (drop (i * csz) data)) [0..<n]) = take (n * csz) data"
proof (induction n)
  case 0
  then show ?case by simp
next
  case (Suc n)
  then show ?case
    by (simp add: take_add [symmetric] add.commute)
qed

lemma split_list_concat:
  assumes "0 < csz"
  shows "concat (map c_Data (split_list data csz burstID burstBytes)) = data"
proof -
  let ?n = "num_chunks (length data) csz"
  have "length data \<le> ?n * csz"
    using less_num_chunks_iff [OF assms, of ?n "length data"] by simp
  moreover have "concat (map c_Data (split_list data csz burstID burstBytes))
      = take (?n * csz) data"
    using concat_slices [OF assms, of data ?n]
    by (simp add: split_list_def nth_chunk_def comp_def)
  ultimately show ?thesis
    by simp
qed

lemma length_split_list [simp]:
  "length (split_list data csz burstID burstBytes) = num_chunks (length data) csz"
  by (simp add: split_list_def)

lemma split_list_nth:
  "i < num_chunks (length data) csz \<Longrightarrow>
     split_list data csz burstID burstBytes ! i = nth_chunk data csz burstID burstBytes i"
  by (simp add: split_list_def)

text \<open>The length of each slice; together they make up the payload.\<close>

definition slice_len :: "byte list \<Rightarrow> nat \<Rightarrow> nat \<Rightarrow> nat" where
  "slice_len data csz i = length (take csz (drop (i * csz) data))"

lemma sum_slice_len:
  assumes "0 < csz"
  shows "sum (slice_len data csz) {..<num_chunks (length data) csz} = length data"
proof -
  let ?n = "num_chunks (length data) csz"
  have "length (concat (map (\<lambda>i. take csz (drop (i * csz) data)) [0..<?n]))
      = sum (slice_len data csz) {..<?n}"
    by (simp add: length_concat comp_def slice_len_def interv_sum_list_conv_sum_set_nat
        atLeast0LessThan)
  moreover have "length data \<le> ?n * csz"
    using less_num_chunks_iff [OF assms, of ?n "length data"] by simp
  ultimately show ?thesis
    by (simp add: concat_slices [OF assms])
qed

lemma slice_len_pos:
  assumes "0 < csz" and "i < num_chunks (length data) csz"
  shows "0 < slice_len data csz i"
  using assms less_num_chunks_iff [OF assms(1)] by (simp add: slice_len_def)

section \<open>The chunk frame\<close>

definition chunk_fields :: "Chunk \<Rightarrow> byte list list" where
  "chunk_fields c =
     [be_bytes 8 (c_Seq c),
      be_bytes 8 (c_Offset c),
      be_bytes 8 (c_BurstID c),
      be_bytes 8 (c_BurstBytes c),
      be_bytes 4 (len_u32 (c_Data c)),
      be_bytes 4 (c_Checksum c),
      c_Data c]"

definition WriteChunk :: "Chunk \<Rightarrow> wstream \<Rightarrow> io_err option \<times> wstream" where
  "WriteChunk c w =
     write_seq (chunk_fields (c\<lparr>c_Checksum := checksum_ieee (c_Data c)\<rparr>)) w"

definition ReadChunk :: "Chunk reader" where
  "ReadChunk =
     rd_bind (read_uint 8) (\<lambda>seq.
     rd_bind (read_uint 8) (\<lambda>offset.
     rd_bind (read_uint 8) (\<lambda>burstID.
     rd_bind (read_uint 8) (\<lambda>burstBytes.
     rd_bind (read_uint 4) (\<lambda>n :: u32.
     rd_bind (read_uint 4) (\<lambda>checksum.
     rd_bind (read_full (unat n)) (\<lambda>data.
     rd_return \<lparr>c_Seq = seq, c_Offset = offset, c_BurstID = burstID,
                c_BurstBytes = burstBytes, c_Checksum = checksum, c_Data = data\<rparr>)))))))"

definition chunk_bytes :: "Chunk \<Rightarrow> byte list" where
  "chunk_bytes c = concat (chunk_fields c)"

definition chunk_ok :: "Chunk \<Rightarrow> bool" where
  "chunk_ok c = (length (c_Data c) < 2 ^ 32)"

definition stamp :: "Chunk \<Rightarrow> Chunk" where
  "stamp c = c\<lparr>c_Checksum := checksum_ieee (c_Data c)\<rparr>"

lemma VerifyChecksum_stamp [simp]: "VerifyChecksum (stamp c)"
  by (simp add: VerifyChecksum_def stamp_def)

lemma stamp_simps [simp]:
  "c_Seq (stamp c) = c_Seq c" "c_Offset (stamp c) = c_Offset c"
  "c_BurstID (stamp c) = c_BurstID c" "c_BurstBytes (stamp c) = c_BurstBytes c"
  "c_Data (stamp c) = c_Data c" "chunk_ok (stamp c) = chunk_ok c"
  by (simp_all add: stamp_def chunk_ok_def)

lemma WriteChunk_healthy:
  "wstat w = Healthy \<Longrightarrow> WriteChunk c w = (None, w\<lparr>wout := wout w @ chunk_bytes (stamp c)\<rparr>)"
  by (simp add: WriteChunk_def write_seq_healthy chunk_bytes_def stamp_def)

lemma length_chunk_bytes: "length (chunk_bytes c) = 40 + length (c_Data c)"
  by (simp add: chunk_bytes_def chunk_fields_def)

lemma ReadChunk_bytes:
  assumes "chunk_ok c"
  shows "ReadChunk (s\<lparr>rbuf := chunk_bytes c @ rest\<rparr>) = Inr (c, s\<lparr>rbuf := rest\<rparr>)"
  using assms
  by (simp add: ReadChunk_def chunk_bytes_def chunk_fields_def wire_simps chunk_ok_def unat_len_u32)

lemma ReadChunk_sound:
  assumes "ReadChunk s = Inr (c, s')"
  shows "chunk_ok c \<and> rbuf s = chunk_bytes c @ rbuf s' \<and> rend s' = rend s"
proof -
  from assms obtain s1 s2 s3 s4 s5 s6 seq offset bid bb n checksum data where
    r: "read_uint 8 s = Inr (seq, s1)" "read_uint 8 s1 = Inr (offset, s2)"
       "read_uint 8 s2 = Inr (bid, s3)" "read_uint 8 s3 = Inr (bb, s4)"
       "read_uint 4 s4 = Inr (n :: u32, s5)" "read_uint 4 s5 = Inr (checksum, s6)"
    and d: "read_full (unat n) s6 = Inr (data, s')"
    and c: "c = \<lparr>c_Seq = seq, c_Offset = offset, c_BurstID = bid,
                 c_BurstBytes = bb, c_Checksum = checksum, c_Data = data\<rparr>"
    unfolding ReadChunk_def
    by (auto elim!: rd_bind_InrE simp: rd_return_def)
  have dlen: "length data = unat n"
    by (rule read_full_InrD(1) [OF d])
  then have "length data < 2 ^ 32"
    using unsigned_less [where w = n and 'a = nat] by simp
  moreover have "len_u32 data = n"
    using dlen by (simp add: len_u32_def)
  ultimately show ?thesis
    using r [THEN read_uint_InrD(1)] r [THEN read_uint_InrD(2)] read_full_InrD(2,3) [OF d]
    by (simp add: c chunk_ok_def chunk_bytes_def chunk_fields_def)
qed

interpretation chunk_wire: wire_codec chunk_bytes ReadChunk chunk_ok
proof unfold_locales
  fix c s rest
  assume "chunk_ok c"
  then show "ReadChunk (s\<lparr>rbuf := chunk_bytes c @ rest\<rparr>) = Inr (c, s\<lparr>rbuf := rest\<rparr>)"
    by (rule ReadChunk_bytes)
next
  fix s s' c
  assume "ReadChunk s = Inr (c, s')"
  then show "chunk_ok c \<and> rbuf s = chunk_bytes c @ rbuf s' \<and> rend s' = rend s"
    by (rule ReadChunk_sound)
next
  fix c
  show "chunk_bytes c \<noteq> []"
    using length_chunk_bytes [of c] by auto
qed

section \<open>Where a stream may end\<close>

text \<open>The data length announced by the frame at the head of a stream.\<close>

definition announced_len :: "rstream \<Rightarrow> nat" where
  "announced_len s = unat (be_word (take 4 (drop 32 (rbuf s))) :: u32)"

lemmas ReadChunk_unfold =
  ReadChunk_def rd_bind_read_uint rd_bind_read_full short_err_def rd_return_def

lemma ReadChunk_header_short:
  assumes "length (rbuf s) < 40"
  shows "ReadChunk s = Inl (if length (rbuf s) \<in> {0, 8, 16, 24, 32, 36} \<or> rend s \<noteq> EOF
                            then rend s else ErrUnexpectedEOF)"
proof -
  consider "length (rbuf s) < 8" | "8 \<le> length (rbuf s)" "length (rbuf s) < 16"
    | "16 \<le> length (rbuf s)" "length (rbuf s) < 24" | "24 \<le> length (rbuf s)" "length (rbuf s) < 32"
    | "32 \<le> length (rbuf s)" "length (rbuf s) < 36" | "36 \<le> length (rbuf s)" "length (rbuf s) < 40"
    using assms by linarith
  then show ?thesis
    by cases (auto simp add: ReadChunk_unfold le_diff_pos)
qed

lemma ReadChunk_data_short:
  assumes "40 \<le> length (rbuf s)" and "length (rbuf s) < 40 + announced_len s"
  shows "ReadChunk s = Inl (if length (rbuf s) = 40 \<or> rend s \<noteq> EOF
                            then rend s else ErrUnexpectedEOF)"
  using assms by (auto simp add: ReadChunk_unfold announced_len_def le_diff_pos)

lemma ReadChunk_complete:
  assumes "40 + announced_len s \<le> length (rbuf s)"
  shows "\<exists>c. ReadChunk s = Inr (c, s\<lparr>rbuf := drop (40 + announced_len s) (rbuf s)\<rparr>)"
  using assms by (auto simp add: ReadChunk_unfold announced_len_def le_diff_pos add.commute)

section \<open>Reading a path's stream to its end\<close>

text \<open>
  The read loop of \<^verbatim>\<open>handleConn\<close> calls \<^verbatim>\<open>ReadChunk\<close> until it fails: the chunks it gets
  and the error that ends it.  Each frame is at least forty bytes, so the loop ends.
\<close>

function read_chunks :: "rstream \<Rightarrow> Chunk list \<times> io_err" where
  "read_chunks s =
     (case ReadChunk s of
        Inl e \<Rightarrow> ([], e)
      | Inr (c, s') \<Rightarrow> (let (cs, e) = read_chunks s' in (c # cs, e)))"
  by pat_completeness auto
termination
  by (relation "measure (\<lambda>s. length (rbuf s))") (auto dest: chunk_wire.dec_consumes)

declare read_chunks.simps [simp del]

lemma read_chunks_concat:
  assumes "list_all chunk_ok cs"
  shows "read_chunks \<lparr>rbuf = concat (map chunk_bytes cs) @ rest, rend = e\<rparr>
      = (let (ds, e') = read_chunks \<lparr>rbuf = rest, rend = e\<rparr> in (cs @ ds, e'))"
  using assms
proof (induction cs)
  case Nil
  then show ?case by simp
next
  case (Cons c cs)
  let ?tail = "concat (map chunk_bytes cs) @ rest"
  have "ReadChunk \<lparr>rbuf = chunk_bytes c @ ?tail, rend = e\<rparr> = Inr (c, \<lparr>rbuf = ?tail, rend = e\<rparr>)"
    using chunk_wire.dec_enc_stream [of c "\<lparr>rbuf = chunk_bytes c @ ?tail, rend = e\<rparr>" ?tail] Cons.prems
    by simp
  then show ?case
    using Cons by (subst read_chunks.simps) (simp split: prod.splits)
qed

lemma read_chunks_nil [simp]: "read_chunks \<lparr>rbuf = [], rend = e\<rparr> = ([], e)"
  by (simp add: read_chunks.simps [of "\<lparr>rbuf = [], rend = e\<rparr>"] ReadChunk_header_short)

lemma read_chunks_written:
  assumes "list_all chunk_ok cs"
  shows "read_chunks \<lparr>rbuf = concat (map chunk_bytes cs), rend = e\<rparr> = (cs, e)"
  using read_chunks_concat [OF assms, of "[]" e] by simp

lemma read_chunks_prefix:
  "read_chunks s = (cs, e) \<Longrightarrow>
     list_all chunk_ok cs \<and> (\<exists>rest. rbuf s = concat (map chunk_bytes cs) @ rest
        \<and> ReadChunk (s\<lparr>rbuf := rest\<rparr>) = Inl e)"
proof (induction s arbitrary: cs e rule: read_chunks.induct)
  case (1 s)
  show ?case
  proof (cases "ReadChunk s")
    case (Inl a)
    with "1.prems" show ?thesis
      by (simp add: read_chunks.simps [of s])
  next
    case (Inr p)
    obtain c s' where p: "p = (c, s')"
      by (cases p)
    obtain ds where ds: "read_chunks s' = (ds, e)" and cs: "cs = c # ds"
      using "1.prems" Inr p by (auto simp: read_chunks.simps [of s] split: prod.splits)
    from "1.IH" [OF Inr p [symmetric] ds] obtain rest where
      ok: "list_all chunk_ok ds" and b: "rbuf s' = concat (map chunk_bytes ds) @ rest"
      and r: "ReadChunk (s'\<lparr>rbuf := rest\<rparr>) = Inl e"
      by auto
    have snd: "chunk_ok c" "rbuf s = chunk_bytes c @ rbuf s'" "rend s' = rend s"
      using ReadChunk_sound [of s c s'] Inr p by auto
    have "s'\<lparr>rbuf := rest\<rparr> = s\<lparr>rbuf := rest\<rparr>"
      using snd(3) by (cases s; cases s') simp
    with ok b r snd show ?thesis
      by (auto simp: cs)
  qed
qed

section \<open>Properties\<close>

text \<open>
  C27: \<^verbatim>\<open>Split\<close> never returns exactly when the chunk size it ends up using is zero and there
  is data: the default for \<^verbatim>\<open>chunkSize == 0\<close> is the length cut to 32 bits, which is zero
  for a payload whose length is a positive multiple of \<open>2 ^ 32\<close>.  On every other input it
  returns.
\<close>

theorem Split_terminates_iff:
  "(\<exists>chunks. Split data chunkSize burstID burstBytes = Some chunks)
     \<longleftrightarrow> \<not> (chunkSize = 0 \<and> data \<noteq> [] \<and> 2 ^ 32 dvd length data)"
proof -
  have "len_u32 data = 0 \<longleftrightarrow> 2 ^ 32 dvd length data"
    by (simp add: len_u32_def word_of_nat_eq_0_iff)
  then show ?thesis
    using Split_None_iff [of data chunkSize burstID burstBytes]
    by (auto simp: effective_chunk_size_def split: if_splits)
qed

text \<open>
  C8: the chunks of \<^verbatim>\<open>Split\<close> are the payload cut at the multiples of the chunk size:
  their data joined in order is the payload, the \<open>i\<close>-th has sequence number \<open>i\<close>, offset
  \<open>i * chunkSize\<close> and the burst's id and size, every chunk but the last is full and none
  is empty.
\<close>

theorem Split_partitions:
  assumes "Split data chunkSize burstID burstBytes = Some chunks"
  shows "concat (map c_Data chunks) = data \<and>
    (\<forall>i < length chunks.
       let sz = unat (effective_chunk_size data chunkSize); c = chunks ! i in
         c_Seq c = of_nat i \<and> c_Offset c = of_nat (i * sz) \<and>
         c_BurstID c = burstID \<and> c_BurstBytes c = burstBytes \<and>
         c_Data c = take sz (drop (i * sz) data) \<and> c_Data c \<noteq> [] \<and>
         (Suc i < length chunks \<longrightarrow> length (c_Data c) = sz))"
proof (cases "effective_chunk_size data chunkSize = 0")
  case True
  with assms have "data = []"
    using Split_None_iff [of data chunkSize burstID burstBytes] by auto
  with assms show ?thesis
    by (simp add: Split_def split_loop.simps)
next
  case False
  let ?sz = "unat (effective_chunk_size data chunkSize)"
  have pos: "0 < ?sz"
    using False by (simp add: unat_gt_0)
  have chunks: "chunks = split_list data ?sz burstID burstBytes"
    using assms False by (simp add: Split_eq_split_list)
  have inside: "\<not> length data \<le> i * ?sz" if "i < length chunks" for i
    using that less_num_chunks_iff [OF pos] by (simp add: chunks)
  have "length data - i * ?sz \<ge> ?sz" if "Suc i < length chunks" for i
    using inside [OF that] by simp
  with inside pos show ?thesis
    by (auto simp: chunks split_list_concat [OF pos] split_list_nth nth_chunk_def Let_def)
qed

theorem Split_partitions_witness:
  "\<exists>chunks. Split [1, 2, 3, 4, 5] 2 7 5 = Some chunks \<and> concat (map c_Data chunks) = [1, 2, 3, 4, 5]"
proof -
  have "Split [1, 2, 3, 4, 5] 2 7 5 \<noteq> None"
    by (simp add: Split_None_iff effective_chunk_size_def)
  then obtain chunks where "Split [1, 2, 3, 4, 5] 2 7 5 = Some chunks"
    by auto
  with Split_partitions [OF this] show ?thesis
    by blast
qed

text \<open>
  C9: what \<^verbatim>\<open>WriteChunk\<close> puts on a stream, \<^verbatim>\<open>ReadChunk\<close> takes off it: the same chunk with
  the checksum of its data, which verifies, and the bytes after the frame are left alone.
\<close>

theorem WriteChunk_ReadChunk:
  assumes "length (c_Data c) < 2 ^ 32" and "wstat w = Healthy"
    and "WriteChunk c w = (r, w')"
  shows "\<exists>frame. r = None \<and> wout w' = wout w @ frame \<and>
    ReadChunk \<lparr>rbuf = frame @ rest, rend = e\<rparr>
      = Inr (c\<lparr>c_Checksum := checksum_ieee (c_Data c)\<rparr>, \<lparr>rbuf = rest, rend = e\<rparr>) \<and>
    VerifyChecksum (c\<lparr>c_Checksum := checksum_ieee (c_Data c)\<rparr>)"
proof -
  have "chunk_ok (stamp c)"
    using assms(1) by (simp add: chunk_ok_def)
  from chunk_wire.dec_enc_stream [OF this, of "\<lparr>rbuf = chunk_bytes (stamp c) @ rest, rend = e\<rparr>" rest]
  have "ReadChunk \<lparr>rbuf = chunk_bytes (stamp c) @ rest, rend = e\<rparr>
      = Inr (stamp c, \<lparr>rbuf = rest, rend = e\<rparr>)"
    by simp
  moreover have "r = None \<and> wout w' = wout w @ chunk_bytes (stamp c)"
    using assms(2,3) by (auto simp: WriteChunk_healthy)
  ultimately show ?thesis
    using VerifyChecksum_stamp [of c] by (auto simp: stamp_def)
qed

theorem WriteChunk_ReadChunk_witness:
  "\<exists>frame. wout (snd (WriteChunk
      \<lparr>c_Seq = 7, c_Offset = 12345, c_BurstID = 42, c_BurstBytes = 999000, c_Checksum = 0,
       c_Data = [104, 105]\<rparr> \<lparr>wout = [], wstat = Healthy\<rparr>)) = frame \<and>
    (\<exists>c. ReadChunk \<lparr>rbuf = frame @ [9], rend = EOF\<rparr> = Inr (c, \<lparr>rbuf = [9], rend = EOF\<rparr>) \<and>
      VerifyChecksum c)"
proof -
  let ?c = "\<lparr>c_Seq = 7, c_Offset = 12345, c_BurstID = 42, c_BurstBytes = 999000, c_Checksum = 0,
       c_Data = [104, 105]\<rparr>"
  let ?w = "\<lparr>wout = [], wstat = Healthy\<rparr>"
  obtain r w' where "WriteChunk ?c ?w = (r, w')"
    by (cases "WriteChunk ?c ?w")
  with WriteChunk_ReadChunk [of ?c ?w r w' "[9]" EOF] show ?thesis
    by auto
qed

text \<open>
  C28: which stream ends \<^verbatim>\<open>ReadChunk\<close> reports as a clean \<open>EOF\<close>.  A stream whose FIN falls
  inside a frame, but on the boundary between two of its fields (after 8, 16, 24, 32 or 36
  bytes, or after the whole header of a chunk that announces data), is reported exactly
  like one that ends between two frames.
\<close>

theorem ReadChunk_EOF_iff:
  assumes "rend s = EOF"
  shows "ReadChunk s = Inl EOF \<longleftrightarrow>
    length (rbuf s) \<in> {0, 8, 16, 24, 32, 36} \<or> (length (rbuf s) = 40 \<and> announced_len s \<noteq> 0)"
proof -
  consider "length (rbuf s) < 40"
    | "40 \<le> length (rbuf s)" "length (rbuf s) < 40 + announced_len s"
    | "40 + announced_len s \<le> length (rbuf s)"
    by linarith
  then show ?thesis
  proof cases
    case 1
    with assms show ?thesis
      by (simp add: ReadChunk_header_short)
  next
    case 2
    with assms show ?thesis
      by (auto simp: ReadChunk_data_short)
  next
    case 3
    with ReadChunk_complete [OF 3] show ?thesis
      by auto
  qed
qed

theorem ReadChunk_EOF_iff_witness:
  "ReadChunk \<lparr>rbuf = be_bytes 8 (0 :: u64), rend = EOF\<rparr> = Inl EOF"
  by (subst ReadChunk_EOF_iff) simp_all

text \<open>
  C24: the per-chunk checksum catches every corruption of a chunk's data that is confined
  to four consecutive bytes, wherever it is and however long the chunk.
\<close>

theorem VerifyChecksum_detects_burst_error:
  assumes "VerifyChecksum c" and "c_Data c = pre @ old @ post"
    and "length new = length old" and "length old \<le> 4" and "new \<noteq> old"
  shows "\<not> VerifyChecksum (c\<lparr>c_Data := pre @ new @ post\<rparr>)"
  using assms checksum_window_differs [of new old pre post]
  by (simp add: VerifyChecksum_def)

theorem VerifyChecksum_detects_burst_error_witness:
  "\<not> VerifyChecksum \<lparr>c_Seq = 1, c_Offset = 0, c_BurstID = 0, c_BurstBytes = 3,
      c_Checksum = checksum_ieee [1, 2, 3], c_Data = [1, 0xFD, 3]\<rparr>"
  using VerifyChecksum_detects_burst_error
    [of "\<lparr>c_Seq = 1, c_Offset = 0, c_BurstID = 0, c_BurstBytes = 3,
      c_Checksum = checksum_ieee [1, 2, 3], c_Data = [1, 2, 3]\<rparr>" "[1]" "[2]" "[3]" "[0xFD]"]
  by (simp add: VerifyChecksum_def)

end
