(* ===== verification/Mpq_Registry.thy ===== *)
theory Mpq_Registry
  imports Mpq_Base "HOL-Library.AList" "HOL-Library.Char_ord" "HOL-Library.List_Lexorder"
begin

text \<open>
  The name registries of the program.  \<^verbatim>\<open>internal/scheduler/scheduler.go\<close> and
  \<^verbatim>\<open>internal/ccmodules/registry.go\<close> hold the same code over different factories: a Go map
  from names to factories, filled by the \<^verbatim>\<open>init\<close> functions, searched by \<^verbatim>\<open>Get\<close> and listed
  in sorted order by \<^verbatim>\<open>Names\<close>.  The contract is the locale \<open>name_registry\<close>; the two
  packages interpret it on their own definitions.
\<close>

text \<open>
  A Go map is an association list with distinct keys: its order is one order in which the
  run time may enumerate the map.  Strings compare byte by byte, as \<^verbatim>\<open>sort.Strings\<close> does.
\<close>

type_synonym 'f registry = "(string \<times> 'f) list"

datatype registry_error = UnknownName string "string list"

definition registry_wf :: "'f registry \<Rightarrow> bool" where
  "registry_wf r = distinct (map fst r)"

lemma registry_wf_Nil [simp]: "registry_wf []"
  by (simp add: registry_wf_def)

lemma registry_wf_update [inv_intros]: "registry_wf r \<Longrightarrow> registry_wf (AList.update n f r)"
  by (simp add: registry_wf_def AList.distinct_update)

lemma keys_update: "fst ` set (AList.update n f r) = insert n (fst ` set r)"
  by (simp add: dom_map_of_conv_image_fst [symmetric] AList.update_conv')

lemma sorted_distinct_set_unique_names:
  assumes "sorted xs" "distinct xs" "sorted ys" "distinct ys" "set xs = set ys"
  shows "xs = (ys :: string list)"
  using assms by (rule sorted_distinct_set_unique)

locale name_registry =
  fixes register :: "string \<Rightarrow> 'f \<Rightarrow> 'f registry \<Rightarrow> 'f registry"
    and lookup :: "string \<Rightarrow> 'f registry \<Rightarrow> registry_error + 'f"
    and names :: "'f registry \<Rightarrow> string list"
  assumes wf_register: "registry_wf r \<Longrightarrow> registry_wf (register n f r)"
    and map_of_register: "registry_wf r \<Longrightarrow> map_of (register n f r) = (map_of r)(n \<mapsto> f)"
    and lookup_known: "registry_wf r \<Longrightarrow> map_of r n = Some f \<Longrightarrow> lookup n r = Inr f"
    and lookup_unknown: "registry_wf r \<Longrightarrow> map_of r n = None \<Longrightarrow>
          lookup n r = Inl (UnknownName n (names r))"
    and names_spec: "registry_wf r \<Longrightarrow>
          sorted (names r) \<and> distinct (names r) \<and> set (names r) = dom (map_of r)"
begin

lemma lookup_after_register:
  "registry_wf r \<Longrightarrow> lookup n (register m f r) =
     (if n = m then Inr f else
      (case map_of r n of Some g \<Rightarrow> Inr g
       | None \<Rightarrow> Inl (UnknownName n (names (register m f r)))))"
  by (auto simp: wf_register map_of_register lookup_known lookup_unknown split: option.splits)

lemma lookup_Inr_iff: "registry_wf r \<Longrightarrow> (\<exists>f. lookup n r = Inr f) \<longleftrightarrow> n \<in> set (names r)"
  using names_spec [of r] lookup_known [of r n] lookup_unknown [of r n]
  by (cases "map_of r n") auto

lemma names_register:
  "registry_wf r \<Longrightarrow> set (names (register n f r)) = insert n (set (names r))"
  using names_spec [of r] names_spec [of "register n f r"]
  by (simp add: wf_register map_of_register)

text \<open>The listing does not depend on the order in which the map is enumerated.\<close>

lemma names_order_free:
  assumes "registry_wf r" and "registry_wf r'" and "dom (map_of r) = dom (map_of r')"
  shows "names r = names r'"
  by (rule sorted_distinct_set_unique_names) (use names_spec assms in auto)

end

end
