(* ===== verification/Mpq_Scheduler.thy ===== *)
theory Mpq_Scheduler
  imports Mpq_Registry
begin

text \<open>
  The path schedulers of \<^verbatim>\<open>internal/scheduler\<close>: \<open>roundrobin\<close>, \<open>redundant\<close> and \<open>rtt-aware\<close>,
  the registry they are selected from by name, and the contract \<open>path_scheduler\<close> on which
  the client's send loop relies: every chunk goes to at least one of the offered paths and
  to no other index.
\<close>

section \<open>Path information\<close>

record PathInfo =
  pi_Index :: int
  pi_RTT :: int

section \<open>The schedulers\<close>

record roundRobin =
  rr_n :: u64

definition roundRobin_Assign ::
  "roundRobin \<Rightarrow> u64 \<Rightarrow> PathInfo list \<Rightarrow> int list \<times> roundRobin" where
  "roundRobin_Assign r chunkSeq paths =
     (if paths = [] then ([], r)
      else let idx = rr_n r mod len_u64 paths
           in ([pi_Index (paths ! unat idx)], r\<lparr>rr_n := rr_n r + 1\<rparr>))"

definition redundant_Assign :: "u64 \<Rightarrow> PathInfo list \<Rightarrow> int list" where
  "redundant_Assign chunkSeq paths = map pi_Index paths"

record rttAware =
  ra_fallback :: roundRobin

text \<open>The search loop: \<open>-1\<close> is the source's mark for "no path measured yet".\<close>

fun rttAware_best :: "PathInfo list \<Rightarrow> int \<Rightarrow> int \<Rightarrow> int" where
  "rttAware_best [] best bestRTT = best"
| "rttAware_best (p # ps) best bestRTT =
     (if pi_RTT p \<le> 0 then rttAware_best ps best bestRTT
      else if best = -1 \<or> pi_RTT p < bestRTT
      then rttAware_best ps (pi_Index p) (pi_RTT p)
      else rttAware_best ps best bestRTT)"

definition rttAware_Assign ::
  "rttAware \<Rightarrow> u64 \<Rightarrow> PathInfo list \<Rightarrow> int list \<times> rttAware" where
  "rttAware_Assign s chunkSeq paths =
     (if paths = [] then ([], s)
      else let best = rttAware_best paths (-1) 0
           in if best = -1
              then let (idxs, fb) = roundRobin_Assign (ra_fallback s) chunkSeq paths
                   in (idxs, s\<lparr>ra_fallback := fb\<rparr>)
              else ([best], s))"

text \<open>A value of the interface type \<^verbatim>\<open>Scheduler\<close> is one of the implementations.\<close>

datatype Scheduler = RoundRobin roundRobin | Redundant | RttAware rttAware

fun Assign :: "Scheduler \<Rightarrow> u64 \<Rightarrow> PathInfo list \<Rightarrow> int list \<times> Scheduler" where
  "Assign (RoundRobin r) q ps = (let (i, r') = roundRobin_Assign r q ps in (i, RoundRobin r'))"
| "Assign Redundant q ps = (redundant_Assign q ps, Redundant)"
| "Assign (RttAware s) q ps = (let (i, s') = rttAware_Assign s q ps in (i, RttAware s'))"

section \<open>The registry\<close>

text \<open>A factory takes no argument: it is the fresh scheduler it returns.\<close>

definition scheduler_Register :: "string \<Rightarrow> Scheduler \<Rightarrow> Scheduler registry \<Rightarrow> Scheduler registry" where
  "scheduler_Register name f r = AList.update name f r"

definition scheduler_Names :: "Scheduler registry \<Rightarrow> string list" where
  "scheduler_Names r = sort (map fst r)"

definition scheduler_Get :: "string \<Rightarrow> Scheduler registry \<Rightarrow> registry_error + Scheduler" where
  "scheduler_Get name r =
     (case map_of r name of
        None \<Rightarrow> Inl (UnknownName name (scheduler_Names r))
      | Some f \<Rightarrow> Inr f)"

text \<open>The registry after the package's \<^verbatim>\<open>init\<close> functions, one per file.\<close>

definition schedulers :: "Scheduler registry" where
  "schedulers =
     scheduler_Register ''rtt-aware'' (RttAware \<lparr>ra_fallback = \<lparr>rr_n = 0\<rparr>\<rparr>)
       (scheduler_Register ''roundrobin'' (RoundRobin \<lparr>rr_n = 0\<rparr>)
         (scheduler_Register ''redundant'' Redundant []))"

interpretation sched_reg: name_registry scheduler_Register scheduler_Get scheduler_Names
proof unfold_locales
  fix r :: "Scheduler registry" and n f
  assume wf: "registry_wf r"
  show "registry_wf (scheduler_Register n f r)"
    using wf by (simp add: scheduler_Register_def inv_intros)
  show "map_of (scheduler_Register n f r) = (map_of r)(n \<mapsto> f)"
    by (simp add: scheduler_Register_def AList.update_conv')
  show "sorted (scheduler_Names r) \<and> distinct (scheduler_Names r)
      \<and> set (scheduler_Names r) = dom (map_of r)"
    using wf by (simp add: scheduler_Names_def registry_wf_def dom_map_of_conv_image_fst)
next
  fix r :: "Scheduler registry" and n f
  assume "map_of r n = Some f"
  then show "scheduler_Get n r = Inr f"
    by (simp add: scheduler_Get_def)
next
  fix r :: "Scheduler registry" and n
  assume "map_of r n = None"
  then show "scheduler_Get n r = Inl (UnknownName n (scheduler_Names r))"
    by (simp add: scheduler_Get_def)
qed

lemma registry_wf_schedulers: "registry_wf schedulers"
  by (simp add: schedulers_def sched_reg.wf_register)

lemma scheduler_Names_schedulers:
  "set (scheduler_Names schedulers) = {''roundrobin'', ''redundant'', ''rtt-aware''}"
  by (auto simp: schedulers_def sched_reg.names_register sched_reg.wf_register)
    (simp_all add: scheduler_Names_def)

section \<open>The contract of a scheduler\<close>

text \<open>
  The loop of the client asks the scheduler once per chunk, with the paths' latest round
  trip times.
\<close>

fun run_assign ::
  "('s \<Rightarrow> u64 \<Rightarrow> PathInfo list \<Rightarrow> int list \<times> 's) \<Rightarrow> 's \<Rightarrow> (u64 \<times> PathInfo list) list \<Rightarrow>
     int list list \<times> 's" where
  "run_assign assign s [] = ([], s)"
| "run_assign assign s ((q, ps) # qs) =
     (let (idxs, s1) = assign s q ps; (rest, s2) = run_assign assign s1 qs
      in (idxs # rest, s2))"

locale path_scheduler =
  fixes assign :: "'s \<Rightarrow> u64 \<Rightarrow> PathInfo list \<Rightarrow> int list \<times> 's"
  assumes assign_subset: "length ps < 2 ^ 63 \<Longrightarrow> set (fst (assign s q ps)) \<subseteq> pi_Index ` set ps"
    and assign_nonempty: "length ps < 2 ^ 63 \<Longrightarrow> ps \<noteq> [] \<Longrightarrow> fst (assign s q ps) \<noteq> []"
    and assign_distinct: "length ps < 2 ^ 63 \<Longrightarrow> distinct (map pi_Index ps) \<Longrightarrow>
          distinct (fst (assign s q ps))"
begin

lemma assign_Nil: "fst (assign s q []) = []"
  using assign_subset [of "[]" s q] by simp

lemma length_run_assign: "length (fst (run_assign assign s qs)) = length qs"
  by (induction qs arbitrary: s) (auto split: prod.splits, metis fst_conv)

lemma run_assign_nth:
  "i < length qs \<Longrightarrow>
     \<exists>s'. fst (run_assign assign s qs) ! i = fst (assign s' (fst (qs ! i)) (snd (qs ! i)))"
proof (induction qs arbitrary: s i)
  case Nil
  then show ?case by simp
next
  case (Cons a qs)
  obtain q ps where a: "a = (q, ps)"
    by (cases a)
  obtain idxs s1 where s1: "assign s q ps = (idxs, s1)"
    by (cases "assign s q ps")
  obtain rest s2 where s2: "run_assign assign s1 qs = (rest, s2)"
    by (cases "run_assign assign s1 qs")
  have run: "run_assign assign s (a # qs) = (idxs # rest, s2)"
    by (simp add: a s1 s2)
  show ?case
  proof (cases i)
    case 0
    then show ?thesis
      using s1 unfolding run by (intro exI [of _ s]) (simp add: a)
  next
    case (Suc k)
    with Cons.prems have "k < length qs"
      by simp
    from Cons.IH [OF this, of s1] Suc s2 show ?thesis
      unfolding run by simp
  qed
qed

text \<open>Every chunk is given to one offered path at least and to offered paths only.\<close>

lemma run_assign_covers:
  assumes "i < length qs" and "snd (qs ! i) \<noteq> []" and "length (snd (qs ! i)) < 2 ^ 63"
  shows "fst (run_assign assign s qs) ! i \<noteq> []"
    and "set (fst (run_assign assign s qs) ! i) \<subseteq> pi_Index ` set (snd (qs ! i))"
proof -
  obtain s' where s': "fst (run_assign assign s qs) ! i
      = fst (assign s' (fst (qs ! i)) (snd (qs ! i)))"
    using run_assign_nth [OF assms(1), of s] by blast
  show "fst (run_assign assign s qs) ! i \<noteq> []"
    unfolding s' by (rule assign_nonempty [OF assms(3,2)])
  show "set (fst (run_assign assign s qs) ! i) \<subseteq> pi_Index ` set (snd (qs ! i))"
    unfolding s' by (rule assign_subset [OF assms(3)])
qed

end

text \<open>A Go slice has fewer than \<open>2 ^ 63\<close> elements, so its length is never cut to 64 bits.\<close>

lemma unat_mod_len:
  assumes "ps \<noteq> []" and "length ps < 2 ^ 63"
  shows "unat (n mod len_u64 ps) = unat n mod length ps"
    and "unat (n mod len_u64 ps) < length ps"
proof -
  show "unat (n mod len_u64 ps) = unat n mod length ps"
    using assms(2) by (simp add: unat_mod unat_len_u64)
  then show "unat (n mod len_u64 ps) < length ps"
    using assms(1) by simp
qed

lemma roundRobin_Assign_Cons:
  assumes "ps \<noteq> []" and "length ps < 2 ^ 63"
  shows "roundRobin_Assign r q ps
      = ([pi_Index (ps ! (unat (rr_n r) mod length ps))], r\<lparr>rr_n := rr_n r + 1\<rparr>)"
  using unat_mod_len(1) [OF assms] assms(1) by (simp add: roundRobin_Assign_def)

interpretation roundrobin: path_scheduler roundRobin_Assign
proof unfold_locales
  fix s q and ps :: "PathInfo list"
  assume len: "length ps < 2 ^ 63"
  show "set (fst (roundRobin_Assign s q ps)) \<subseteq> pi_Index ` set ps"
    using unat_mod_len(2) [OF _ len, of "rr_n s"] by (auto simp: roundRobin_Assign_def Let_def)
  show "distinct (fst (roundRobin_Assign s q ps))"
    by (simp add: roundRobin_Assign_def Let_def)
  assume "ps \<noteq> []"
  then show "fst (roundRobin_Assign s q ps) \<noteq> []"
    by (simp add: roundRobin_Assign_def Let_def)
qed

lemma rttAware_best_cases:
  "rttAware_best ps b r = b \<or> rttAware_best ps b r \<in> pi_Index ` {p \<in> set ps. 0 < pi_RTT p}"
  by (induction ps b r rule: rttAware_best.induct) auto

interpretation rtt_aware: path_scheduler rttAware_Assign
proof unfold_locales
  fix s q and ps :: "PathInfo list"
  assume len: "length ps < 2 ^ 63"
  show "set (fst (rttAware_Assign s q ps)) \<subseteq> pi_Index ` set ps"
    using rttAware_best_cases [of ps "-1" 0] roundrobin.assign_subset [OF len, of "ra_fallback s" q]
    by (auto simp: rttAware_Assign_def Let_def split: prod.splits)
  show "distinct (fst (rttAware_Assign s q ps))" if "distinct (map pi_Index ps)"
    using roundrobin.assign_distinct [OF len that, of "ra_fallback s" q]
    by (simp add: rttAware_Assign_def Let_def case_prod_beta)
  assume "ps \<noteq> []"
  then show "fst (rttAware_Assign s q ps) \<noteq> []"
    using roundrobin.assign_nonempty [OF len, of "ra_fallback s" q]
    by (auto simp: rttAware_Assign_def Let_def split: prod.splits)
qed

interpretation scheduler: path_scheduler Assign
proof unfold_locales
  fix s q and ps :: "PathInfo list"
  assume len: "length ps < 2 ^ 63"
  show "set (fst (Assign s q ps)) \<subseteq> pi_Index ` set ps"
    using roundrobin.assign_subset [OF len] rtt_aware.assign_subset [OF len]
    by (cases s) (auto simp: redundant_Assign_def split: prod.splits, (metis fst_conv in_mono)+)
  show "distinct (fst (Assign s q ps))" if "distinct (map pi_Index ps)"
    using roundrobin.assign_distinct [OF len that] rtt_aware.assign_distinct [OF len that] that
    by (cases s) (auto simp: redundant_Assign_def split: prod.splits, (metis fst_conv)+)
  assume "ps \<noteq> []"
  then show "fst (Assign s q ps) \<noteq> []"
    using roundrobin.assign_nonempty [OF len] rtt_aware.assign_nonempty [OF len]
    by (cases s) (auto simp: redundant_Assign_def split: prod.splits, (metis fst_conv)+)
qed

section \<open>Round robin is fair\<close>

text \<open>
  Counting the numbers of an interval that leave remainder \<open>j\<close>: a telescoping sum of
  quotients.
\<close>

lemma count_mod_step:
  fixes m j x :: nat
  assumes "j < m"
  shows "(x + (m - j)) div m = (x + (m - 1 - j)) div m + (if x mod m = j then 1 else 0)"
proof -
  let ?y = "x + (m - 1 - j)"
  have Suc: "x + (m - j) = Suc ?y"
    using assms by simp
  have "Suc ?y mod m = 0 \<longleftrightarrow> x mod m = j"
  proof -
    have "Suc ?y mod m = (x mod m + (m - j)) mod m"
      unfolding Suc [symmetric] by (simp add: mod_simps)
    also have "\<dots> = 0 \<longleftrightarrow> x mod m = j"
    proof (cases "j \<le> x mod m")
      case True
      then have "x mod m + (m - j) = (x mod m - j) + m"
        using assms by simp
      moreover have "x mod m - j < m"
        using assms by (simp add: less_imp_diff_less)
      ultimately have "(x mod m + (m - j)) mod m = x mod m - j"
        by (simp only: mod_add_self2 mod_less)
      then show ?thesis
        using True by simp
    next
      case False
      then show ?thesis
        using assms by simp
    qed
    finally show ?thesis .
  qed
  moreover have "Suc ?y div m = (if Suc ?y mod m = 0 then Suc (?y div m) else ?y div m)"
    by (simp add: div_Suc)
  ultimately show ?thesis
    unfolding Suc by simp
qed

lemma count_mod_interval:
  fixes m j n k :: nat
  assumes "j < m"
  shows "count_list (map (\<lambda>i. (n + i) mod m) [0..<k]) j + (n + (m - 1 - j)) div m
      = (n + k + (m - 1 - j)) div m"
proof (induction k)
  case 0
  then show ?case by simp
next
  case (Suc k)
  have shift: "n + Suc k + (m - 1 - j) = n + k + (m - j)"
    using assms by simp
  have count: "count_list (map (\<lambda>i. (n + i) mod m) [0..<Suc k]) j
      = count_list (map (\<lambda>i. (n + i) mod m) [0..<k]) j + (if (n + k) mod m = j then 1 else 0)"
    by simp
  show ?case
    using Suc.IH unfolding count shift count_mod_step [OF assms] by linarith
qed

lemma div_add_bounds:
  fixes a k m :: nat
  assumes "0 < m"
  shows "a div m + k div m \<le> (a + k) div m" and "(a + k) div m \<le> a div m + k div m + 1"
proof -
  have e: "(a + k) div m = a div m + k div m + (a mod m + k mod m) div m"
    by (rule div_add1_eq)
  then show "a div m + k div m \<le> (a + k) div m"
    by simp
  have "a mod m + k mod m < 2 * m"
    using assms mod_less_divisor [of m a] mod_less_divisor [of m k] by linarith
  then have "(a mod m + k mod m) div m \<le> 1"
    using assms by (simp add: less_Suc_eq_le [symmetric] div_less_iff_less_mult)
  with e show "(a + k) div m \<le> a div m + k div m + 1"
    by simp
qed

lemma count_mod_fair:
  fixes m j n k :: nat
  assumes "j < m"
  shows "k div m \<le> count_list (map (\<lambda>i. (n + i) mod m) [0..<k]) j"
    and "count_list (map (\<lambda>i. (n + i) mod m) [0..<k]) j \<le> k div m + 1"
proof -
  have m: "0 < m"
    using assms by simp
  have "n + k + (m - 1 - j) = (n + (m - 1 - j)) + k"
    by simp
  then show "k div m \<le> count_list (map (\<lambda>i. (n + i) mod m) [0..<k]) j"
    and "count_list (map (\<lambda>i. (n + i) mod m) [0..<k]) j \<le> k div m + 1"
    using count_mod_interval [OF assms, of n k] div_add_bounds [OF m, of "n + (m - 1 - j)" k]
    by (simp_all only:)
qed

lemma run_roundRobin:
  assumes "\<forall>x \<in> set qs. map pi_Index (snd x) = idxs" and "idxs \<noteq> []" and "length idxs < 2 ^ 63"
    and "unat (rr_n r) + length qs \<le> 2 ^ 64"
  shows "fst (run_assign roundRobin_Assign r qs)
      = map (\<lambda>i. [idxs ! ((unat (rr_n r) + i) mod length idxs)]) [0..<length qs]"
  using assms(1,4)
proof (induction qs arbitrary: r)
  case Nil
  then show ?case by simp
next
  case (Cons x qs)
  obtain q ps where x: "x = (q, ps)"
    by (cases x)
  have ps: "map pi_Index ps = idxs"
    using Cons.prems(1) x by simp
  then have len: "length ps = length idxs" and ne: "ps \<noteq> []"
    using assms(2) by auto
  let ?r = "r\<lparr>rr_n := rr_n r + 1\<rparr>"
  have step: "roundRobin_Assign r q ps = ([idxs ! (unat (rr_n r) mod length idxs)], ?r)"
    using roundRobin_Assign_Cons [OF ne, of r q] assms(2,3) len ps
    by (simp add: nth_map [symmetric] del: nth_map)
  show ?case
  proof (cases qs)
    case Nil
    then show ?thesis
      by (simp add: x step)
  next
    case (Cons y ys)
    then have "unat (rr_n r) + 1 < 2 ^ 64"
      using Cons.prems(2) by simp
    then have n: "unat (rr_n r + 1) = unat (rr_n r) + 1"
      by (simp add: unat_word_ariths)
    have "fst (run_assign roundRobin_Assign ?r qs)
        = map (\<lambda>i. [idxs ! ((unat (rr_n ?r) + i) mod length idxs)]) [0..<length qs]"
      by (rule Cons.IH) (use Cons.prems n in auto)
    then show ?thesis
      by (simp add: x step n upt_conv_Cons map_Suc_upt [symmetric] comp_def case_prod_beta
          del: upt_Suc)
  qed
qed

section \<open>Properties\<close>

text \<open>
  C19: whichever scheduler is selected, every chunk handed to it is assigned to at least
  one of the offered paths and to no other path index, over a whole run in which the
  measured round trip times change between chunks.
\<close>

theorem schedulers_cover_every_chunk:
  assumes "\<forall>x \<in> set qs. snd x \<noteq> [] \<and> length (snd x) < 2 ^ 63"
  shows "length (fst (run_assign Assign s qs)) = length qs \<and>
    (\<forall>i < length qs. fst (run_assign Assign s qs) ! i \<noteq> [] \<and>
       set (fst (run_assign Assign s qs) ! i) \<subseteq> pi_Index ` set (snd (qs ! i)))"
proof (intro conjI allI impI)
  show "length (fst (run_assign Assign s qs)) = length qs"
    by (rule scheduler.length_run_assign)
  fix i
  assume i: "i < length qs"
  then have "snd (qs ! i) \<noteq> []" and "length (snd (qs ! i)) < 2 ^ 63"
    using assms by auto
  then show "fst (run_assign Assign s qs) ! i \<noteq> []"
    and "set (fst (run_assign Assign s qs) ! i) \<subseteq> pi_Index ` set (snd (qs ! i))"
    using i scheduler.run_assign_covers by blast+
qed

theorem schedulers_cover_every_chunk_witness:
  "fst (run_assign Assign (RttAware \<lparr>ra_fallback = \<lparr>rr_n = 0\<rparr>\<rparr>)
      [(0, [\<lparr>pi_Index = 0, pi_RTT = 5\<rparr>, \<lparr>pi_Index = 1, pi_RTT = 3\<rparr>])]) ! 0 \<noteq> []"
  using schedulers_cover_every_chunk
    [of "[(0, [\<lparr>pi_Index = 0, pi_RTT = 5\<rparr>, \<lparr>pi_Index = 1, pi_RTT = 3\<rparr>])]"
        "RttAware \<lparr>ra_fallback = \<lparr>rr_n = 0\<rparr>\<rparr>"]
  by auto

text \<open>
  C25: round robin is fair.  As long as its 64-bit counter does not wrap, \<open>k\<close> consecutive
  chunks over \<open>m\<close> paths give every path either \<open>k div m\<close> or one more.
\<close>

theorem roundRobin_fair:
  assumes "\<forall>x \<in> set qs. map pi_Index (snd x) = idxs"
    and "idxs \<noteq> []" and "distinct idxs" and "length idxs < 2 ^ 63"
    and "unat (rr_n r) + length qs \<le> 2 ^ 64" and "j \<in> set idxs"
  shows "count_list (concat (fst (run_assign roundRobin_Assign r qs))) j
           \<in> {length qs div length idxs, length qs div length idxs + 1}"
proof -
  let ?m = "length idxs" and ?n = "unat (rr_n r)" and ?k = "length qs"
  obtain p where p: "p < ?m" "idxs ! p = j"
    using assms(6) by (auto simp: in_set_conv_nth)
  have m: "0 < ?m"
    using assms(2) by simp
  have "concat (fst (run_assign roundRobin_Assign r qs))
      = map ((!) idxs) (map (\<lambda>i. (?n + i) mod ?m) [0..<?k])"
    by (simp add: run_roundRobin [OF assms(1,2,4,5)] comp_def)
  moreover have "count_list (map ((!) idxs) xs) j = count_list xs p" if "\<forall>x \<in> set xs. x < ?m" for xs
    using that by (induction xs) (use p assms(3) in \<open>auto simp: nth_eq_iff_index_eq\<close>)
  ultimately have "count_list (concat (fst (run_assign roundRobin_Assign r qs))) j
      = count_list (map (\<lambda>i. (?n + i) mod ?m) [0..<?k]) p"
    using m by (simp del: map_map)
  then show ?thesis
    using count_mod_fair [OF p(1), where k = ?k and n = ?n] by auto
qed

theorem roundRobin_fair_witness:
  "count_list (concat (fst (run_assign roundRobin_Assign \<lparr>rr_n = 0\<rparr>
      (replicate 5 (0, [\<lparr>pi_Index = 7, pi_RTT = 0\<rparr>, \<lparr>pi_Index = 9, pi_RTT = 0\<rparr>]))))) 7 \<in> {2, 3}"
proof -
  let ?ps = "[\<lparr>pi_Index = 7, pi_RTT = 0\<rparr>, \<lparr>pi_Index = 9, pi_RTT = 0\<rparr>]"
  let ?qs = "replicate 5 (0 :: u64, ?ps)"
  have idx: "\<forall>x \<in> set ?qs. map pi_Index (snd x) = [7, 9]"
    by simp
  have "count_list (concat (fst (run_assign roundRobin_Assign \<lparr>rr_n = 0\<rparr> ?qs))) 7
      \<in> {length ?qs div length [7, 9 :: int], length ?qs div length [7, 9 :: int] + 1}"
    by (rule roundRobin_fair [OF idx]) simp_all
  then show ?thesis
    by (simp add: numeral_2_eq_2 [symmetric])
qed

lemma rttAware_best_invariant:
  assumes "\<forall>p \<in> set ps. pi_Index p \<noteq> -1" and "b \<noteq> -1"
  shows "\<exists>r'. (rttAware_best ps b r = b \<and> r' = r \<or>
               (\<exists>p \<in> set ps. rttAware_best ps b r = pi_Index p \<and> r' = pi_RTT p \<and> 0 < r')) \<and>
             r' \<le> r \<and> (\<forall>p \<in> set ps. 0 < pi_RTT p \<longrightarrow> r' \<le> pi_RTT p)"
  using assms
proof (induction ps arbitrary: b r)
  case Nil
  then show ?case by simp
next
  case (Cons p ps)
  show ?case
  proof (cases "0 < pi_RTT p \<and> pi_RTT p < r")
    case True
    with Cons.IH [of "pi_Index p" "pi_RTT p"] Cons.prems obtain r' where
      r': "rttAware_best ps (pi_Index p) (pi_RTT p) = pi_Index p \<and> r' = pi_RTT p \<or>
        (\<exists>p' \<in> set ps. rttAware_best ps (pi_Index p) (pi_RTT p) = pi_Index p' \<and> r' = pi_RTT p' \<and> 0 < r')"
      "r' \<le> pi_RTT p" "\<forall>p \<in> set ps. 0 < pi_RTT p \<longrightarrow> r' \<le> pi_RTT p"
      by auto
    with True Cons.prems(2) show ?thesis
      by (intro exI [of _ r']) auto
  next
    case False
    with Cons.IH [of b r] Cons.prems obtain r' where
      r': "rttAware_best ps b r = b \<and> r' = r \<or>
        (\<exists>p' \<in> set ps. rttAware_best ps b r = pi_Index p' \<and> r' = pi_RTT p' \<and> 0 < r')"
      "r' \<le> r" "\<forall>p \<in> set ps. 0 < pi_RTT p \<longrightarrow> r' \<le> pi_RTT p"
      by auto
    with False Cons.prems(2) show ?thesis
      by (intro exI [of _ r']) auto
  qed
qed

lemma rttAware_best_start:
  assumes "\<forall>p \<in> set ps. pi_Index p \<noteq> -1" and "\<exists>p \<in> set ps. 0 < pi_RTT p"
  shows "\<exists>p \<in> set ps. rttAware_best ps (-1) 0 = pi_Index p \<and> 0 < pi_RTT p \<and>
           (\<forall>q \<in> set ps. 0 < pi_RTT q \<longrightarrow> pi_RTT p \<le> pi_RTT q)"
  using assms
proof (induction ps)
  case Nil
  then show ?case by simp
next
  case (Cons p ps)
  show ?case
  proof (cases "0 < pi_RTT p")
    case True
    have step: "rttAware_best (p # ps) (-1) 0 = rttAware_best ps (pi_Index p) (pi_RTT p)"
      using True by simp
    show ?thesis
      unfolding step
      using rttAware_best_invariant [of ps "pi_Index p" "pi_RTT p"] Cons.prems(1) True
      by fastforce
  next
    case False
    with Cons show ?thesis
      by auto
  qed
qed

text \<open>
  C26: once any path has been measured, \<open>rtt-aware\<close> sends the chunk on exactly one path, a
  measured one whose round trip time is the least among the measured paths, and leaves its
  round-robin state alone; an unmeasured path is never chosen then, so it is not measured
  by traffic of this scheduler.
\<close>

theorem rttAware_picks_minimum:
  assumes "\<forall>p \<in> set paths. 0 \<le> pi_Index p" and "\<exists>p \<in> set paths. 0 < pi_RTT p"
  shows "\<exists>p \<in> set paths. rttAware_Assign s q paths = ([pi_Index p], s) \<and> 0 < pi_RTT p \<and>
           (\<forall>p' \<in> set paths. 0 < pi_RTT p' \<longrightarrow> pi_RTT p \<le> pi_RTT p')"
proof -
  have "\<forall>p \<in> set paths. pi_Index p \<noteq> -1"
    using assms(1) by force
  from rttAware_best_start [OF this assms(2)] obtain p where
    p: "p \<in> set paths" "rttAware_best paths (-1) 0 = pi_Index p" "0 < pi_RTT p"
       "\<forall>q \<in> set paths. 0 < pi_RTT q \<longrightarrow> pi_RTT p \<le> pi_RTT q"
    by auto
  moreover have "pi_Index p \<noteq> -1" and "paths \<noteq> []"
    using p(1) assms(1) by force+
  ultimately show ?thesis
    by (intro bexI [of _ p]) (auto simp: rttAware_Assign_def)
qed

theorem rttAware_picks_minimum_witness:
  "rttAware_Assign \<lparr>ra_fallback = \<lparr>rr_n = 0\<rparr>\<rparr> 0
      [\<lparr>pi_Index = 0, pi_RTT = 50\<rparr>, \<lparr>pi_Index = 1, pi_RTT = 10\<rparr>, \<lparr>pi_Index = 2, pi_RTT = 0\<rparr>]
      = ([1], \<lparr>ra_fallback = \<lparr>rr_n = 0\<rparr>\<rparr>)"
  using rttAware_picks_minimum
    [of "[\<lparr>pi_Index = 0, pi_RTT = 50\<rparr>, \<lparr>pi_Index = 1, pi_RTT = 10\<rparr>, \<lparr>pi_Index = 2, pi_RTT = 0\<rparr>]"
        "\<lparr>ra_fallback = \<lparr>rr_n = 0\<rparr>\<rparr>" 0]
  by auto

end
