(* ===== verification/Mpq_Float.thy ===== *)
theory Mpq_Float
  imports Mpq_Base "HOL-Library.Log_Nat"
begin

text \<open>
  Go's float64 arithmetic, on exact rationals: every operation is the exact result rounded
  to 53 significant bits, ties to even.  The program's values are non-negative and far
  inside the exponent range (between \<open>2 ^ -40\<close> and \<open>2 ^ 80\<close>), so overflow to infinity and
  subnormal numbers do not arise and are not represented.
\<close>

definition pow2 :: "int \<Rightarrow> rat" where
  "pow2 e = (if 0 \<le> e then 2 ^ nat e else 1 / 2 ^ nat (- e))"

text \<open>The exponent of a positive rational: \<open>pow2 e \<le> x < pow2 (e + 1)\<close>.\<close>

definition rat_exponent :: "rat \<Rightarrow> int" where
  "rat_exponent x =
     (let (p, q) = quotient_of x; k = bitlen p - bitlen q
      in if x < pow2 k then k - 1 else k)"

definition round_half_even :: "rat \<Rightarrow> int" where
  "round_half_even x =
     (let f = \<lfloor>x\<rfloor>; d = x - of_int f
      in if d < 1 / 2 then f else if 1 / 2 < d then f + 1 else if even f then f else f + 1)"

definition fl :: "rat \<Rightarrow> rat" where
  "fl x = (if x = 0 then 0
           else let e = rat_exponent \<bar>x\<bar> - 52
                in sgn x * of_int (round_half_even (\<bar>x\<bar> / pow2 e)) * pow2 e)"

text \<open>The operations of the language.\<close>

definition float_of_int :: "int \<Rightarrow> rat" where "float_of_int n = fl (of_int n)"
definition float_of_u64 :: "u64 \<Rightarrow> rat" where "float_of_u64 n = fl (of_nat (unat n))"
definition fadd :: "rat \<Rightarrow> rat \<Rightarrow> rat" where "fadd x y = fl (x + y)"
definition fmult :: "rat \<Rightarrow> rat \<Rightarrow> rat" where "fmult x y = fl (x * y)"
definition fdiv :: "rat \<Rightarrow> rat \<Rightarrow> rat" where "fdiv x y = fl (x / y)"

text \<open>Conversion to an integer truncates towards zero.\<close>

definition int_of_float :: "rat \<Rightarrow> int" where
  "int_of_float x = (if 0 \<le> x then \<lfloor>x\<rfloor> else - \<lfloor>- x\<rfloor>)"

section \<open>Powers of two\<close>

lemma pow2_pos [simp]: "0 < pow2 e"
  by (simp add: pow2_def)

lemma pow2_nonneg [simp]: "0 \<le> pow2 e" and pow2_neq [simp]: "pow2 e \<noteq> 0"
  using pow2_pos [of e] by linarith+

lemma pow2_powi: "pow2 e = 2 powi e"
  by (simp add: pow2_def power_int_def inverse_eq_divide power_one_over)

lemma pow2_add: "pow2 (a + b) = pow2 a * pow2 b"
  by (simp add: pow2_powi power_int_add)

lemma pow2_nat: "pow2 (int n) = 2 ^ n"
  by (simp add: pow2_def)

lemma pow2_diff: "pow2 (a - b) = pow2 a / pow2 b"
  by (simp add: pow2_powi power_int_diff)

lemma pow2_mono: "a \<le> b \<Longrightarrow> pow2 a \<le> pow2 b"
  by (simp add: pow2_powi power_int_increasing)

lemma pow2_less_iff: "pow2 a < pow2 b \<longleftrightarrow> a < b"
proof
  assume "pow2 a < pow2 b"
  then show "a < b"
    using pow2_mono [of b a] by linarith
next
  assume "a < b"
  then show "pow2 a < pow2 b"
    by (simp add: pow2_powi power_int_strict_increasing)
qed

section \<open>The exponent\<close>

lemma rat_exponent_bounds:
  assumes "0 < x"
  shows "pow2 (rat_exponent x) \<le> x" and "x < pow2 (rat_exponent x + 1)"
proof -
  obtain p q where pq: "quotient_of x = (p, q)"
    by fastforce
  have q: "0 < q" and x: "x = of_int p / of_int q"
    using pq quotient_of_denom_pos quotient_of_div by blast+
  have p: "0 < p"
    using assms x q by (simp add: zero_less_divide_iff)
  have bound: "pow2 (bitlen n - 1) \<le> of_int n \<and> of_int n < pow2 (bitlen n)" if "0 < n" for n
  proof -
    have b: "0 < bitlen n"
      using bitlen_nonneg [of n] bitlen_eq_zero_iff [of n] that by linarith
    with bitlen_bounds [OF that] have "(2::rat) ^ nat (bitlen n - 1) \<le> of_int n"
      and "of_int n < (2::rat) ^ nat (bitlen n)"
      by (metis of_int_le_iff of_int_numeral of_int_power, metis bitlen_bounds [OF that] of_int_less_iff of_int_numeral of_int_power)
    with b show ?thesis by (simp add: pow2_def)
  qed
  let ?k = "bitlen p - bitlen q"
  have "x < pow2 (bitlen p) / pow2 (bitlen q - 1)"
    unfolding x using bound [OF p] bound [OF q] p by (intro frac_less) (auto simp: less_imp_le)
  then have up: "x < pow2 (?k + 1)"
    by (simp add: pow2_diff pow2_add)
  have "pow2 (bitlen p - 1) / pow2 (bitlen q) < x"
    unfolding x using bound [OF p] bound [OF q] q p by (intro frac_less2) auto
  then have lo: "pow2 (?k - 1) \<le> x"
    by (simp add: pow2_diff pow2_add mult.commute)
  show "pow2 (rat_exponent x) \<le> x" and "x < pow2 (rat_exponent x + 1)"
    using up lo by (simp_all add: rat_exponent_def pq not_less Let_def)
qed

section \<open>Rounding\<close>

lemma round_half_even_error: "\<bar>of_int (round_half_even x) - x\<bar> \<le> 1 / 2"
proof -
  have "of_int \<lfloor>x\<rfloor> \<le> x" and "x < of_int \<lfloor>x\<rfloor> + 1"
    using floor_correct [of x] by auto
  then show ?thesis
    by (simp add: round_half_even_def Let_def abs_le_iff)
qed

lemma round_half_even_int [simp]: "round_half_even (of_int n) = n"
  by (simp add: round_half_even_def)

lemma fl_zero [simp]: "fl 0 = 0"
  by (simp add: fl_def)

lemma fl_relative_error:
  assumes "0 \<le> x"
  shows "\<bar>fl x - x\<bar> \<le> x * pow2 (- 53)"
proof (cases "x = 0")
  case False
  with assms have pos: "0 < x" by simp
  let ?e = "rat_exponent x - 52"
  have "fl x - x = (of_int (round_half_even (x / pow2 ?e)) - x / pow2 ?e) * pow2 ?e"
    using pos by (simp add: fl_def Let_def algebra_simps)
  then have "\<bar>fl x - x\<bar> \<le> 1 / 2 * pow2 ?e"
    using round_half_even_error [of "x / pow2 ?e"]
    by (simp only: abs_mult abs_of_pos [OF pow2_pos]) (rule mult_right_mono, simp_all)
  also have "\<dots> = pow2 (rat_exponent x) * pow2 (- 53)"
    by (simp add: pow2_diff) (simp add: pow2_def)
  also have "\<dots> \<le> x * pow2 (- 53)"
    using rat_exponent_bounds(1) [OF pos] by (intro mult_right_mono) auto
  finally show ?thesis .
qed simp

lemma fl_bounds:
  assumes "0 \<le> x"
  shows "x * (1 - pow2 (- 53)) \<le> fl x" and "fl x \<le> x * (1 + pow2 (- 53))"
  using fl_relative_error [OF assms] by (simp_all add: abs_le_iff algebra_simps)

lemma fl_nonneg: "0 \<le> x \<Longrightarrow> 0 \<le> fl x"
  using fl_bounds(1) [of x] by (rule order_trans [rotated]) (simp_all add: pow2_def)

text \<open>Integers below \<open>2 ^ 53\<close> are represented exactly.\<close>

lemma fl_of_int:
  assumes "0 \<le> n" and "n < 2 ^ 53"
  shows "fl (of_int n) = of_int n"
proof (cases "n = 0")
  case False
  with assms(1) have pos: "(0::rat) < of_int n" by simp
  have "pow2 (rat_exponent (of_int n)) < pow2 53"
  proof -
    have "(of_int n :: rat) < of_int (2 ^ 53)"
      using assms(2) by (simp only: of_int_less_iff)
    then show ?thesis
      using rat_exponent_bounds(1) [OF pos] by (simp add: pow2_def)
  qed
  then have e: "rat_exponent (of_int n) \<le> 52"
    by (simp add: pow2_less_iff)
  let ?k = "nat (52 - rat_exponent (of_int n))"
  have p: "pow2 (rat_exponent (of_int n) - 52) = 1 / 2 ^ ?k"
    using e by (cases "rat_exponent (of_int n) = 52") (auto simp: pow2_def)
  have "of_int n / pow2 (rat_exponent (of_int n) - 52) = (of_int (n * 2 ^ ?k) :: rat)"
    by (simp add: p)
  then show ?thesis
    using pos assms(1) by (simp add: fl_def Let_def p del: of_int_mult) simp
qed simp


section \<open>Accumulated relative error\<close>

text \<open>\<open>approx k x y\<close>: \<open>x\<close> approximates \<open>y\<close> up to \<open>k\<close> roundings.\<close>

definition unit_roundoff :: rat where "unit_roundoff = pow2 (- 53)"

definition approx :: "nat \<Rightarrow> rat \<Rightarrow> rat \<Rightarrow> bool" where
  "approx k x y \<longleftrightarrow> 0 \<le> y \<and> y * (1 - unit_roundoff) ^ k \<le> x \<and> x * (1 - unit_roundoff) ^ k \<le> y"

lemma unit_roundoff_bounds: "0 < unit_roundoff" "unit_roundoff \<le> 1 / 10 ^ 15"
  by (simp_all add: unit_roundoff_def pow2_def)

lemma shrink_pos [simp]: "0 < (1 - unit_roundoff) ^ k"
  using unit_roundoff_bounds by (intro zero_less_power) simp

lemma shrink_le_1: "(1 - unit_roundoff) ^ k \<le> 1"
  using unit_roundoff_bounds by (intro power_le_one) auto

lemma approx_nonneg: "approx k x y \<Longrightarrow> 0 \<le> x"
  unfolding approx_def by (meson mult_nonneg_nonneg order_trans less_imp_le shrink_pos)

lemma approx_refl: "0 \<le> y \<Longrightarrow> approx 0 y y"
  by (simp add: approx_def)

lemma approx_fl:
  assumes "approx k x y"
  shows "approx (Suc k) (fl x) y"
proof -
  let ?u = "1 - unit_roundoff"
  have x: "0 \<le> x"
    by (rule approx_nonneg [OF assms])
  have lo: "x * ?u \<le> fl x" and hi: "fl x \<le> x * (1 + unit_roundoff)"
    using fl_bounds [OF x] by (simp_all add: unit_roundoff_def)
  have "y * ?u ^ Suc k = (y * ?u ^ k) * ?u"
    by simp
  also have "\<dots> \<le> x * ?u"
    using assms shrink_pos [of 1] by (intro mult_right_mono) (auto simp: approx_def)
  finally have "y * ?u ^ Suc k \<le> fl x"
    using lo by linarith
  moreover have "fl x * ?u ^ Suc k \<le> y"
  proof -
    have "fl x * ?u \<le> x * (1 + unit_roundoff) * ?u"
      using hi shrink_pos [of 1] by (intro mult_right_mono) auto
    also have "\<dots> = x * (1 - unit_roundoff * unit_roundoff)"
      by (simp add: algebra_simps)
    also have "\<dots> \<le> x"
      using x by (simp add: mult_left_le)
    finally have "fl x * ?u * ?u ^ k \<le> x * ?u ^ k"
      by (intro mult_right_mono) (auto simp: less_imp_le)
    also have "x * ?u ^ k \<le> y"
      using assms by (simp add: approx_def)
    finally show ?thesis
      by (simp add: mult.assoc)
  qed
  ultimately show ?thesis
    using assms by (simp add: approx_def)
qed

lemma approx_mult:
  assumes "approx k x y" and "0 \<le> c"
  shows "approx k (x * c) (y * c)"
  using assms mult_right_mono [OF _ assms(2), of "y * (1 - unit_roundoff) ^ k" x]
    mult_right_mono [OF _ assms(2), of "x * (1 - unit_roundoff) ^ k" y]
  by (simp add: approx_def ac_simps)

lemma approx_add:
  "approx k a b \<Longrightarrow> approx k c d \<Longrightarrow> approx k (a + c) (b + d)"
  by (auto simp: approx_def algebra_simps)

lemma approx_mono:
  assumes "approx k x y" and "k \<le> m"
  shows "approx m x y"
proof -
  have p: "(1 - unit_roundoff) ^ m \<le> (1 - unit_roundoff) ^ k"
    using assms(2) unit_roundoff_bounds by (intro power_decreasing) auto
  have "y * (1 - unit_roundoff) ^ m \<le> y * (1 - unit_roundoff) ^ k"
    and "x * (1 - unit_roundoff) ^ m \<le> x * (1 - unit_roundoff) ^ k"
    using p assms(1) approx_nonneg [OF assms(1)] by (auto simp: approx_def intro: mult_left_mono)
  with assms(1) show ?thesis
    unfolding approx_def by linarith
qed

lemma approx_divide:
  assumes "approx k a b" and "approx m c d" and "0 < d"
  shows "approx (k + m) (a / c) (b / d)"
proof -
  let ?u = "1 - unit_roundoff"
  have c: "0 < c"
    using assms(2,3) shrink_pos [of m] unfolding approx_def
    by (meson less_le_trans mult_pos_pos)
  have a: "0 \<le> a" and b: "0 \<le> b"
    using approx_nonneg [OF assms(1)] assms(1) by (auto simp: approx_def)
  have "b * ?u ^ (k + m) * c = (b * ?u ^ k) * (c * ?u ^ m)"
    by (simp add: power_add)
  also have "\<dots> \<le> a * d"
    using assms(1,2) a b c by (intro mult_mono) (auto simp: approx_def less_imp_le)
  finally have lo: "b * ?u ^ (k + m) * c \<le> a * d" .
  have "a * ?u ^ (k + m) * d = (a * ?u ^ k) * (d * ?u ^ m)"
    by (simp add: power_add)
  also have "\<dots> \<le> b * c"
    using assms a b c by (intro mult_mono) (auto simp: approx_def less_imp_le)
  finally have hi: "a * ?u ^ (k + m) * d \<le> b * c" .
  show ?thesis
    using lo hi b c assms(3) by (simp add: approx_def field_simps)
qed

lemma approx_relative:
  assumes "approx k x y" and "k \<le> 100"
  shows "\<bar>x - y\<bar> \<le> y * (of_nat (Suc k) * unit_roundoff)"
proof -
  let ?u = unit_roundoff
  have bern: "1 - of_nat k * ?u \<le> (1 - ?u) ^ k"
    using Bernoulli_inequality [of "- ?u" k] unit_roundoff_bounds by simp
  have ku: "of_nat k * ?u \<le> 100 * ?u"
    using assms(2) unit_roundoff_bounds by (intro mult_right_mono) auto
  have y: "0 \<le> y" and x: "0 \<le> x"
    using assms(1) approx_nonneg by (auto simp: approx_def)
  have "y * (1 - of_nat k * ?u) \<le> x"
    using mult_left_mono [OF bern y] assms(1) by (simp add: approx_def)
  then have lo: "y - x \<le> y * (of_nat (Suc k) * ?u)"
  proof -
    have "0 \<le> y * ?u"
      using y unit_roundoff_bounds by simp
    with \<open>y * (1 - of_nat k * ?u) \<le> x\<close> show ?thesis
      by (simp add: algebra_simps)
  qed
  have sq: "of_nat k * ?u * (of_nat (Suc k) * ?u) \<le> ?u"
  proof -
    have "of_nat (Suc k) * ?u \<le> 101 * ?u"
      using assms(2) unit_roundoff_bounds by (intro mult_right_mono) auto
    then have "of_nat k * ?u * (of_nat (Suc k) * ?u) \<le> (100 * ?u) * (101 * ?u)"
      using ku unit_roundoff_bounds by (intro mult_mono) auto
    also have "\<dots> = (10100 * ?u) * ?u"
      by simp
    also have "\<dots> \<le> 1 * ?u"
      using unit_roundoff_bounds by (intro mult_right_mono) auto
    finally show ?thesis by simp
  qed
  have "1 \<le> (1 - of_nat k * ?u) * (1 + of_nat (Suc k) * ?u)"
    using sq by (simp add: algebra_simps)
  then have "x \<le> x * ((1 - of_nat k * ?u) * (1 + of_nat (Suc k) * ?u))"
    using mult_left_mono [OF _ x] by force
  also have "\<dots> \<le> (x * (1 - ?u) ^ k) * (1 + of_nat (Suc k) * ?u)"
    using mult_left_mono [OF bern x] unit_roundoff_bounds
    by (simp add: mult.assoc [symmetric] mult_right_mono)
  also have "\<dots> \<le> y * (1 + of_nat (Suc k) * ?u)"
    using assms(1) unit_roundoff_bounds by (intro mult_right_mono) (auto simp: approx_def)
  finally have "x - y \<le> y * (of_nat (Suc k) * ?u)"
    by (simp add: algebra_simps)
  with lo show ?thesis
    by (simp add: abs_le_iff)
qed

end
