(* ===== verification/Mpq_Csv.thy ===== *)
theory Mpq_Csv
  imports Mpq_Stream Mpq_Float "HOL-Library.Signed_Division"
begin

text \<open>
  What the result files need of Go's standard library: decimal formatting
  (\<^verbatim>\<open>strconv\<close>), the CSV writer (\<^verbatim>\<open>encoding/csv\<close>) and the buffered file writer under it
  (\<^verbatim>\<open>bufio\<close>, 4096 bytes), with a reader that says what a file written so means.
\<close>

section \<open>Decimal numbers\<close>

definition dec_digit :: "nat \<Rightarrow> char" where
  "dec_digit d = char_of (48 + d)"

fun dec_nat :: "nat \<Rightarrow> string" where
  "dec_nat n = (if n < 10 then [dec_digit n] else dec_nat (n div 10) @ [dec_digit (n mod 10)])"

declare dec_nat.simps [simp del]

definition Itoa :: "int \<Rightarrow> string" where
  "Itoa n = (if n < 0 then CHR ''-'' # dec_nat (nat (- n)) else dec_nat (nat n))"

definition FormatUint :: "u64 \<Rightarrow> string" where
  "FormatUint n = dec_nat (unat n)"

definition FormatBool :: "bool \<Rightarrow> string" where
  "FormatBool b = (if b then ''true'' else ''false'')"

text \<open>\<^verbatim>\<open>FormatFloat(x, 'f', 3, 64)\<close> for a non-negative value: exact decimal rounding.\<close>

definition FormatFloat3 :: "rat \<Rightarrow> string" where
  "FormatFloat3 x =
     (let q = nat (round_half_even (x * 1000))
      in dec_nat (q div 1000) @ CHR ''.'' #
         [dec_digit (q div 100 mod 10), dec_digit (q div 10 mod 10), dec_digit (q mod 10)])"

text \<open>\<^verbatim>\<open>Duration.Milliseconds\<close>: nanoseconds divided, truncating towards zero.\<close>

definition Milliseconds :: "int \<Rightarrow> int" where
  "Milliseconds d = d sdiv 1000000"

definition Microseconds :: "int \<Rightarrow> int" where
  "Microseconds d = d sdiv 1000"

text \<open>Reading a decimal back.\<close>

definition undec :: "string \<Rightarrow> nat" where
  "undec s = foldl (\<lambda>n c. n * 10 + (of_char c - 48)) 0 s"

definition Atoi :: "string \<Rightarrow> int" where
  "Atoi s = (case s of c # cs \<Rightarrow> if c = CHR ''-'' then - int (undec cs) else int (undec s) | [] \<Rightarrow> 0)"

lemma of_char_dec_digit: "d < 10 \<Longrightarrow> of_char (dec_digit d) = (48 + d :: nat)"
  by (simp add: dec_digit_def)

lemma undec_dec_nat: "undec (dec_nat n) = n"
proof (induction n rule: dec_nat.induct)
  case (1 n)
  then show ?case
    by (subst dec_nat.simps) (simp add: undec_def of_char_dec_digit)
qed

lemma dec_nat_digits: "c \<in> set (dec_nat n) \<Longrightarrow> of_char c \<in> {48..<58::nat}"
proof (induction n rule: dec_nat.induct)
  case (1 n)
  show ?case
  proof (cases "n < 10")
    case True
    with "1.prems" show ?thesis
      by (simp add: dec_nat.simps [of n] of_char_dec_digit)
  next
    case False
    with "1.prems" have "c \<in> set (dec_nat (n div 10)) \<or> c = dec_digit (n mod 10)"
      by (auto simp: dec_nat.simps [of n])
    with "1.IH" False show ?thesis
      by (auto simp: of_char_dec_digit)
  qed
qed

lemma dec_nat_neq_Nil [simp]: "dec_nat n \<noteq> []"
  by (subst dec_nat.simps) simp

lemma Atoi_Itoa [simp]: "Atoi (Itoa n) = n"
proof -
  have "hd (dec_nat m) \<noteq> CHR ''-''" for m
  proof
    assume "hd (dec_nat m) = CHR ''-''"
    then have "CHR ''-'' \<in> set (dec_nat m)"
      by (metis dec_nat_neq_Nil list.set_sel(1))
    from dec_nat_digits [OF this] show False
      by simp
  qed
  note first = this
  have "Atoi (dec_nat m) = int m" for m
  proof (cases "dec_nat m")
    case (Cons c cs)
    with first [of m] undec_dec_nat [of m] show ?thesis
      by (simp add: Atoi_def)
  qed simp
  then show ?thesis
    by (simp add: Itoa_def) (simp add: Atoi_def undec_dec_nat)
qed

lemma Atoi_FormatUint [simp]: "Atoi (FormatUint n) = int (unat n)"
  using Atoi_Itoa [of "int (unat n)"] by (simp add: Itoa_def FormatUint_def)

section \<open>The CSV writer\<close>

text \<open>
  A field starts with a Unicode space character when its first bytes are one of these
  (\<^verbatim>\<open>unicode.IsSpace\<close> on the first rune).
\<close>

fun starts_with_space :: "nat list \<Rightarrow> bool" where
  "starts_with_space (a # rest) =
     (a \<in> {9, 10, 11, 12, 13, 32} \<or>
      (case rest of
         b # rest' \<Rightarrow>
           a = 194 \<and> b \<in> {133, 160} \<or>
           (case rest' of
              c # _ \<Rightarrow> a = 225 \<and> b = 154 \<and> c = 128 \<or>
                a = 226 \<and> b = 128 \<and> (128 \<le> c \<and> c \<le> 138 \<or> c \<in> {168, 169, 175}) \<or>
                a = 226 \<and> b = 129 \<and> c = 159 \<or> a = 227 \<and> b = 128 \<and> c = 128
            | [] \<Rightarrow> False)
       | [] \<Rightarrow> False))"
| "starts_with_space [] = False"

abbreviation dquote :: char where "dquote \<equiv> char_of (34::nat)"
abbreviation newline :: char where "newline \<equiv> char_of (10::nat)"
abbreviation creturn :: char where "creturn \<equiv> char_of (13::nat)"
abbreviation backslash :: char where "backslash \<equiv> char_of (92::nat)"

lemma csv_chars_distinct [simp]:
  "dquote \<noteq> CHR '',''" "newline \<noteq> CHR '',''" "dquote \<noteq> newline"
  "CHR '','' \<noteq> dquote" "CHR '','' \<noteq> newline" "newline \<noteq> dquote"
  by (auto dest: arg_cong [where f = "of_char :: char \<Rightarrow> nat"])

definition fieldNeedsQuotes :: "string \<Rightarrow> bool" where
  "fieldNeedsQuotes s \<longleftrightarrow>
     s \<noteq> [] \<and> (s = [backslash, CHR ''.''] \<or>
       (\<exists>c\<in>set s. c \<in> {newline, creturn, dquote, CHR '',''}) \<or>
       starts_with_space (map of_char (take 3 s)))"

fun csv_quoted :: "string \<Rightarrow> string" where
  "csv_quoted [] = []"
| "csv_quoted (c # cs) = (if c = dquote then dquote # dquote # csv_quoted cs else c # csv_quoted cs)"

definition csv_field :: "string \<Rightarrow> string" where
  "csv_field s = (if fieldNeedsQuotes s then dquote # csv_quoted s @ [dquote] else s)"

text \<open>The pieces \<^verbatim>\<open>Write\<close> hands to the buffered writer for one record.\<close>

fun csv_fields :: "string list \<Rightarrow> string list" where
  "csv_fields [] = []"
| "csv_fields [f] = [csv_field f]"
| "csv_fields (f # fs) = csv_field f # '','' # csv_fields fs"

definition csv_record :: "string list \<Rightarrow> string list" where
  "csv_record row = csv_fields row @ [[newline]]"

definition csv_text :: "string list list \<Rightarrow> string" where
  "csv_text rows = concat (concat (map csv_record rows))"

section \<open>The buffered writer\<close>

record bufio =
  bw_pend :: "byte list"
  bw_err :: "io_err option"
  bw_dev :: wstream

definition bufio_size :: nat where "bufio_size = 4096"

definition bufio_new :: "wstream \<Rightarrow> bufio" where
  "bufio_new dev = \<lparr>bw_pend = [], bw_err = None, bw_dev = dev\<rparr>"

definition bufio_direct :: "byte list \<Rightarrow> bufio \<Rightarrow> bufio" where
  "bufio_direct s b =
     (let (e, dev) = stream_write s (bw_dev b) in b\<lparr>bw_err := e, bw_dev := dev\<rparr>)"

definition bufio_flush :: "bufio \<Rightarrow> bufio" where
  "bufio_flush b =
     (if bw_err b \<noteq> None \<or> bw_pend b = [] then b
      else let b' = bufio_direct (bw_pend b) b
           in if bw_err b' = None then b'\<lparr>bw_pend := []\<rparr> else b')"

text \<open>
  \<^verbatim>\<open>WriteString\<close>: fill and flush while the rest does not fit.  After one flush the buffer is
  empty, and a rest larger than the whole buffer goes to the file directly, so the loop has
  at most two rounds.
\<close>

definition bufio_put :: "byte list \<Rightarrow> bufio \<Rightarrow> bufio" where
  "bufio_put s b =
     (if length s \<le> bufio_size - length (bw_pend b) then b\<lparr>bw_pend := bw_pend b @ s\<rparr>
      else bufio_direct s b)"

definition bufio_write :: "byte list \<Rightarrow> bufio \<Rightarrow> bufio" where
  "bufio_write s b =
     (let avail = bufio_size - length (bw_pend b) in
      if bw_err b \<noteq> None then b
      else if length s \<le> avail \<or> bw_pend b = [] then bufio_put s b
      else let b1 = bufio_flush (b\<lparr>bw_pend := bw_pend b @ take avail s\<rparr>)
           in if bw_err b1 \<noteq> None then b1 else bufio_put (drop avail s) b1)"

definition csv_Write :: "string list \<Rightarrow> bufio \<Rightarrow> io_err option \<times> bufio" where
  "csv_Write row b =
     (let b' = fold (\<lambda>s. bufio_write (map byte_of_char s)) (csv_record row) b in (bw_err b', b'))"

text \<open>
  The body shared by the result writers: the records in turn, returning at the first error;
  then the deferred \<^verbatim>\<open>Flush\<close>, whose error nobody reads.
\<close>

fun csv_write_rows :: "string list list \<Rightarrow> bufio \<Rightarrow> io_err option \<times> bufio" where
  "csv_write_rows [] b = (None, b)"
| "csv_write_rows (row # rows) b =
     (case csv_Write row b of
        (Some e, b') \<Rightarrow> (Some e, b')
      | (None, b') \<Rightarrow> csv_write_rows rows b')"

definition csv_file :: "string list list \<Rightarrow> io_err + wstream \<Rightarrow> io_err option \<times> byte list" where
  "csv_file rows create =
     (case create of
        Inl e \<Rightarrow> (Some e, [])
      | Inr dev \<Rightarrow>
          (let (r, b) = csv_write_rows rows (bufio_new dev)
           in (r, wout (bw_dev (bufio_flush b)))))"

section \<open>Reading a file back\<close>

datatype csv_mode = FieldStart | Bare | Quoted | QuoteSeen

fun csv_scan :: "csv_mode \<Rightarrow> string \<Rightarrow> string list \<Rightarrow> string \<Rightarrow> string list list option" where
  "csv_scan m f row [] = (if m = FieldStart \<and> row = [] \<and> f = [] then Some [] else None)"
| "csv_scan m f row (c # cs) =
     (if m = Quoted
      then (if c = dquote then csv_scan QuoteSeen f row cs else csv_scan Quoted (f @ [c]) row cs)
      else if m = FieldStart \<and> c = dquote then csv_scan Quoted f row cs
      else if m = QuoteSeen \<and> c = dquote then csv_scan Quoted (f @ [c]) row cs
      else if c = CHR '','' then csv_scan FieldStart [] (row @ [f]) cs
      else if c = newline then
        (case csv_scan FieldStart [] [] cs of None \<Rightarrow> None | Some rows \<Rightarrow> Some ((row @ [f]) # rows))
      else if m = QuoteSeen then None
      else csv_scan Bare (f @ [c]) row cs)"

definition csv_read :: "string \<Rightarrow> string list list option" where
  "csv_read s = csv_scan FieldStart [] [] s"

text \<open>What may follow a field: a comma or the end of the line.\<close>

definition ends_field :: "string \<Rightarrow> bool" where
  "ends_field s \<longleftrightarrow> (\<exists>c cs. s = c # cs \<and> c \<in> {CHR '','', newline})"

lemma csv_scan_end:
  assumes "ends_field rest" and "m \<noteq> Quoted"
  shows "csv_scan m f row rest = csv_scan FieldStart f row rest"
  using assms by (auto simp: ends_field_def)

lemma csv_scan_bare:
  assumes "set s \<inter> {CHR '','', newline, dquote} = {}" and "ends_field rest" and "m \<in> {FieldStart, Bare}"
  shows "csv_scan m f row (s @ rest) = csv_scan FieldStart (f @ s) row rest"
  using assms
proof (induction s arbitrary: f m)
  case Nil
  then show ?case
    using csv_scan_end [OF Nil.prems(2), of m f row] Nil.prems(3) by auto
next
  case (Cons c s)
  then show ?case by auto
qed

lemma csv_scan_quoted:
  assumes "ends_field rest"
  shows "csv_scan Quoted f row (csv_quoted s @ dquote # rest) = csv_scan FieldStart (f @ s) row rest"
proof (induction s arbitrary: f)
  case Nil
  then show ?case
    using csv_scan_end [OF assms, of QuoteSeen f row] by simp
next
  case (Cons c s)
  then show ?case by simp
qed

lemma csv_scan_field:
  assumes "ends_field rest"
  shows "csv_scan FieldStart [] row (csv_field s @ rest) = csv_scan FieldStart s row rest"
proof (cases "fieldNeedsQuotes s")
  case True
  then show ?thesis
    using csv_scan_quoted [OF assms, of "[]" row s] by (simp add: csv_field_def)
next
  case False
  then have "set s \<inter> {CHR '','', newline, dquote} = {}"
    by (cases "s = []") (auto simp: fieldNeedsQuotes_def)
  with False show ?thesis
    using csv_scan_bare [OF _ assms, of s FieldStart "[]" row] by (simp add: csv_field_def)
qed

lemma csv_scan_fields:
  "fs \<noteq> [] \<Longrightarrow>
     csv_scan FieldStart [] row (concat (csv_fields fs) @ newline # rest) =
       (case csv_scan FieldStart [] [] rest of None \<Rightarrow> None | Some rows \<Rightarrow> Some ((row @ fs) # rows))"
proof (induction fs arbitrary: row rule: csv_fields.induct)
  case (2 f)
  then show ?case
    using csv_scan_field [of "newline # rest" row f] by (simp add: ends_field_def)
next
  case (3 f g fs)
  have "csv_scan FieldStart [] row (csv_field f @ CHR '','' # concat (csv_fields (g # fs)) @ newline # rest)
      = csv_scan FieldStart f row (CHR '','' # concat (csv_fields (g # fs)) @ newline # rest)"
    by (rule csv_scan_field) (simp add: ends_field_def)
  with 3 show ?case by (simp split: option.splits)
qed simp

lemma csv_read_text: "[] \<notin> set rows \<Longrightarrow> csv_read (csv_text rows) = Some rows"
proof (induction rows)
  case Nil
  then show ?case by (simp add: csv_read_def csv_text_def)
next
  case (Cons row rows)
  have "csv_text (row # rows) = concat (csv_fields row) @ newline # csv_text rows"
    by (simp add: csv_text_def csv_record_def)
  with Cons csv_scan_fields [of row "[]" "csv_text rows"] show ?case
    by (auto simp: csv_read_def)
qed


section \<open>The writer\<close>

text \<open>
  What has been put into the buffered writer so far: what reached the file, then what is
  pending.  On a file that takes every write nothing is lost or reordered.
\<close>

definition bufio_content :: "bufio \<Rightarrow> byte list" where
  "bufio_content b = wout (bw_dev b) @ bw_pend b"

definition bufio_ok :: "bufio \<Rightarrow> bool" where
  "bufio_ok b \<longleftrightarrow> bw_err b = None \<and> wstat (bw_dev b) = Healthy \<and> length (bw_pend b) \<le> bufio_size"

lemma bufio_flush_ok [inv_intros]: "bufio_ok b \<Longrightarrow> bufio_ok (bufio_flush b)"
  by (simp add: bufio_ok_def bufio_flush_def bufio_direct_def Let_def)

lemma bufio_flush_content:
  "bufio_ok b \<Longrightarrow> wout (bw_dev (bufio_flush b)) = bufio_content b \<and> bw_pend (bufio_flush b) = []"
  by (auto simp: bufio_ok_def bufio_flush_def bufio_direct_def Let_def bufio_content_def)

lemma bufio_put_ok:
  assumes "bufio_ok b" and "length s \<le> bufio_size - length (bw_pend b) \<or> bw_pend b = []"
  shows "bufio_ok (bufio_put s b) \<and> bufio_content (bufio_put s b) = bufio_content b @ s"
  using assms by (auto simp: bufio_ok_def bufio_put_def bufio_direct_def bufio_content_def)

lemma bufio_write_ok:
  assumes "bufio_ok b"
  shows "bufio_ok (bufio_write s b) \<and> bufio_content (bufio_write s b) = bufio_content b @ s"
proof -
  let ?avail = "bufio_size - length (bw_pend b)"
  let ?b1 = "bufio_flush (b\<lparr>bw_pend := bw_pend b @ take ?avail s\<rparr>)"
  have "bufio_ok (b\<lparr>bw_pend := bw_pend b @ take ?avail s\<rparr>)"
    using assms by (auto simp: bufio_ok_def min_def)
  from bufio_flush_ok [OF this] bufio_flush_content [OF this]
  have b1: "bufio_ok ?b1" "bw_pend ?b1 = []" "wout (bw_dev ?b1) = bufio_content b @ take ?avail s"
    by (auto simp: bufio_content_def)
  show ?thesis
  proof (cases "length s \<le> ?avail \<or> bw_pend b = []")
    case True
    with assms bufio_put_ok [OF assms, of s] show ?thesis
      by (auto simp: bufio_write_def bufio_ok_def)
  next
    case False
    with assms b1 bufio_put_ok [OF b1(1), of "drop ?avail s"] show ?thesis
      by (auto simp: bufio_write_def Let_def bufio_ok_def bufio_content_def)
  qed
qed

lemma csv_Write_ok:
  assumes "bufio_ok b"
  shows "\<exists>b'. csv_Write row b = (None, b') \<and> bufio_ok b'
    \<and> bufio_content b' = bufio_content b @ map byte_of_char (concat (csv_record row))"
proof -
  have "bufio_ok (fold (\<lambda>s. bufio_write (map byte_of_char s)) ps b)
     \<and> bufio_content (fold (\<lambda>s. bufio_write (map byte_of_char s)) ps b)
        = bufio_content b @ map byte_of_char (concat ps)" for ps
    using assms by (induction ps arbitrary: b) (simp_all add: bufio_write_ok)
  then show ?thesis
    by (simp add: csv_Write_def Let_def bufio_ok_def)
qed

lemma csv_write_rows_ok:
  "bufio_ok b \<Longrightarrow> \<exists>b'. csv_write_rows rows b = (None, b') \<and> bufio_ok b'
    \<and> bufio_content b' = bufio_content b @ map byte_of_char (csv_text rows)"
proof (induction rows arbitrary: b)
  case (Cons row rows)
  obtain b1 where b1: "csv_Write row b = (None, b1)" "bufio_ok b1"
      "bufio_content b1 = bufio_content b @ map byte_of_char (concat (csv_record row))"
    using csv_Write_ok [OF Cons.prems] by blast
  obtain b2 where "csv_write_rows rows b1 = (None, b2)" "bufio_ok b2"
      "bufio_content b2 = bufio_content b1 @ map byte_of_char (csv_text rows)"
    using Cons.IH [OF b1(2)] by blast
  with b1 show ?case by (simp add: csv_text_def)
qed (simp add: csv_text_def)

theorem csv_file_healthy:
  "csv_file rows (Inr \<lparr>wout = [], wstat = Healthy\<rparr>) = (None, map byte_of_char (csv_text rows))"
proof -
  have "bufio_ok (bufio_new \<lparr>wout = [], wstat = Healthy\<rparr>)"
    by (simp add: bufio_ok_def bufio_new_def)
  from csv_write_rows_ok [OF this, of rows] obtain b where
    "csv_write_rows rows (bufio_new \<lparr>wout = [], wstat = Healthy\<rparr>) = (None, b)" "bufio_ok b"
    "bufio_content b = map byte_of_char (csv_text rows)"
    by (auto simp: bufio_content_def bufio_new_def)
  with bufio_flush_content [of b] show ?thesis
    by (simp add: csv_file_def)
qed

text \<open>A file whose text fits the buffer is only written by the deferred flush.\<close>

lemma bufio_write_fits:
  "bw_err b = None \<Longrightarrow> length (bw_pend b) + length s \<le> bufio_size \<Longrightarrow>
     bufio_write s b = b\<lparr>bw_pend := bw_pend b @ s\<rparr>"
  by (simp add: bufio_write_def bufio_put_def Let_def le_diff_conv2)

lemma csv_Write_fits:
  assumes "bw_err b = None" and "length (bw_pend b) + length (concat (csv_record row)) \<le> bufio_size"
  shows "csv_Write row b = (None, b\<lparr>bw_pend := bw_pend b @ map byte_of_char (concat (csv_record row))\<rparr>)"
proof -
  have "fold (\<lambda>s. bufio_write (map byte_of_char s)) ps b
      = b\<lparr>bw_pend := bw_pend b @ map byte_of_char (concat ps)\<rparr>"
    if "bw_err b = None" "length (bw_pend b) + length (concat ps) \<le> bufio_size" for ps and b :: bufio
    using that by (induction ps arbitrary: b) (simp_all add: bufio_write_fits)
  from this [OF assms] assms(1) show ?thesis
    by (simp add: csv_Write_def)
qed

lemma csv_write_rows_fits:
  "bw_err b = None \<Longrightarrow> length (bw_pend b) + length (csv_text rows) \<le> bufio_size \<Longrightarrow>
     csv_write_rows rows b = (None, b\<lparr>bw_pend := bw_pend b @ map byte_of_char (csv_text rows)\<rparr>)"
proof (induction rows arbitrary: b)
  case (Cons row rows)
  then show ?case
    by (simp add: csv_text_def csv_Write_fits)
qed (simp add: csv_text_def)

end
