(* ===== verification/Mpq_Session.thy ===== *)
theory Mpq_Session
  imports Mpq_Stream
begin

text \<open>
  The preambles of \<^verbatim>\<open>internal/transfer/session.go\<close>: every path stream starts with a kind
  byte and then either a control header (path 0) or a path hello (every other path).  The
  round trip and the soundness of the reader are stated through the codec contract of
  \<open>Mpq_Stream\<close>.
\<close>

section \<open>Data\<close>

text \<open>
  A \<^verbatim>\<open>SessionID\<close> is an array of sixteen bytes, held here as the number these bytes are in
  network order; \<open>be_bytes 16\<close> gives the bytes back.
\<close>

type_synonym SessionID = "128 word"

record ControlHeader =
  ch_SessionID :: SessionID
  ch_TotalSize :: u64
  ch_ChunkSize :: u32
  ch_NumPaths :: u32
  ch_Scheduler :: string

record PathHello =
  ph_SessionID :: SessionID
  ph_PathIndex :: u32

datatype streamKind = streamKindControl | streamKindPath

fun kind_byte :: "streamKind \<Rightarrow> byte" where
  "kind_byte streamKindControl = 0"
| "kind_byte streamKindPath = 1"

datatype preamble = PreControl ControlHeader | PreHello PathHello

section \<open>Writers\<close>

definition control_fields :: "ControlHeader \<Rightarrow> byte list list" where
  "control_fields h =
     [be_bytes 16 (ch_SessionID h),
      be_bytes 8 (ch_TotalSize h),
      be_bytes 4 (ch_ChunkSize h),
      be_bytes 4 (ch_NumPaths h),
      be_bytes 2 (of_nat (length (ch_Scheduler h)) :: u16),
      map byte_of_char (ch_Scheduler h)]"

definition ControlHeader_Encode :: "ControlHeader \<Rightarrow> wstream \<Rightarrow> io_err option \<times> wstream" where
  "ControlHeader_Encode h w = write_seq (control_fields h) w"

definition PathHello_Encode :: "PathHello \<Rightarrow> wstream \<Rightarrow> io_err option \<times> wstream" where
  "PathHello_Encode p w =
     write_seq [be_bytes 16 (ph_SessionID p), be_bytes 4 (ph_PathIndex p)] w"

definition writeStreamKind :: "streamKind \<Rightarrow> wstream \<Rightarrow> io_err option \<times> wstream" where
  "writeStreamKind k w = stream_write [kind_byte k] w"

definition WriteControlHeader :: "ControlHeader \<Rightarrow> wstream \<Rightarrow> io_err option \<times> wstream" where
  "WriteControlHeader h w =
     (case writeStreamKind streamKindControl w of
        (Some e, w') \<Rightarrow> (Some e, w')
      | (None, w') \<Rightarrow> ControlHeader_Encode h w')"

definition WritePathHello :: "PathHello \<Rightarrow> wstream \<Rightarrow> io_err option \<times> wstream" where
  "WritePathHello p w =
     (case writeStreamKind streamKindPath w of
        (Some e, w') \<Rightarrow> (Some e, w')
      | (None, w') \<Rightarrow> PathHello_Encode p w')"

section \<open>Readers\<close>

definition ReadControlHeader :: "ControlHeader reader" where
  "ReadControlHeader =
     rd_bind (read_uint 16) (\<lambda>sid.
     rd_bind (read_uint 8) (\<lambda>total.
     rd_bind (read_uint 4) (\<lambda>csize.
     rd_bind (read_uint 4) (\<lambda>npaths.
     rd_bind (read_uint 2) (\<lambda>schedLen :: u16.
     rd_bind (read_full (unat schedLen)) (\<lambda>sched.
     rd_return \<lparr>ch_SessionID = sid, ch_TotalSize = total, ch_ChunkSize = csize,
                ch_NumPaths = npaths, ch_Scheduler = map char_of_byte sched\<rparr>))))))"

definition ReadPathHello :: "PathHello reader" where
  "ReadPathHello =
     rd_bind (read_uint 16) (\<lambda>sid.
     rd_bind (read_uint 4) (\<lambda>idx.
     rd_return \<lparr>ph_SessionID = sid, ph_PathIndex = idx\<rparr>))"

definition readStreamKind :: "streamKind reader" where
  "readStreamKind =
     rd_bind (read_full 1) (\<lambda>bs.
       let b = hd bs in
       if b \<noteq> kind_byte streamKindControl \<and> b \<noteq> kind_byte streamKindPath
       then rd_fail (BadStreamKind b)
       else rd_return (if b = kind_byte streamKindControl then streamKindControl
                       else streamKindPath))"

definition ReadPreamble :: "preamble reader" where
  "ReadPreamble =
     rd_bind readStreamKind (\<lambda>kind.
       if kind = streamKindControl
       then rd_bind ReadControlHeader (\<lambda>h. rd_return (PreControl h))
       else rd_bind ReadPathHello (\<lambda>p. rd_return (PreHello p)))"

section \<open>The wire format\<close>

definition control_bytes :: "ControlHeader \<Rightarrow> byte list" where
  "control_bytes h = concat (control_fields h)"

definition hello_bytes :: "PathHello \<Rightarrow> byte list" where
  "hello_bytes p = be_bytes 16 (ph_SessionID p) @ be_bytes 4 (ph_PathIndex p)"

fun preamble_bytes :: "preamble \<Rightarrow> byte list" where
  "preamble_bytes (PreControl h) = kind_byte streamKindControl # control_bytes h"
| "preamble_bytes (PreHello p) = kind_byte streamKindPath # hello_bytes p"

text \<open>The scheduler name's length must fit its 16-bit length field.\<close>

fun preamble_ok :: "preamble \<Rightarrow> bool" where
  "preamble_ok (PreControl h) = (length (ch_Scheduler h) < 2 ^ 16)"
| "preamble_ok (PreHello p) = True"

lemma ReadControlHeader_bytes:
  assumes "length (ch_Scheduler h) < 2 ^ 16"
  shows "ReadControlHeader (s\<lparr>rbuf := control_bytes h @ rest\<rparr>) = Inr (h, s\<lparr>rbuf := rest\<rparr>)"
  using assms
  by (simp add: ReadControlHeader_def control_bytes_def control_fields_def wire_simps unat_of_nat)

lemma ReadPathHello_bytes:
  "ReadPathHello (s\<lparr>rbuf := hello_bytes p @ rest\<rparr>) = Inr (p, s\<lparr>rbuf := rest\<rparr>)"
  by (simp add: ReadPathHello_def hello_bytes_def wire_simps)

lemma readStreamKind_byte:
  "readStreamKind (s\<lparr>rbuf := kind_byte k # rest\<rparr>) = Inr (k, s\<lparr>rbuf := rest\<rparr>)"
proof -
  have "read_full 1 (s\<lparr>rbuf := kind_byte k # rest\<rparr>) = Inr ([kind_byte k], s\<lparr>rbuf := rest\<rparr>)"
    by (simp add: read_full_def)
  then show ?thesis
    by (cases k) (simp_all add: readStreamKind_def wire_simps)
qed

lemma ReadPreamble_bytes:
  assumes "preamble_ok p"
  shows "ReadPreamble (s\<lparr>rbuf := preamble_bytes p @ rest\<rparr>) = Inr (p, s\<lparr>rbuf := rest\<rparr>)"
proof (cases p)
  case (PreControl h)
  have "readStreamKind (s\<lparr>rbuf := preamble_bytes p @ rest\<rparr>)
      = Inr (streamKindControl, s\<lparr>rbuf := control_bytes h @ rest\<rparr>)"
    using readStreamKind_byte [where k = streamKindControl and rest = "control_bytes h @ rest"]
    by (simp add: PreControl)
  with assms PreControl show ?thesis
    by (simp add: ReadPreamble_def wire_simps ReadControlHeader_bytes)
next
  case (PreHello q)
  have "readStreamKind (s\<lparr>rbuf := preamble_bytes p @ rest\<rparr>)
      = Inr (streamKindPath, s\<lparr>rbuf := hello_bytes q @ rest\<rparr>)"
    using readStreamKind_byte [where k = streamKindPath and rest = "hello_bytes q @ rest"]
    by (simp add: PreHello)
  with PreHello show ?thesis
    by (simp add: ReadPreamble_def wire_simps ReadPathHello_bytes)
qed

lemma ReadControlHeader_sound:
  assumes "ReadControlHeader s = Inr (h, s')"
  shows "length (ch_Scheduler h) < 2 ^ 16 \<and> rbuf s = control_bytes h @ rbuf s' \<and> rend s' = rend s"
proof -
  from assms obtain s1 s2 s3 s4 s5 sid total csize npaths sl sched where
    r: "read_uint 16 s = Inr (sid, s1)" "read_uint 8 s1 = Inr (total, s2)"
       "read_uint 4 s2 = Inr (csize, s3)" "read_uint 4 s3 = Inr (npaths, s4)"
       "read_uint 2 s4 = Inr (sl :: u16, s5)" "read_full (unat sl) s5 = Inr (sched, s')"
    and h: "h = \<lparr>ch_SessionID = sid, ch_TotalSize = total, ch_ChunkSize = csize,
                 ch_NumPaths = npaths, ch_Scheduler = map char_of_byte sched\<rparr>"
    unfolding ReadControlHeader_def
    by (auto elim!: rd_bind_InrE simp: rd_return_def)
  have len: "length sched = unat sl"
    by (rule read_full_InrD(1) [OF r(6)])
  then have "length sched < 2 ^ 16"
    using unsigned_less [where w = sl and 'a = nat] by simp
  moreover have "(of_nat (length sched) :: u16) = sl"
    using len by simp
  ultimately show ?thesis
    using r(1-5) [THEN read_uint_InrD(1)] r(1-5) [THEN read_uint_InrD(2)]
      read_full_InrD(2,3) [OF r(6)]
    by (simp add: h control_bytes_def control_fields_def)
qed

lemma ReadPathHello_sound:
  assumes "ReadPathHello s = Inr (p, s')"
  shows "rbuf s = hello_bytes p @ rbuf s' \<and> rend s' = rend s"
proof -
  from assms obtain s1 sid idx where
    r: "read_uint 16 s = Inr (sid, s1)" "read_uint 4 s1 = Inr (idx, s')"
    and p: "p = \<lparr>ph_SessionID = sid, ph_PathIndex = idx\<rparr>"
    unfolding ReadPathHello_def by (auto elim!: rd_bind_InrE simp: rd_return_def)
  show ?thesis
    using r [THEN read_uint_InrD(1)] r [THEN read_uint_InrD(2)]
    by (simp add: p hello_bytes_def)
qed

lemma readStreamKind_sound:
  assumes "readStreamKind s = Inr (k, s')"
  shows "rbuf s = kind_byte k # rbuf s' \<and> rend s' = rend s"
proof -
  from assms obtain bs where r: "read_full 1 s = Inr (bs, s')"
    and k: "hd bs = kind_byte k"
    unfolding readStreamKind_def
    by (auto elim!: rd_bind_InrE simp: rd_return_def rd_fail_def Let_def split: if_splits)
  obtain b where "bs = [b]"
    using read_full_InrD(1) [OF r] by (cases bs) auto
  with k read_full_InrD(2,3) [OF r] show ?thesis
    by simp
qed

lemma ReadPreamble_sound:
  assumes "ReadPreamble s = Inr (p, s')"
  shows "preamble_ok p \<and> rbuf s = preamble_bytes p @ rbuf s' \<and> rend s' = rend s"
proof -
  from assms obtain k s1 where k: "readStreamKind s = Inr (k, s1)"
    and r: "(if k = streamKindControl
       then rd_bind ReadControlHeader (\<lambda>h. rd_return (PreControl h))
       else rd_bind ReadPathHello (\<lambda>p. rd_return (PreHello p))) s1 = Inr (p, s')"
    unfolding ReadPreamble_def by (rule rd_bind_InrE)
  show ?thesis
  proof (cases k)
    case streamKindControl
    with r obtain h where "ReadControlHeader s1 = Inr (h, s')" and "p = PreControl h"
      by (auto elim!: rd_bind_InrE simp: rd_return_def)
    with ReadControlHeader_sound readStreamKind_sound [OF k] streamKindControl show ?thesis
      by fastforce
  next
    case streamKindPath
    with r obtain q where "ReadPathHello s1 = Inr (q, s')" and "p = PreHello q"
      by (auto elim!: rd_bind_InrE simp: rd_return_def)
    with ReadPathHello_sound readStreamKind_sound [OF k] streamKindPath show ?thesis
      by fastforce
  qed
qed

interpretation preamble_wire: wire_codec preamble_bytes ReadPreamble preamble_ok
proof unfold_locales
  fix p s rest
  assume "preamble_ok p"
  then show "ReadPreamble (s\<lparr>rbuf := preamble_bytes p @ rest\<rparr>) = Inr (p, s\<lparr>rbuf := rest\<rparr>)"
    by (rule ReadPreamble_bytes)
next
  fix s s' p
  assume "ReadPreamble s = Inr (p, s')"
  then show "preamble_ok p \<and> rbuf s = preamble_bytes p @ rbuf s' \<and> rend s' = rend s"
    by (rule ReadPreamble_sound)
next
  fix p
  show "preamble_bytes p \<noteq> []"
    by (cases p) simp_all
qed

lemma WriteControlHeader_healthy:
  "wstat w = Healthy \<Longrightarrow>
     WriteControlHeader h w = (None, w\<lparr>wout := wout w @ preamble_bytes (PreControl h)\<rparr>)"
  by (simp add: WriteControlHeader_def writeStreamKind_def ControlHeader_Encode_def
      write_seq_healthy control_bytes_def)

lemma WritePathHello_healthy:
  "wstat w = Healthy \<Longrightarrow>
     WritePathHello p w = (None, w\<lparr>wout := wout w @ preamble_bytes (PreHello p)\<rparr>)"
  by (simp add: WritePathHello_def writeStreamKind_def PathHello_Encode_def
      write_seq_healthy hello_bytes_def)

section \<open>Properties\<close>

text \<open>
  C10: what the client writes at the start of a path stream, a control header on path 0 or
  a path hello on the others, the server reads back unchanged, leaving the bytes after it
  in the stream, for every header whose scheduler name fits its 16-bit length field.
\<close>

theorem preamble_roundtrip:
  assumes "wstat w = Healthy" and "length (ch_Scheduler h) < 2 ^ 16"
  shows "(\<exists>bs. WriteControlHeader h w = (None, w\<lparr>wout := wout w @ bs\<rparr>) \<and>
            ReadPreamble \<lparr>rbuf = bs @ rest, rend = e\<rparr>
              = Inr (PreControl h, \<lparr>rbuf = rest, rend = e\<rparr>)) \<and>
         (\<exists>bs. WritePathHello p w = (None, w\<lparr>wout := wout w @ bs\<rparr>) \<and>
            ReadPreamble \<lparr>rbuf = bs @ rest, rend = e\<rparr>
              = Inr (PreHello p, \<lparr>rbuf = rest, rend = e\<rparr>))"
proof -
  have read: "ReadPreamble \<lparr>rbuf = preamble_bytes q @ rest, rend = e\<rparr>
      = Inr (q, \<lparr>rbuf = rest, rend = e\<rparr>)" if "preamble_ok q" for q
    using preamble_wire.dec_enc_stream [OF that, of "\<lparr>rbuf = preamble_bytes q @ rest, rend = e\<rparr>" rest]
    by simp
  have "preamble_ok (PreControl h)" and "preamble_ok (PreHello p)"
    using assms(2) by simp_all
  then show ?thesis
    using read WriteControlHeader_healthy [OF assms(1)] WritePathHello_healthy [OF assms(1)]
    by blast
qed

theorem preamble_roundtrip_witness:
  "\<exists>bs. WriteControlHeader \<lparr>ch_SessionID = 7, ch_TotalSize = 123456, ch_ChunkSize = 4096,
      ch_NumPaths = 2, ch_Scheduler = ''roundrobin''\<rparr> \<lparr>wout = [], wstat = Healthy\<rparr>
        = (None, \<lparr>wout = bs, wstat = Healthy\<rparr>) \<and>
    (\<exists>h. ReadPreamble \<lparr>rbuf = bs @ [1, 2], rend = EOF\<rparr>
       = Inr (PreControl h, \<lparr>rbuf = [1, 2], rend = EOF\<rparr>) \<and> ch_TotalSize h = 123456)"
proof -
  let ?h = "\<lparr>ch_SessionID = 7, ch_TotalSize = 123456, ch_ChunkSize = 4096,
      ch_NumPaths = 2, ch_Scheduler = ''roundrobin''\<rparr>"
  let ?w = "\<lparr>wout = [], wstat = Healthy\<rparr>"
  have "wstat ?w = Healthy" and "length (ch_Scheduler ?h) < 2 ^ 16"
    by simp_all
  from conjunct1 [OF preamble_roundtrip [OF this, of "[1, 2]" EOF]] obtain bs where
    "WriteControlHeader ?h ?w = (None, ?w\<lparr>wout := wout ?w @ bs\<rparr>)" and
    "ReadPreamble \<lparr>rbuf = bs @ [1, 2], rend = EOF\<rparr>
       = Inr (PreControl ?h, \<lparr>rbuf = [1, 2], rend = EOF\<rparr>)"
    by blast
  then show ?thesis
    by (intro exI [of _ bs]) simp
qed

text \<open>
  C11: the preamble reader accepts exactly the encodings.  It returns a preamble \<open>p\<close> and the
  remaining stream if and only if the stream starts with the bytes of \<open>p\<close> and what follows
  is that remainder; so no other byte sequence is taken for a preamble, and two different
  preambles are never confused.
\<close>

theorem ReadPreamble_accepts_iff:
  "ReadPreamble s = Inr (p, s') \<longleftrightarrow>
     preamble_ok p \<and> rbuf s = preamble_bytes p @ rbuf s' \<and> rend s' = rend s"
proof
  assume "ReadPreamble s = Inr (p, s')"
  then show "preamble_ok p \<and> rbuf s = preamble_bytes p @ rbuf s' \<and> rend s' = rend s"
    by (rule ReadPreamble_sound)
next
  assume r: "preamble_ok p \<and> rbuf s = preamble_bytes p @ rbuf s' \<and> rend s' = rend s"
  then have "ReadPreamble s = Inr (p, s\<lparr>rbuf := rbuf s'\<rparr>)"
    by (intro preamble_wire.dec_enc_stream) auto
  moreover have "s\<lparr>rbuf := rbuf s'\<rparr> = s'"
    using r by (cases s; cases s') simp
  ultimately show "ReadPreamble s = Inr (p, s')"
    by simp
qed

end
