(* ===== verification/Mpq_Metrics.thy ===== *)
theory Mpq_Metrics
  imports Mpq_Csv Mpq_Session
begin

text \<open>
  The result records and files of \<^verbatim>\<open>internal/metrics/metrics.go\<close>: the throughput in Go's
  float64 arithmetic, the rows of the CSV files and the files themselves, the sample logs
  and the progress printer.  Times are nanoseconds.  The JSON file and the console summary
  are in \<^verbatim>\<open>Mpq_Results\<close>.
\<close>

section \<open>Results\<close>

record PathStats =
  ps_Index :: int
  ps_LocalAddr :: string
  ps_RemoteAddr :: string
  ps_Bytes :: u64
  ps_Chunks :: int
  ps_ChunksCorrupted :: int
  ps_Duration :: int
  ps_CC :: string

record RunResult =
  rr_Role :: string
  rr_SessionID :: string
  rr_TotalBytes :: u64
  rr_ChunkSize :: u32
  rr_Scheduler :: string
  rr_StartTime :: int
  rr_Duration :: int
  rr_ThroughputMbps :: rat
  rr_IntegrityOK :: bool
  rr_Paths :: "PathStats list"

text \<open>\<^verbatim>\<open>time.Time.Sub\<close> saturates at the ends of the 64-bit range.\<close>

definition time_Sub :: "int \<Rightarrow> int \<Rightarrow> int" where
  "time_Sub a b = max (- (2 ^ 63)) (min (2 ^ 63 - 1) (a - b))"

text \<open>\<^verbatim>\<open>Duration.Seconds\<close>\<close>

definition Seconds :: "int \<Rightarrow> rat" where
  "Seconds d = fadd (float_of_int (d sdiv 1000000000))
                    (fdiv (float_of_int (d smod 1000000000)) 1000000000)"

definition RunResult_Finalize :: "int \<Rightarrow> RunResult \<Rightarrow> RunResult" where
  "RunResult_Finalize now r =
     (let r1 = r\<lparr>rr_Duration := time_Sub now (rr_StartTime r)\<rparr>
      in if rr_Duration r1 > 0
         then r1\<lparr>rr_ThroughputMbps :=
                fdiv (fdiv (fmult (float_of_u64 (rr_TotalBytes r1)) 8) (Seconds (rr_Duration r1))) 1000000\<rparr>
         else r1)"

section \<open>The results file\<close>

definition results_header :: "string list" where
  "results_header =
     [''session_id'', ''role'', ''path_index'', ''local_addr'', ''remote_addr'', ''bytes'',
      ''chunks'', ''chunks_corrupted'', ''duration_ms'', ''congestion_control'', ''scheduler'',
      ''integrity_ok'']"

definition path_row :: "RunResult \<Rightarrow> PathStats \<Rightarrow> string list" where
  "path_row r p =
     [rr_SessionID r, rr_Role r, Itoa (ps_Index p), ps_LocalAddr p, ps_RemoteAddr p,
      FormatUint (ps_Bytes p), Itoa (ps_Chunks p), Itoa (ps_ChunksCorrupted p),
      Itoa (Milliseconds (ps_Duration p)), ps_CC p, rr_Scheduler r, FormatBool (rr_IntegrityOK r)]"

definition aggregate_row :: "RunResult \<Rightarrow> int \<Rightarrow> string list" where
  "aggregate_row r corruptedTotal =
     [rr_SessionID r, rr_Role r, ''-1'', [], [],
      FormatUint (rr_TotalBytes r), [], Itoa corruptedTotal,
      Itoa (Milliseconds (rr_Duration r)), [], rr_Scheduler r, FormatBool (rr_IntegrityOK r)]"

text \<open>The loop over the paths, with its running total of corrupted chunks.\<close>

fun results_rows :: "RunResult \<Rightarrow> PathStats list \<Rightarrow> int \<Rightarrow> string list list" where
  "results_rows r [] corruptedTotal = [aggregate_row r corruptedTotal]"
| "results_rows r (p # ps) corruptedTotal =
     path_row r p # results_rows r ps (corruptedTotal + ps_ChunksCorrupted p)"

definition RunResult_WriteCSV :: "RunResult \<Rightarrow> io_err + wstream \<Rightarrow> io_err option \<times> byte list" where
  "RunResult_WriteCSV r = csv_file (results_header # results_rows r (rr_Paths r) 0)"

section \<open>Sample files\<close>

record RTTSample =
  rs_SessionID :: string
  rs_PathIndex :: int
  rs_TMs :: int
  rs_LatestRTTMs :: rat
  rs_SmoothedRTTMs :: rat

record DeliverySample =
  ds_SessionID :: string
  ds_PathIndex :: int
  ds_Seq :: u64
  ds_TMs :: int
  ds_Bytes :: int

record BurstSample =
  bs_SessionID :: string
  bs_Role :: string
  bs_BurstID :: u64
  bs_PathIndex :: int
  bs_BytesExpected :: u64
  bs_BytesReceived :: u64
  bs_Chunks :: int
  bs_Corrupted :: int
  bs_Complete :: bool
  bs_StartMs :: int
  bs_EndMs :: int

definition rtt_row :: "RTTSample \<Rightarrow> string list" where
  "rtt_row s =
     [rs_SessionID s, Itoa (rs_PathIndex s), Itoa (rs_TMs s),
      FormatFloat3 (rs_LatestRTTMs s), FormatFloat3 (rs_SmoothedRTTMs s)]"

definition delivery_row :: "DeliverySample \<Rightarrow> string list" where
  "delivery_row s =
     [ds_SessionID s, Itoa (ds_PathIndex s), FormatUint (ds_Seq s), Itoa (ds_TMs s), Itoa (ds_Bytes s)]"

definition burst_row :: "BurstSample \<Rightarrow> string list" where
  "burst_row s =
     [bs_SessionID s, bs_Role s, FormatUint (bs_BurstID s), Itoa (bs_PathIndex s),
      FormatUint (bs_BytesExpected s), FormatUint (bs_BytesReceived s),
      Itoa (bs_Chunks s), Itoa (bs_Corrupted s), FormatBool (bs_Complete s),
      Itoa (bs_StartMs s), Itoa (bs_EndMs s)]"

definition rtt_header :: "string list" where
  "rtt_header = [''session_id'', ''path_index'', ''t_ms'', ''latest_rtt_ms'', ''smoothed_rtt_ms'']"

definition delivery_header :: "string list" where
  "delivery_header = [''session_id'', ''path_index'', ''seq'', ''t_ms'', ''bytes'']"

definition burst_header :: "string list" where
  "burst_header =
     [''session_id'', ''role'', ''burst_id'', ''path_index'', ''bytes_expected'',
      ''bytes_received'', ''chunks'', ''chunks_corrupted'', ''complete'', ''start_ms'', ''end_ms'']"

definition WriteRTTSamplesCSV ::
  "RTTSample list \<Rightarrow> io_err + wstream \<Rightarrow> io_err option \<times> byte list" where
  "WriteRTTSamplesCSV samples = csv_file (rtt_header # map rtt_row samples)"

definition WriteDeliverySamplesCSV ::
  "DeliverySample list \<Rightarrow> io_err + wstream \<Rightarrow> io_err option \<times> byte list" where
  "WriteDeliverySamplesCSV samples = csv_file (delivery_header # map delivery_row samples)"

definition WriteBurstSamplesCSV ::
  "BurstSample list \<Rightarrow> io_err + wstream \<Rightarrow> io_err option \<times> byte list" where
  "WriteBurstSamplesCSV samples = csv_file (burst_header # map burst_row samples)"

section \<open>Sample logs\<close>

record 'a SampleLog =
  sl_rows :: "'a list"

definition SampleLog_Add :: "'a \<Rightarrow> 'a SampleLog \<Rightarrow> 'a SampleLog" where
  "SampleLog_Add v l = l\<lparr>sl_rows := sl_rows l @ [v]\<rparr>"

definition SampleLog_Snapshot :: "'a SampleLog \<Rightarrow> 'a list" where
  "SampleLog_Snapshot l = sl_rows l"

lemma Snapshot_Add [simp]: "SampleLog_Snapshot (SampleLog_Add v l) = SampleLog_Snapshot l @ [v]"
  by (simp add: SampleLog_Snapshot_def SampleLog_Add_def)

lemma Snapshot_fold_Add:
  "SampleLog_Snapshot (fold SampleLog_Add vs l) = SampleLog_Snapshot l @ vs"
  by (induction vs arbitrary: l) simp_all

section \<open>The progress printer\<close>

text \<open>
  \<^verbatim>\<open>current\<close> is a channel of capacity one, \<^verbatim>\<open>done\<close> is closed to end the loop.  What has been
  printed is kept as a list: a progress line with the last value taken from the channel, or
  the closing line.
\<close>

datatype progress_line = Line u64 u64 | FinalLine u64

record ProgressPrinter =
  pp_total :: u64
  pp_current :: "u64 option"
  pp_done :: bool
  pp_last :: u64
  pp_running :: bool
  pp_out :: "progress_line list"

definition NewProgressPrinter :: "u64 \<Rightarrow> ProgressPrinter" where
  "NewProgressPrinter tot =
     \<lparr>pp_total = tot, pp_current = None, pp_done = False, pp_last = 0, pp_running = True,
      pp_out = []\<rparr>"

definition ProgressPrinter_Update :: "u64 \<Rightarrow> ProgressPrinter \<Rightarrow> ProgressPrinter" where
  "ProgressPrinter_Update bytesSoFar p =
     (case pp_current p of None \<Rightarrow> p\<lparr>pp_current := Some bytesSoFar\<rparr> | Some _ \<Rightarrow> p)"

definition ProgressPrinter_Close :: "ProgressPrinter \<Rightarrow> go_panic + ProgressPrinter" where
  "ProgressPrinter_Close p =
     (if pp_done p then Inl CloseOfClosedChannel else Inr (p\<lparr>pp_done := True\<rparr>))"

text \<open>One round of the loop: any of the ready cases may be selected.\<close>

inductive loop_round :: "ProgressPrinter \<Rightarrow> ProgressPrinter \<Rightarrow> bool" where
  lr_value: "pp_running p \<Longrightarrow> pp_current p = Some v \<Longrightarrow>
     loop_round p (p\<lparr>pp_last := v, pp_current := None\<rparr>)"
| lr_tick: "pp_running p \<Longrightarrow>
     loop_round p (p\<lparr>pp_out := pp_out p @ [Line (pp_last p) (pp_total p)]\<rparr>)"
| lr_done: "pp_running p \<Longrightarrow> pp_done p \<Longrightarrow>
     loop_round p (p\<lparr>pp_out := pp_out p @ [FinalLine (pp_total p)], pp_running := False\<rparr>)"

inductive_cases loop_roundE: "loop_round p p'"

text \<open>Runs of the printer with the values handed to \<^verbatim>\<open>Update\<close> so far.\<close>

inductive progress_run :: "u64 \<Rightarrow> u64 list \<Rightarrow> ProgressPrinter \<Rightarrow> bool" for tot where
  pr_new: "progress_run tot [] (NewProgressPrinter tot)"
| pr_update: "progress_run tot vs p \<Longrightarrow> progress_run tot (vs @ [v]) (ProgressPrinter_Update v p)"
| pr_close: "progress_run tot vs p \<Longrightarrow> ProgressPrinter_Close p = Inr p' \<Longrightarrow> progress_run tot vs p'"
| pr_loop: "progress_run tot vs p \<Longrightarrow> loop_round p p' \<Longrightarrow> progress_run tot vs p'"

definition progress_inv :: "u64 \<Rightarrow> u64 list \<Rightarrow> ProgressPrinter \<Rightarrow> bool" where
  "progress_inv tot vs p \<longleftrightarrow>
     pp_total p = tot \<and> pp_last p \<in> insert 0 (set vs) \<and>
     (\<forall>v. pp_current p = Some v \<longrightarrow> v \<in> set vs) \<and>
     (\<exists>ls. pp_out p = map (\<lambda>v. Line v tot) ls @ (if pp_running p then [] else [FinalLine tot])
           \<and> set ls \<subseteq> insert 0 (set vs)) \<and>
     (\<not> pp_running p \<longrightarrow> pp_done p)"

lemma progress_inv_step:
  assumes "progress_inv tot vs p" and "loop_round p p'"
  shows "progress_inv tot vs p'"
  using assms(2)
proof cases
  case (lr_value v)
  with assms(1) show ?thesis by (auto simp: progress_inv_def)
next
  case lr_tick
  with assms(1) obtain ls where "pp_out p = map (\<lambda>v. Line v tot) ls" "set ls \<subseteq> insert 0 (set vs)"
    by (auto simp: progress_inv_def)
  with assms(1) lr_tick show ?thesis
    unfolding progress_inv_def by (auto intro!: exI [of _ "ls @ [pp_last p]"])
next
  case lr_done
  with assms(1) show ?thesis by (auto simp: progress_inv_def)
qed

lemma progress_run_inv: "progress_run tot vs p \<Longrightarrow> progress_inv tot vs p"
proof (induction rule: progress_run.induct)
  case pr_new
  then show ?case by (simp add: progress_inv_def NewProgressPrinter_def)
next
  case (pr_update vs p v)
  have mono: "insert 0 (set vs) \<subseteq> insert 0 (set (vs @ [v]))"
    by auto
  show ?case
    using pr_update.IH mono unfolding progress_inv_def ProgressPrinter_Update_def
    by (auto split: option.splits)
next
  case (pr_close vs p p')
  then show ?case
    by (auto simp: progress_inv_def ProgressPrinter_Close_def split: if_splits)
next
  case (pr_loop vs p p')
  then show ?case by (blast intro: progress_inv_step)
qed


section \<open>Properties\<close>

lemma results_rows_eq:
  "results_rows r ps n = map (path_row r) ps @ [aggregate_row r (n + sum_list (map ps_ChunksCorrupted ps))]"
  by (induction ps arbitrary: n) (simp_all add: ac_simps)

lemma csv_file_text:
  assumes "csv_file rows (Inr \<lparr>wout = [], wstat = Healthy\<rparr>) = (e, bytes)" and "[] \<notin> set rows"
  shows "e = None" and "csv_read (map char_of_byte bytes) = Some rows"
  using assms csv_read_text [OF assms(2)] by (auto simp: csv_file_healthy)

lemma row_lengths [simp]:
  "length results_header = 12" "length (path_row r p) = 12" "length (aggregate_row r n) = 12"
  "length burst_header = 11" "length (burst_row b) = 11"
  "length delivery_header = 5" "length (delivery_row d) = 5"
  "length rtt_header = 5" "length (rtt_row t) = 5"
  by (simp_all add: results_header_def path_row_def aggregate_row_def burst_header_def burst_row_def
      delivery_header_def delivery_row_def rtt_header_def rtt_row_def)

lemma rows_not_Nil: "0 < n \<Longrightarrow> list_all (\<lambda>row. length row = n) rows \<Longrightarrow> [] \<notin> set rows"
  by (auto simp: list_all_iff)

text \<open>On a file that takes every write: the records that are read back, and those of a sample file.\<close>

lemma results_file:
  "\<exists>bytes. RunResult_WriteCSV r (Inr \<lparr>wout = [], wstat = Healthy\<rparr>) = (None, bytes) \<and>
     csv_read (map char_of_byte bytes) = Some (results_header # map (path_row r) (rr_Paths r)
       @ [aggregate_row r (sum_list (map ps_ChunksCorrupted (rr_Paths r)))])"
proof -
  let ?rows = "map (path_row r) (rr_Paths r)
    @ [aggregate_row r (sum_list (map ps_ChunksCorrupted (rr_Paths r)))]"
  obtain e bytes where w: "RunResult_WriteCSV r (Inr \<lparr>wout = [], wstat = Healthy\<rparr>) = (e, bytes)"
    by fastforce
  then have filed: "csv_file (results_header # ?rows) (Inr \<lparr>wout = [], wstat = Healthy\<rparr>) = (e, bytes)"
    by (simp add: RunResult_WriteCSV_def results_rows_eq)
  have "[] \<notin> set (results_header # ?rows)"
    by (rule rows_not_Nil [of 12]) (simp_all add: list_all_iff)
  from csv_file_text [OF filed this] w show ?thesis
    by simp
qed

lemma rtt_file:
  "\<exists>bytes. WriteRTTSamplesCSV samples (Inr \<lparr>wout = [], wstat = Healthy\<rparr>) = (None, bytes) \<and>
     csv_read (map char_of_byte bytes) = Some (rtt_header # map rtt_row samples)"
proof -
  obtain e bytes where w: "WriteRTTSamplesCSV samples (Inr \<lparr>wout = [], wstat = Healthy\<rparr>) = (e, bytes)"
    by fastforce
  have "[] \<notin> set (rtt_header # map rtt_row samples)"
    by (rule rows_not_Nil [of 5]) (simp_all add: list_all_iff)
  from csv_file_text [OF w [unfolded WriteRTTSamplesCSV_def] this] w show ?thesis
    by simp
qed

text \<open>
  C34: the results file says what the run was.  On a file that takes every write, the file
  \<^verbatim>\<open>WriteCSV\<close> leaves can be read back unambiguously, whatever bytes the names in it contain:
  the header, one record per path in order, and the aggregate record with index -1; all
  records have the header's width, the numbers of every path record are the run's, and the
  aggregate's corrupted count is the sum over the paths.
\<close>

theorem results_csv_readable:
  "\<exists>bytes. RunResult_WriteCSV r (Inr \<lparr>wout = [], wstat = Healthy\<rparr>) = (None, bytes) \<and>
     (\<exists>rows agg. csv_read (map char_of_byte bytes) = Some (results_header # rows @ [agg]) \<and>
        length rows = length (rr_Paths r) \<and>
        list_all (\<lambda>row. length row = length results_header) (rows @ [agg]) \<and>
        map (\<lambda>row. (Atoi (row ! 2), Atoi (row ! 5), Atoi (row ! 6), Atoi (row ! 7))) rows
          = map (\<lambda>p. (ps_Index p, int (unat (ps_Bytes p)), ps_Chunks p, ps_ChunksCorrupted p)) (rr_Paths r) \<and>
        map (\<lambda>row. (row ! 3, row ! 4, row ! 9)) rows
          = map (\<lambda>p. (ps_LocalAddr p, ps_RemoteAddr p, ps_CC p)) (rr_Paths r) \<and>
        Atoi (agg ! 2) = -1 \<and> Atoi (agg ! 5) = int (unat (rr_TotalBytes r)) \<and>
        Atoi (agg ! 7) = sum_list (map (\<lambda>row. Atoi (row ! 7)) rows))"
proof -
  let ?rows = "map (path_row r) (rr_Paths r)"
  let ?agg = "aggregate_row r (sum_list (map ps_ChunksCorrupted (rr_Paths r)))"
  have minus: "Atoi ''-1'' = -1"
    by (simp add: Atoi_def undec_def)
  have agg: "Atoi (?agg ! 2) = -1" "Atoi (?agg ! 5) = int (unat (rr_TotalBytes r))"
      "Atoi (?agg ! 7) = sum_list (map (\<lambda>row. Atoi (row ! 7)) ?rows)"
    by (simp_all add: aggregate_row_def path_row_def minus comp_def)
  obtain bytes where "RunResult_WriteCSV r (Inr \<lparr>wout = [], wstat = Healthy\<rparr>) = (None, bytes)"
      "csv_read (map char_of_byte bytes) = Some (results_header # ?rows @ [?agg])"
    using results_file [of r] by blast
  with agg show ?thesis
    by (intro exI [of _ bytes] conjI exI [of _ ?rows] exI [of _ ?agg])
      (simp_all add: path_row_def comp_def list_all_iff)
qed

lemma Seconds_approx:
  assumes pos: "0 < d" and d63: "d < 2 ^ 63"
  shows "approx 2 (Seconds d) (of_int d / 1000000000)"
proof -
  let ?s = "d div 1000000000" and ?n = "d mod 1000000000"
  have quot: "d sdiv 1000000000 = ?s" "d smod 1000000000 = ?n"
    using pos by (simp_all add: signed_divide_int_def signed_modulo_int_def)
  have s: "0 \<le> ?s" "?s < 2 ^ 53" and n: "0 \<le> ?n" "?n < 2 ^ 53"
  proof -
    have "?s * 1000000000 \<le> d" and "?n < 1000000000"
      using pos by simp_all
    then show "0 \<le> ?s" "?s < 2 ^ 53" "0 \<le> ?n" "?n < 2 ^ 53"
      using pos d63 by simp_all
  qed
  have exact_d: "(of_int ?s :: rat) + of_int ?n / 1000000000 = of_int d / 1000000000"
  proof -
    have "(of_int d :: rat) = of_int (?s * 1000000000 + ?n)"
      by simp
    then show ?thesis
      by (simp only: of_int_add of_int_mult of_int_numeral) (simp add: field_simps)
  qed
  have "approx 1 (fdiv (float_of_int ?n) 1000000000) (of_int ?n / 1000000000)"
    using approx_fl [OF approx_refl, of "of_int ?n / 1000000000"] n
    by (simp add: fdiv_def float_of_int_def fl_of_int)
  moreover have "approx 1 (float_of_int ?s) (of_int ?s)"
    using approx_fl [OF approx_refl, of "of_int ?s"] s by (simp add: float_of_int_def)
  ultimately have "approx 1 (float_of_int ?s + fdiv (float_of_int ?n) 1000000000)
      (of_int d / 1000000000)"
    using approx_add exact_d by metis
  from approx_fl [OF this] show ?thesis
    by (simp add: Seconds_def fadd_def quot numeral_2_eq_2)
qed

text \<open>
  C35: the throughput is accurate.  For a run of positive duration the printed throughput,
  computed in six float64 roundings, is the exact quotient of bits and time up to a relative
  error of \<open>7 * 2 ^ -53\<close>.
\<close>

theorem throughput_accurate:
  assumes "0 < time_Sub now (rr_StartTime r)"
  shows "let d = time_Sub now (rr_StartTime r);
             exact = of_nat (unat (rr_TotalBytes r)) * 8000 / of_int d :: rat;
             r' = RunResult_Finalize now r
         in rr_Duration r' = d \<and>
            \<bar>rr_ThroughputMbps r' - exact\<bar> \<le> exact * (7 / 2 ^ 53)"
proof -
  define d where "d = time_Sub now (rr_StartTime r)"
  have pos: "0 < d" and d63: "d < 2 ^ 63"
    using assms by (auto simp: d_def time_Sub_def)
  have secs: "approx 2 (Seconds d) (of_int d / 1000000000)"
    by (rule Seconds_approx [OF pos d63])
  have "approx 1 (float_of_u64 (rr_TotalBytes r)) (of_nat (unat (rr_TotalBytes r)))"
    using approx_fl [OF approx_refl, of "of_nat (unat (rr_TotalBytes r))"]
    by (simp add: float_of_u64_def del: of_nat_unat)
  from approx_fl [OF approx_mult [OF this, of 8]]
  have "approx 2 (fmult (float_of_u64 (rr_TotalBytes r)) 8) (of_nat (unat (rr_TotalBytes r)) * 8)"
    by (simp add: fmult_def numeral_2_eq_2)
  from approx_fl [OF approx_divide [OF this secs]] pos
  have "approx 5 (fdiv (fmult (float_of_u64 (rr_TotalBytes r)) 8) (Seconds d))
      (of_nat (unat (rr_TotalBytes r)) * 8 / (of_int d / 1000000000))"
    by (simp add: fdiv_def)
  from approx_fl [OF approx_mult [OF this, of "1 / 1000000"]]
  have "approx 6 (fdiv (fdiv (fmult (float_of_u64 (rr_TotalBytes r)) 8) (Seconds d)) 1000000)
      (of_nat (unat (rr_TotalBytes r)) * 8000 / of_int d)"
    by (simp add: fdiv_def mult.commute)
  from approx_relative [OF this]
  show ?thesis
    using pos by (simp add: RunResult_Finalize_def Let_def d_def [symmetric] unit_roundoff_def pow2_def)
qed

theorem throughput_accurate_witness:
  "\<exists>r. rr_TotalBytes r = 10485760 \<and>
     \<bar>rr_ThroughputMbps (RunResult_Finalize 2500000000 r) - 33554432 / 1000000\<bar> \<le> 1 / 10 ^ 10"
proof -
  let ?r = "\<lparr>rr_Role = ''client'', rr_SessionID = [], rr_TotalBytes = 10485760, rr_ChunkSize = 32768,
      rr_Scheduler = [], rr_StartTime = 0, rr_Duration = 0, rr_ThroughputMbps = 0,
      rr_IntegrityOK = False, rr_Paths = []\<rparr>"
  have d: "time_Sub 2500000000 0 = 2500000000"
    by (simp add: time_Sub_def)
  have "\<bar>rr_ThroughputMbps (RunResult_Finalize 2500000000 ?r) - 33554432 / 1000000\<bar>
      \<le> 33554432 / 1000000 * (7 / 2 ^ 53)"
    using throughput_accurate [of 2500000000 ?r] by (simp add: Let_def d)
  also have "\<dots> \<le> (1 / 10 ^ 10 :: rat)"
    by simp
  finally show ?thesis
    by (intro exI [of _ ?r]) simp
qed

text \<open>
  C36: a lost results file goes unnoticed.  When the text of the file fits the 4096-byte
  buffer, \<^verbatim>\<open>WriteCSV\<close> reports success on every file that could be created, even one that
  fails at the first byte and stays empty: all the data is written by the deferred flush,
  whose error is dropped.
\<close>

theorem WriteCSV_swallows_errors:
  assumes "length (csv_text (results_header # results_rows r (rr_Paths r) 0)) \<le> bufio_size"
  shows "fst (RunResult_WriteCSV r (Inr dev)) = None
    \<and> RunResult_WriteCSV r (Inr \<lparr>wout = [], wstat = Broken\<rparr>) = (None, [])"
proof -
  have "csv_write_rows (results_header # results_rows r (rr_Paths r) 0) (bufio_new dev')
      = (None, bufio_new dev'
           \<lparr>bw_pend := map byte_of_char (csv_text (results_header # results_rows r (rr_Paths r) 0))\<rparr>)" for dev'
    by (subst csv_write_rows_fits) (use assms in \<open>simp_all add: bufio_new_def\<close>)
  then show ?thesis
    by (simp add: RunResult_WriteCSV_def csv_file_def bufio_flush_def bufio_direct_def bufio_new_def)
qed

theorem WriteCSV_swallows_errors_witness:
  "\<exists>r. rr_Paths r = [] \<and> RunResult_WriteCSV r (Inr \<lparr>wout = [], wstat = Broken\<rparr>) = (None, [])"
proof -
  let ?r = "\<lparr>rr_Role = ''client'', rr_SessionID = [], rr_TotalBytes = 1, rr_ChunkSize = 32768,
      rr_Scheduler = [], rr_StartTime = 0, rr_Duration = 0, rr_ThroughputMbps = 0,
      rr_IntegrityOK = False, rr_Paths = []\<rparr>"
  have "length (csv_text (results_header # results_rows ?r (rr_Paths ?r) 0)) \<le> bufio_size"
    by code_simp
  from WriteCSV_swallows_errors [OF this] show ?thesis
    by (intro exI [of _ ?r]) simp
qed

text \<open>
  The progress display.  Whatever the scheduling of the printing goroutine, every
  progress line shows zero or a value that was reported, against the announced total; the
  closing line is printed at most once, last, and only after \<^verbatim>\<open>Close\<close>.
\<close>

theorem progress_output:
  assumes "progress_run tot vs p"
  shows "\<exists>ls. set ls \<subseteq> insert 0 (set vs) \<and>
    (pp_out p = map (\<lambda>v. Line v tot) ls \<or>
     pp_out p = map (\<lambda>v. Line v tot) ls @ [FinalLine tot] \<and> pp_done p)"
  using progress_run_inv [OF assms] by (auto simp: progress_inv_def split: if_splits)

theorem progress_output_witness:
  "progress_run 10 [7] (NewProgressPrinter 10\<lparr>pp_last := 7, pp_out := [Line 7 10]\<rparr>) \<and>
   (\<exists>ls. set ls \<subseteq> {0, 7} \<and> [Line 7 10] = map (\<lambda>v. Line v 10) ls)"
proof -
  have "progress_run 10 ([] @ [7]) (ProgressPrinter_Update 7 (NewProgressPrinter 10))"
    by (rule pr_update [OF pr_new])
  from pr_loop [OF pr_loop [OF this lr_value [of _ 7]] lr_tick]
  have run: "progress_run 10 [7] (NewProgressPrinter 10\<lparr>pp_last := 7, pp_out := [Line 7 10]\<rparr>)"
    by (simp add: ProgressPrinter_Update_def NewProgressPrinter_def)
  from progress_output [OF run] run show ?thesis
    by auto
qed

end
