(* ===== verification/Mpq_Client.thy ===== *)
theory Mpq_Client
  imports Mpq_Chunk Mpq_Scheduler Mpq_Metrics
begin

text \<open>
  The client of \<^verbatim>\<open>cmd/client/main.go\<close>: the interpretation of its flags, the concurrent send
  loop as a transition system over the dispatcher and one worker per path, the bursts of
  continuous mode and the client's results.
\<close>

section \<open>Splitting and trimming flags\<close>

text \<open>\<^verbatim>\<open>strings.Split(s, ",")\<close>\<close>

fun split_commas :: "string \<Rightarrow> string list" where
  "split_commas [] = [[]]"
| "split_commas (c # cs) =
     (if c = CHR '','' then [] # split_commas cs
      else case split_commas cs of [] \<Rightarrow> [[c]] | f # fs \<Rightarrow> (c # f) # fs)"

text \<open>
  \<^verbatim>\<open>strings.TrimSpace\<close> removes Unicode white space at both ends: the length of the white
  space character a byte sequence starts with, zero when there is none, and the same for
  its end (on the reversed bytes).
\<close>

definition space_prefix :: "nat list \<Rightarrow> nat" where
  "space_prefix bs =
     (if \<not> starts_with_space (take 3 bs) then 0
      else if hd bs < 128 then 1 else if hd bs = 194 then 2 else 3)"

definition space_suffix :: "nat list \<Rightarrow> nat" where
  "space_suffix rbs =
     (if rbs \<noteq> [] \<and> hd rbs < 128 then space_prefix (take 1 rbs)
      else if length rbs \<ge> 2 \<and> space_prefix (rev (take 2 rbs)) = 2 then 2
      else if length rbs \<ge> 3 \<and> space_prefix (rev (take 3 rbs)) = 3 then 3 else 0)"

lemma space_prefix_le: "space_prefix bs \<le> length bs"
proof (cases bs)
  case (Cons a bs')
  note a = this
  show ?thesis
  proof (cases bs')
    case Nil
    with a show ?thesis by (auto simp: space_prefix_def)
  next
    case (Cons b bs'')
    with a show ?thesis
      by (cases bs'') (auto simp: space_prefix_def)
  qed
qed (simp add: space_prefix_def)

function trim_left :: "string \<Rightarrow> string" where
  "trim_left s = (let n = space_prefix (map of_char s) in if n = 0 then s else trim_left (drop n s))"
  by pat_completeness auto
termination
proof (relation "measure length")
  fix s :: string and n
  assume "n = space_prefix (map of_char s)" and "n \<noteq> 0"
  moreover have "space_prefix (map of_char s) \<le> length s"
    using space_prefix_le [of "map of_char s"] by simp
  ultimately show "(drop n s, s) \<in> measure length" by auto
qed simp

lemma space_suffix_le: "space_suffix bs \<le> length bs"
  using space_prefix_le [of "take 1 bs"] by (auto simp: space_suffix_def min_def split: if_splits)

function trim_right_rev :: "string \<Rightarrow> string" where
  "trim_right_rev r = (let n = space_suffix (map of_char r) in if n = 0 then r else trim_right_rev (drop n r))"
  by pat_completeness auto
termination
proof (relation "measure length")
  fix s :: string and n
  assume "n = space_suffix (map of_char s)" and "n \<noteq> 0"
  moreover have "space_suffix (map of_char s) \<le> length s"
    using space_suffix_le [of "map of_char s"] by simp
  ultimately show "(drop n s, s) \<in> measure length" by auto
qed simp

declare trim_left.simps [simp del] trim_right_rev.simps [simp del]

definition TrimSpace :: "string \<Rightarrow> string" where
  "TrimSpace s = rev (trim_right_rev (rev (trim_left s)))"

definition parseLocals :: "string \<Rightarrow> string list" where
  "parseLocals s = (if TrimSpace s = [] then [[]] else map TrimSpace (split_commas s))"

section \<open>Setting up\<close>

datatype client_error =
    ServerRequired
  | BadBurstSizes
  | CCEntries nat nat
  | UnknownScheduler registry_error

definition expandCC :: "string \<Rightarrow> nat \<Rightarrow> client_error + string list" where
  "expandCC spec numPaths =
     (let parts = map TrimSpace (split_commas spec) in
      if length parts = 1 then Inr (replicate numPaths (parts ! 0))
      else if length parts \<noteq> numPaths then Inl (CCEntries (length parts) numPaths)
      else Inr parts)"

text \<open>Intervals are in nanoseconds.\<close>

record flags =
  fl_server :: string
  fl_local :: string
  fl_size :: u64
  fl_chunkSize :: u64
  fl_scheduler :: string
  fl_cc :: string
  fl_continuous :: bool
  fl_burstMinSize :: u64
  fl_burstMaxSize :: u64
  fl_burstInterval :: int
  fl_progressInterval :: int

record plan =
  pl_locals :: "string list"
  pl_ccNames :: "string list"
  pl_sched :: Scheduler
  pl_ctrl :: ControlHeader

text \<open>\<^verbatim>\<open>main\<close> up to dialing: the checks on the flags and the control header.\<close>

definition client_setup :: "flags \<Rightarrow> SessionID \<Rightarrow> client_error + plan" where
  "client_setup f sessID =
     (if fl_server f = [] then Inl ServerRequired
      else if fl_continuous f \<and> (fl_burstMinSize f = 0 \<or> fl_burstMaxSize f < fl_burstMinSize f)
      then Inl BadBurstSizes
      else
        let locals = parseLocals (fl_local f); numPaths = length locals in
        case expandCC (fl_cc f) numPaths of
          Inl e \<Rightarrow> Inl e
        | Inr ccNames \<Rightarrow>
           (case scheduler_Get (fl_scheduler f) schedulers of
              Inl e \<Rightarrow> Inl (UnknownScheduler e)
            | Inr sched \<Rightarrow>
               Inr \<lparr>pl_locals = locals, pl_ccNames = ccNames, pl_sched = sched,
                    pl_ctrl = \<lparr>ch_SessionID = sessID,
                               ch_TotalSize = (if fl_continuous f then 0 else fl_size f),
                               ch_ChunkSize = ucast (fl_chunkSize f),
                               ch_NumPaths = of_nat numPaths,
                               ch_Scheduler = fl_scheduler f\<rparr>\<rparr>))"

text \<open>The preamble of path \<open>i\<close>.\<close>

definition path_preamble :: "ControlHeader \<Rightarrow> nat \<Rightarrow> preamble" where
  "path_preamble ctrl i =
     (if i = 0 then PreControl ctrl
      else PreHello \<lparr>ph_SessionID = ch_SessionID ctrl, ph_PathIndex = of_nat i\<rparr>)"

definition send_preamble :: "ControlHeader \<Rightarrow> nat \<Rightarrow> wstream \<Rightarrow> io_err option \<times> wstream" where
  "send_preamble ctrl i w =
     (if i = 0 then WriteControlHeader ctrl w
      else WritePathHello \<lparr>ph_SessionID = ch_SessionID ctrl, ph_PathIndex = of_nat i\<rparr> w)"

section \<open>Paths\<close>

record pathConn =
  pc_index :: int
  pc_stream :: wstream
  pc_ccName :: string
  pc_bytesSent :: u64
  pc_chunksSent :: int

text \<open>A worker's body for one chunk: on a write error it goes on with the next chunk.\<close>

definition path_send :: "Chunk \<Rightarrow> pathConn \<Rightarrow> bool \<times> pathConn" where
  "path_send c pc =
     (case WriteChunk c (pc_stream pc) of
        (Some e, w) \<Rightarrow> (False, pc\<lparr>pc_stream := w\<rparr>)
      | (None, w) \<Rightarrow> (True, pc\<lparr>pc_stream := w, pc_bytesSent := pc_bytesSent pc + len_u64 (c_Data c),
                              pc_chunksSent := pc_chunksSent pc + 1\<rparr>))"

section \<open>The send loop\<close>

text \<open>
  \<open>sd_pending\<close> are the copies of the current chunk the dispatcher has still to put on a
  queue; the queues are channels of capacity 64; \<open>sd_exited\<close> are the workers that returned.
\<close>

definition queue_capacity :: nat where "queue_capacity = 64"

record send_state =
  sd_chunks :: "Chunk list"
  sd_pending :: "(int \<times> Chunk) list"
  sd_sched :: Scheduler
  sd_queues :: "Chunk list list"
  sd_closed :: bool
  sd_paths :: "pathConn list"
  sd_exited :: "bool list"
  sd_sent :: u64
  sd_progress :: "ProgressPrinter option"

definition send_init :: "Chunk list \<Rightarrow> pathConn list \<Rightarrow> Scheduler \<Rightarrow> ProgressPrinter option \<Rightarrow> send_state" where
  "send_init chunks paths sched progress =
     \<lparr>sd_chunks = chunks, sd_pending = [], sd_sched = sched,
      sd_queues = replicate (length paths) [], sd_closed = False, sd_paths = paths,
      sd_exited = replicate (length paths) False, sd_sent = 0, sd_progress = progress\<rparr>"

text \<open>The round trip times read for one chunk: any values.\<close>

definition path_infos :: "pathConn list \<Rightarrow> PathInfo list \<Rightarrow> bool" where
  "path_infos paths infos \<longleftrightarrow> map pi_Index infos = map pc_index paths"

definition count_sent :: "bool \<Rightarrow> Chunk \<Rightarrow> send_state \<Rightarrow> send_state" where
  "count_sent ok c st =
     (if \<not> ok then st
      else let sent = sd_sent st + len_u64 (c_Data c)
           in st\<lparr>sd_sent := sent,
                 sd_progress := map_option (ProgressPrinter_Update sent) (sd_progress st)\<rparr>)"

inductive send_step :: "send_state \<Rightarrow> send_state \<Rightarrow> bool" where
  sd_assign: "sd_pending st = [] \<Longrightarrow> sd_chunks st = c # cs \<Longrightarrow> path_infos (sd_paths st) infos \<Longrightarrow>
     Assign (sd_sched st) (c_Seq c) infos = (idxs, sched) \<Longrightarrow>
     send_step st (st\<lparr>sd_chunks := cs, sd_pending := map (\<lambda>i. (i, c)) idxs, sd_sched := sched\<rparr>)"
| sd_enqueue: "sd_pending st = (i, c) # rest \<Longrightarrow> 0 \<le> i \<Longrightarrow> nat i < length (sd_queues st) \<Longrightarrow>
     length (sd_queues st ! nat i) < queue_capacity \<Longrightarrow>
     send_step st (st\<lparr>sd_pending := rest,
       sd_queues := (sd_queues st)[nat i := sd_queues st ! nat i @ [c]]\<rparr>)"
| sd_close: "sd_pending st = [] \<Longrightarrow> sd_chunks st = [] \<Longrightarrow> \<not> sd_closed st \<Longrightarrow>
     send_step st (st\<lparr>sd_closed := True\<rparr>)"
| sd_write: "k < length (sd_queues st) \<Longrightarrow> sd_queues st ! k = c # q \<Longrightarrow>
     path_send c (sd_paths st ! k) = (ok, pc) \<Longrightarrow>
     send_step st (count_sent ok c (st\<lparr>sd_queues := (sd_queues st)[k := q],
       sd_paths := (sd_paths st)[k := pc]\<rparr>))"
| sd_exit: "k < length (sd_queues st) \<Longrightarrow> sd_queues st ! k = [] \<Longrightarrow> sd_closed st \<Longrightarrow>
     \<not> sd_exited st ! k \<Longrightarrow>
     send_step st (st\<lparr>sd_exited := (sd_exited st)[k := True]\<rparr>)"

text \<open>The dispatcher panics when the scheduler names a path that is not there.\<close>

inductive send_panic :: "send_state \<Rightarrow> go_panic \<Rightarrow> bool" where
  sp_index: "sd_pending st = (i, c) # rest \<Longrightarrow> i < 0 \<or> length (sd_queues st) \<le> nat i \<Longrightarrow>
     send_panic st IndexOutOfRange"

text \<open>\<^verbatim>\<open>wg.Wait\<close> returns: the queues are closed and every worker has returned.\<close>

definition send_final :: "send_state \<Rightarrow> bool" where
  "send_final st \<longleftrightarrow> sd_closed st \<and> (\<forall>b\<in>set (sd_exited st). b)"

section \<open>The bursts of continuous mode\<close>

definition snapshotSent :: "pathConn list \<Rightarrow> u64 \<times> int" where
  "snapshotSent paths =
     foldl (\<lambda>(bytes, chunks) pc. (bytes + pc_bytesSent pc, chunks + pc_chunksSent pc)) (0, 0) paths"

fun snapshotSentPerPath :: "pathConn list \<Rightarrow> (int \<rightharpoonup> u64 \<times> int) \<Rightarrow> (int \<rightharpoonup> u64 \<times> int)" where
  "snapshotSentPerPath [] out = out"
| "snapshotSentPerPath (pc # pcs) out =
     snapshotSentPerPath pcs (out(pc_index pc \<mapsto> (pc_bytesSent pc, pc_chunksSent pc)))"

text \<open>
  The size of a burst; \<open>r\<close> is the random number \<^verbatim>\<open>rand.Int63n\<close> returned, which panics when
  its bound is not positive as a 64-bit integer.
\<close>

definition burst_size :: "u64 \<Rightarrow> u64 \<Rightarrow> u64 \<Rightarrow> go_panic + u64" where
  "burst_size minSize maxSize r =
     (if maxSize > minSize
      then if sint (maxSize - minSize + 1) \<le> 0 then Inl InvalidArgument else Inr (minSize + r)
      else Inr minSize)"

definition client_burst_aggregate ::
  "string \<Rightarrow> u64 \<Rightarrow> u64 \<Rightarrow> int \<Rightarrow> int \<Rightarrow> pathConn list \<Rightarrow> pathConn list \<Rightarrow> BurstSample" where
  "client_burst_aggregate sess burstID sz startMs endMs before after =
     (let sent = fst (snapshotSent after) - fst (snapshotSent before)
      in \<lparr>bs_SessionID = sess, bs_Role = ''client'', bs_BurstID = burstID, bs_PathIndex = -1,
          bs_BytesExpected = sz, bs_BytesReceived = sent,
          bs_Chunks = snd (snapshotSent after) - snd (snapshotSent before), bs_Corrupted = 0,
          bs_Complete = (sent = sz), bs_StartMs = startMs, bs_EndMs = endMs\<rparr>)"

definition client_burst_path ::
  "string \<Rightarrow> u64 \<Rightarrow> u64 \<Rightarrow> int \<Rightarrow> int \<Rightarrow> (int \<rightharpoonup> u64 \<times> int) \<Rightarrow> (int \<rightharpoonup> u64 \<times> int) \<Rightarrow> int \<Rightarrow> BurstSample" where
  "client_burst_path sess burstID sz startMs endMs before after idx =
     (let (ab, ac) = (case after idx of None \<Rightarrow> (0, 0) | Some x \<Rightarrow> x);
          (bb, bc) = (case before idx of None \<Rightarrow> (0, 0) | Some x \<Rightarrow> x)
      in \<lparr>bs_SessionID = sess, bs_Role = ''client'', bs_BurstID = burstID, bs_PathIndex = idx,
          bs_BytesExpected = sz, bs_BytesReceived = ab - bb, bs_Chunks = ac - bc, bs_Corrupted = 0,
          bs_Complete = (ab - bb = sz), bs_StartMs = startMs, bs_EndMs = endMs\<rparr>)"

text \<open>
  What one burst appends to the log: \<open>order\<close> is the order in which the map of path
  snapshots is enumerated.
\<close>

definition burst_log_rows ::
  "string \<Rightarrow> u64 \<Rightarrow> u64 \<Rightarrow> int \<Rightarrow> int \<Rightarrow> pathConn list \<Rightarrow> pathConn list \<Rightarrow> int list \<Rightarrow> BurstSample list" where
  "burst_log_rows sess burstID sz startMs endMs before after order =
     client_burst_aggregate sess burstID sz startMs endMs before after #
     map (client_burst_path sess burstID sz startMs endMs
            (snapshotSentPerPath before Map.empty) (snapshotSentPerPath after Map.empty)) order"

section \<open>Results\<close>

definition rtt_sample :: "string \<Rightarrow> int \<Rightarrow> int \<Rightarrow> int \<Rightarrow> int \<Rightarrow> int \<Rightarrow> RTTSample" where
  "rtt_sample sess pathIndex now start latest smoothed =
     \<lparr>rs_SessionID = sess, rs_PathIndex = pathIndex, rs_TMs = Milliseconds (time_Sub now start),
      rs_LatestRTTMs = fdiv (float_of_int (Microseconds latest)) 1000,
      rs_SmoothedRTTMs = fdiv (float_of_int (Microseconds smoothed)) 1000\<rparr>"

text \<open>\<open>addrs i\<close> are the local and remote address of path \<open>i\<close>, \<open>now i\<close> the clock when its row is built.\<close>

definition buildResult ::
  "string \<Rightarrow> ControlHeader \<Rightarrow> pathConn list \<Rightarrow> int \<Rightarrow> (int \<Rightarrow> string \<times> string) \<Rightarrow> (int \<Rightarrow> int) \<Rightarrow> int \<Rightarrow> RunResult" where
  "buildResult sess ctrl paths start addrs now finish =
     RunResult_Finalize finish
       \<lparr>rr_Role = ''client'', rr_SessionID = sess, rr_TotalBytes = ch_TotalSize ctrl,
        rr_ChunkSize = ch_ChunkSize ctrl, rr_Scheduler = ch_Scheduler ctrl, rr_StartTime = start,
        rr_Duration = 0, rr_ThroughputMbps = 0, rr_IntegrityOK = False,
        rr_Paths = map (\<lambda>pc. \<lparr>ps_Index = pc_index pc, ps_LocalAddr = fst (addrs (pc_index pc)),
            ps_RemoteAddr = snd (addrs (pc_index pc)), ps_Bytes = pc_bytesSent pc,
            ps_Chunks = pc_chunksSent pc, ps_ChunksCorrupted = 0,
            ps_Duration = time_Sub (now (pc_index pc)) start, ps_CC = pc_ccName pc\<rparr>) paths\<rparr>"

section \<open>What the send loop keeps\<close>

definition paths_wf :: "pathConn list \<Rightarrow> bool" where
  "paths_wf paths \<longleftrightarrow> paths \<noteq> [] \<and> length paths < 2 ^ 63 \<and>
     map pc_index paths = map int [0..<length paths]"

text \<open>An assignment pairs the chunks, in order, with the paths the scheduler chose.\<close>

type_synonym assignment = "(Chunk \<times> int list) list"

definition assignment_ok :: "nat \<Rightarrow> assignment \<Rightarrow> bool" where
  "assignment_ok n full \<longleftrightarrow>
     (\<forall>(c, idxs)\<in>set full. idxs \<noteq> [] \<and> distinct idxs \<and> set idxs \<subseteq> int ` {..<n})"

text \<open>The redundant scheduler sends every chunk down every path.\<close>

definition assigned_by :: "Scheduler \<Rightarrow> nat \<Rightarrow> assignment \<Rightarrow> bool" where
  "assigned_by s n full \<longleftrightarrow> (s = Redundant \<longrightarrow> (\<forall>(c, idxs)\<in>set full. idxs = map int [0..<n]))"

definition copies :: "assignment \<Rightarrow> (int \<times> Chunk) list" where
  "copies full = concat (map (\<lambda>(c, idxs). map (\<lambda>i. (i, c)) idxs) full)"

definition assigned_to :: "nat \<Rightarrow> assignment \<Rightarrow> Chunk list" where
  "assigned_to k full = map fst (filter (\<lambda>(c, idxs). int k \<in> set idxs) full)"

definition queued :: "nat \<Rightarrow> (int \<times> Chunk) list \<Rightarrow> Chunk list" where
  "queued k asg = map snd (filter (\<lambda>(i, c). i = int k) asg)"

definition send_all :: "Chunk list \<Rightarrow> pathConn \<Rightarrow> pathConn" where
  "send_all cs pc = fold (\<lambda>c pc. snd (path_send c pc)) cs pc"

definition send_inv :: "Chunk list \<Rightarrow> pathConn list \<Rightarrow> send_state \<Rightarrow> bool" where
  "send_inv chunks0 paths0 st \<longleftrightarrow>
     (let n = length paths0 in
      length (sd_queues st) = n \<and> length (sd_exited st) = n \<and>
      map pc_index (sd_paths st) = map int [0..<n] \<and>
      (\<exists>asg full. asg @ sd_pending st = copies full \<and> map fst full @ sd_chunks st = chunks0 \<and>
         assignment_ok n full \<and> assigned_by (sd_sched st) n full \<and>
         (\<forall>k<n. \<exists>proc. queued k asg = proc @ sd_queues st ! k \<and>
                  sd_paths st ! k = send_all proc (paths0 ! k))) \<and>
      (sd_closed st \<longrightarrow> sd_pending st = [] \<and> sd_chunks st = []) \<and>
      (\<forall>k<n. sd_exited st ! k \<longrightarrow> sd_closed st \<and> sd_queues st ! k = []))"

lemma copies_simps [simp]:
  "copies [] = []" "copies (full @ full') = copies full @ copies full'"
  "copies [(c, idxs)] = map (\<lambda>i. (i, c)) idxs"
  by (simp_all add: copies_def)

lemma queued_simps [simp]:
  "queued k [] = []" "queued k (a @ b) = queued k a @ queued k b"
  "queued k [(i, c)] = (if i = int k then [c] else [])"
  by (simp_all add: queued_def)

lemma queued_copies:
  "assignment_ok n full \<Longrightarrow> queued k (copies full) = assigned_to k full"
proof (induction full)
  case Nil
  then show ?case by (simp add: assigned_to_def copies_def)
next
  case (Cons x full)
  obtain c idxs where x: "x = (c, idxs)" by fastforce
  have "distinct idxs"
    using Cons.prems by (simp add: x assignment_ok_def)
  then have "map snd (filter (\<lambda>(i, c). i = int k) (map (\<lambda>i. (i, c)) idxs))
      = (if int k \<in> set idxs then [c] else [])"
    by (induction idxs) auto
  with Cons show ?case
    by (auto simp: x copies_def queued_def assigned_to_def assignment_ok_def)
qed

lemma send_all_snoc [simp]: "send_all (cs @ [c]) pc = snd (path_send c (send_all cs pc))"
  and send_all_Nil [simp]: "send_all [] pc = pc"
  by (simp_all add: send_all_def)

lemma path_send_index [simp]: "pc_index (snd (path_send c pc)) = pc_index pc"
  by (simp add: path_send_def split: prod.splits option.splits)

lemma count_sent_simps [simp]:
  "sd_chunks (count_sent ok c st) = sd_chunks st" "sd_pending (count_sent ok c st) = sd_pending st"
  "sd_sched (count_sent ok c st) = sd_sched st" "sd_queues (count_sent ok c st) = sd_queues st"
  "sd_closed (count_sent ok c st) = sd_closed st" "sd_paths (count_sent ok c st) = sd_paths st"
  "sd_exited (count_sent ok c st) = sd_exited st"
  by (simp_all add: count_sent_def Let_def)

lemma send_inv_init:
  assumes "paths_wf paths"
  shows "send_inv chunks paths (send_init chunks paths sched pr)"
  unfolding send_inv_def send_init_def Let_def
  using assms by (auto simp: paths_wf_def assignment_ok_def assigned_by_def intro!: exI [of _ "[]"])

lemma Assign_valid:
  assumes "paths_wf paths0" and "map pc_index paths = map int [0..<length paths0]"
    and "path_infos paths infos" and "Assign s q infos = (idxs, s')"
  shows "idxs \<noteq> [] \<and> distinct idxs \<and> set idxs \<subseteq> int ` {..<length paths0}"
proof -
  have idx: "map pi_Index infos = map int [0..<length paths0]"
    using assms(2,3) by (simp add: path_infos_def)
  then have len: "length infos = length paths0"
    by (metis length_map length_upt diff_zero)
  have "set (map pi_Index infos) = int ` {..<length paths0}"
    unfolding idx by auto
  moreover have "distinct (map pi_Index infos)"
    unfolding idx by (simp add: distinct_map)
  moreover have "length infos < 2 ^ 63" "infos \<noteq> []"
    using len assms(1) by (auto simp: paths_wf_def)
  ultimately show ?thesis
    using scheduler.assign_subset [of infos s q] scheduler.assign_nonempty [of infos s q]
      scheduler.assign_distinct [of infos s q] assms(4) by simp
qed

lemma send_inv_assign:
  assumes "send_inv chunks0 paths0 st" and "paths_wf paths0"
    and "sd_pending st = []" "sd_chunks st = c # cs" "path_infos (sd_paths st) infos"
    and "Assign (sd_sched st) (c_Seq c) infos = (idxs, sched)"
  shows "send_inv chunks0 paths0 (st\<lparr>sd_chunks := cs, sd_pending := map (\<lambda>i. (i, c)) idxs, sd_sched := sched\<rparr>)"
proof -
  obtain asg full where a: "asg = copies full" "map fst full @ c # cs = chunks0"
      "assignment_ok (length paths0) full" "assigned_by (sd_sched st) (length paths0) full"
      "\<forall>k<length paths0. \<exists>proc. queued k asg = proc @ sd_queues st ! k \<and> sd_paths st ! k = send_all proc (paths0 ! k)"
    using assms(1,3,4) by (auto simp: send_inv_def Let_def)
  have "idxs \<noteq> [] \<and> distinct idxs \<and> set idxs \<subseteq> int ` {..<length paths0}"
    using Assign_valid [OF assms(2) _ assms(5,6)] assms(1) by (simp add: send_inv_def Let_def)
  then have "assignment_ok (length paths0) (full @ [(c, idxs)])"
    using a(3) by (auto simp: assignment_ok_def)
  moreover have "assigned_by sched (length paths0) (full @ [(c, idxs)])"
  proof (cases "sd_sched st = Redundant")
    case True
    then have "idxs = map pc_index (sd_paths st)"
      using assms(5,6) by (simp add: redundant_Assign_def path_infos_def)
    with True a(4) assms(1) show ?thesis
      by (auto simp: assigned_by_def send_inv_def Let_def)
  next
    case False
    then have "sched \<noteq> Redundant"
      using assms(6) by (cases "sd_sched st") (auto split: prod.splits)
    then show ?thesis by (simp add: assigned_by_def)
  qed
  ultimately show ?thesis
    using a assms(1,4)
    unfolding send_inv_def Let_def
    by (auto intro!: exI [of _ "copies full"] exI [of _ "full @ [(c, idxs)]"])
qed

lemma send_inv_enqueue:
  assumes "send_inv chunks0 paths0 st" and "sd_pending st = (int j, c) # rest"
    and "j < length (sd_queues st)"
  shows "send_inv chunks0 paths0 (st\<lparr>sd_pending := rest,
       sd_queues := (sd_queues st)[j := sd_queues st ! j @ [c]]\<rparr>)"
proof -
  obtain asg full where a: "asg @ (int j, c) # rest = copies full" "map fst full @ sd_chunks st = chunks0"
      "assignment_ok (length paths0) full" "assigned_by (sd_sched st) (length paths0) full"
      "\<forall>k<length paths0. \<exists>proc. queued k asg = proc @ sd_queues st ! k \<and> sd_paths st ! k = send_all proc (paths0 ! k)"
    using assms(1,2) by (auto simp: send_inv_def Let_def)
  have "\<forall>k<length paths0. \<exists>proc. queued k (asg @ [(int j, c)]) = proc @ (sd_queues st)[j := sd_queues st ! j @ [c]] ! k
      \<and> sd_paths st ! k = send_all proc (paths0 ! k)"
    using a(5) assms(3) by (auto simp: nth_list_update)
  with a assms show ?thesis
    unfolding send_inv_def Let_def
    by (auto intro!: exI [of _ "asg @ [(int j, c)]"] exI [of _ full])
qed

lemma send_inv_write:
  assumes "send_inv chunks0 paths0 st" and "k < length (sd_queues st)" "sd_queues st ! k = c # q"
    and "path_send c (sd_paths st ! k) = (ok, pc)"
  shows "send_inv chunks0 paths0 (count_sent ok c (st\<lparr>sd_queues := (sd_queues st)[k := q],
       sd_paths := (sd_paths st)[k := pc]\<rparr>))"
proof -
  have pc: "pc = snd (path_send c (sd_paths st ! k))"
    by (simp add: assms(4))
  have n: "length (sd_paths st) = length paths0" "length (sd_queues st) = length paths0"
    using assms(1) by (auto simp: send_inv_def Let_def dest: map_eq_imp_length_eq)
  have idx: "map pc_index ((sd_paths st)[k := pc]) = map pc_index (sd_paths st)"
    using assms(2) n by (simp add: map_update pc list_update_same_conv)
  obtain asg full where a: "asg @ sd_pending st = copies full" "map fst full @ sd_chunks st = chunks0"
      "assignment_ok (length paths0) full" "assigned_by (sd_sched st) (length paths0) full"
      "\<forall>k<length paths0. \<exists>proc. queued k asg = proc @ sd_queues st ! k \<and> sd_paths st ! k = send_all proc (paths0 ! k)"
    using assms(1) by (auto simp: send_inv_def Let_def)
  have step: "\<exists>proc. queued j asg = proc @ (sd_queues st)[k := q] ! j
      \<and> (sd_paths st)[k := pc] ! j = send_all proc (paths0 ! j)" if "j < length paths0" for j
  proof (cases "j = k")
    case True
    from a(5) that obtain proc where "queued j asg = proc @ sd_queues st ! j" "sd_paths st ! j = send_all proc (paths0 ! j)"
      by blast
    with True assms(2,3) n show ?thesis
      by (intro exI [of _ "proc @ [c]"]) (simp add: pc)
  next
    case False
    with a(5) that show ?thesis by simp
  qed
  have "sd_exited st ! k \<longrightarrow> False"
    using assms(1-3) by (auto simp: send_inv_def Let_def)
  then have ex: "\<forall>j<length paths0. sd_exited st ! j \<longrightarrow> sd_closed st \<and> (sd_queues st)[k := q] ! j = []"
    using assms(1) unfolding send_inv_def Let_def by (metis nth_list_update_neq)
  show ?thesis
    using assms(1) idx step ex a unfolding send_inv_def Let_def
    by (auto intro!: exI [of _ asg] exI [of _ full])
qed

lemma send_inv_step:
  assumes "send_step st st'" and "send_inv chunks0 paths0 st" and "paths_wf paths0"
  shows "send_inv chunks0 paths0 st'"
  using assms(1)
proof cases
  case (sd_assign c cs infos idxs sched)
  with assms show ?thesis by (simp add: send_inv_assign)
next
  case (sd_enqueue i c rest)
  with assms(2) send_inv_enqueue [of chunks0 paths0 st "nat i" c rest] show ?thesis
    by simp
next
  case sd_close
  with assms(2) show ?thesis by (auto simp: send_inv_def Let_def)
next
  case (sd_write k c q ok pc)
  with assms(2) show ?thesis by (simp add: send_inv_write)
next
  case (sd_exit k)
  with assms(2) show ?thesis by (auto simp: send_inv_def Let_def nth_list_update)
qed

lemma send_inv_reachable:
  assumes "send_step\<^sup>*\<^sup>* (send_init chunks paths sched pr) st" and "paths_wf paths"
  shows "send_inv chunks paths st"
  using assms(1) by (induction rule: rtranclp_induct) (auto intro: send_inv_init send_inv_step assms(2))


text \<open>How much work is left: every step does some of it.\<close>

definition work_left :: "send_state \<Rightarrow> nat" where
  "work_left st =
     (2 * length (sd_queues st) + 1) * length (sd_chunks st) + 2 * length (sd_pending st)
     + sum_list (map length (sd_queues st)) + (if sd_closed st then 0 else 1)
     + length (filter Not (sd_exited st))"

lemma sum_list_update_length:
  "k < length qs \<Longrightarrow> sum_list (map length (qs[k := q])) + length (qs ! k) = sum_list (map length qs) + length q"
  by (induction qs arbitrary: k) (auto split: nat.splits simp: nth_Cons')

lemma count_Not_update:
  "k < length bs \<Longrightarrow> \<not> bs ! k \<Longrightarrow> Suc (length (filter Not (bs[k := True]))) = length (filter Not bs)"
  by (induction bs arbitrary: k) (auto simp: nth_Cons' less_Suc_eq_0_disj)

lemma work_left_decreases:
  assumes "send_step st st'" and "send_inv chunks0 paths0 st" and "paths_wf paths0"
  shows "work_left st' < work_left st"
  using assms(1)
proof cases
  case (sd_assign c cs infos idxs sched)
  have "idxs \<noteq> [] \<and> distinct idxs \<and> set idxs \<subseteq> int ` {..<length paths0}"
    using Assign_valid [OF assms(3) _ sd_assign(4,5)] assms(2) by (simp add: send_inv_def Let_def)
  then have "length idxs \<le> length paths0"
    by (metis card_image card_lessThan card_mono distinct_card finite_imageI finite_lessThan inj_on_of_nat)
  moreover have "length (sd_queues st) = length paths0"
    using assms(2) by (simp add: send_inv_def Let_def)
  ultimately show ?thesis
    using sd_assign by (simp add: work_left_def)
next
  case (sd_enqueue i c rest)
  with sum_list_update_length [of "nat i" "sd_queues st" "sd_queues st ! nat i @ [c]"] show ?thesis
    by (simp add: work_left_def)
next
  case sd_close
  then show ?thesis by (simp add: work_left_def)
next
  case (sd_write k c q ok pc)
  with sum_list_update_length [of k "sd_queues st" q] show ?thesis
    by (simp add: work_left_def)
next
  case (sd_exit k)
  then have "k < length (sd_exited st)"
    using assms(2) by (simp add: send_inv_def Let_def)
  with count_Not_update [of k "sd_exited st"] sd_exit show ?thesis
    by (simp add: work_left_def)
qed

lemma send_steps_work:
  assumes "(send_step ^^ m) (send_init chunks paths sched pr) st" and "paths_wf paths"
  shows "send_inv chunks paths st \<and> m + work_left st \<le> work_left (send_init chunks paths sched pr)"
  using assms(1)
proof (induction m arbitrary: st)
  case 0
  with send_inv_init [OF assms(2)] show ?case by auto
next
  case (Suc m)
  then obtain st1 where st1: "(send_step ^^ m) (send_init chunks paths sched pr) st1" "send_step st1 st"
    by auto
  with Suc.IH [OF st1(1)] send_inv_step [OF st1(2) _ assms(2)] work_left_decreases [OF st1(2) _ assms(2)]
  show ?case by fastforce
qed

text \<open>While the loop is not done somebody can do something, and the dispatcher never panics.\<close>

lemma send_pending_valid:
  assumes "send_inv chunks0 paths0 st" and "sd_pending st = (i, c) # rest"
  shows "0 \<le> i \<and> nat i < length (sd_queues st)"
proof -
  obtain asg full where a: "asg @ (i, c) # rest = copies full" "assignment_ok (length paths0) full"
    using assms by (auto simp: send_inv_def Let_def)
  then have "(i, c) \<in> set (copies full)"
    by (metis in_set_conv_decomp)
  with a(2) have "i \<in> int ` {..<length paths0}"
    by (auto simp: copies_def assignment_ok_def)
  with assms(1) show ?thesis
    by (auto simp: send_inv_def Let_def)
qed

lemma send_progress:
  assumes inv: "send_inv chunks0 paths0 st" and "\<not> send_final st"
  shows "\<exists>st'. send_step st st'"
proof (cases "sd_pending st")
  case (Cons ic rest)
  obtain i c where ic: "ic = (i, c)" by fastforce
  from send_pending_valid [OF inv] Cons ic have i: "0 \<le> i" "nat i < length (sd_queues st)" by auto
  show ?thesis
  proof (cases "length (sd_queues st ! nat i) < queue_capacity")
    case True
    with Cons ic i show ?thesis by (blast intro: sd_enqueue)
  next
    case False
    then obtain d q where "sd_queues st ! nat i = d # q"
      by (cases "sd_queues st ! nat i") (auto simp: queue_capacity_def)
    with i show ?thesis by (metis sd_write surj_pair)
  qed
next
  case Nil
  show ?thesis
  proof (cases "sd_chunks st")
    case (Cons c cs)
    have "path_infos (sd_paths st) (map (\<lambda>pc. \<lparr>pi_Index = pc_index pc, pi_RTT = 0\<rparr>) (sd_paths st))"
      by (simp add: path_infos_def comp_def)
    with Nil Cons show ?thesis by (metis sd_assign surj_pair)
  next
    case no_chunks: Nil
    show ?thesis
    proof (cases "sd_closed st")
      case False
      with Nil no_chunks show ?thesis by (blast intro: sd_close)
    next
      case True
      then obtain k where k: "k < length (sd_exited st)" "\<not> sd_exited st ! k"
        using assms(2) by (auto simp: send_final_def in_set_conv_nth)
      then have kq: "k < length (sd_queues st)"
        using inv by (simp add: send_inv_def Let_def)
      show ?thesis
      proof (cases "sd_queues st ! k")
        case Nil
        with k kq True show ?thesis by (blast intro: sd_exit)
      next
        case (Cons d q)
        with kq show ?thesis by (metis sd_write surj_pair)
      qed
    qed
  qed
qed

text \<open>So there are complete runs.\<close>

lemma send_run_exists:
  assumes "paths_wf paths"
  shows "\<exists>st. send_step\<^sup>*\<^sup>* (send_init chunks paths sched pr) st \<and> send_final st"
proof -
  let ?st0 = "send_init chunks paths sched pr"
  have "\<exists>m st. (send_step ^^ m) ?st0 st \<and> send_final st"
  proof (rule ccontr)
    assume never: "\<not> ?thesis"
    have "\<exists>st. (send_step ^^ m) ?st0 st" for m
    proof (induction m)
      case (Suc m)
      then obtain st where st: "(send_step ^^ m) ?st0 st" by blast
      with never send_progress [of chunks paths st] send_steps_work [OF st assms] show ?case by auto
    qed auto
    then obtain st where "(send_step ^^ Suc (work_left ?st0)) ?st0 st" by blast
    from send_steps_work [OF this assms] show False by simp
  qed
  then show ?thesis
    by (blast dest: relpowp_imp_rtranclp)
qed

lemma send_outcome:
  assumes "send_inv chunks0 paths0 st" and "send_final st"
  shows "\<exists>full. map fst full = chunks0 \<and> assignment_ok (length paths0) full \<and>
     assigned_by (sd_sched st) (length paths0) full \<and>
     sd_paths st = map (\<lambda>k. send_all (assigned_to k full) (paths0 ! k)) [0..<length paths0]"
proof -
  have ex: "sd_exited st ! k" if "k < length paths0" for k
    using assms that by (auto simp: send_inv_def send_final_def Let_def)
  then have empty: "sd_queues st ! k = []" if "k < length paths0" for k
    using assms(1) that by (simp add: send_inv_def Let_def)
  have done_: "sd_pending st = []" "sd_chunks st = []"
    using assms by (auto simp: send_inv_def send_final_def Let_def)
  obtain asg full where a: "asg = copies full" "map fst full = chunks0" "assignment_ok (length paths0) full"
      "assigned_by (sd_sched st) (length paths0) full"
      "\<forall>k<length paths0. sd_paths st ! k = send_all (queued k asg) (paths0 ! k)"
    using assms(1) empty unfolding send_inv_def Let_def done_ by auto
  have "length (sd_paths st) = length paths0"
    using assms(1) by (auto simp: send_inv_def Let_def dest: map_eq_imp_length_eq)
  then have "sd_paths st = map (\<lambda>k. send_all (assigned_to k full) (paths0 ! k)) [0..<length paths0]"
    using a(5) by (intro nth_equalityI) (simp_all add: a(1) queued_copies [OF a(3)])
  with a show ?thesis by blast
qed


lemma send_all_healthy:
  "wstat (pc_stream pc) = Healthy \<Longrightarrow>
     send_all cs pc = pc
       \<lparr>pc_stream := (pc_stream pc)\<lparr>wout := wout (pc_stream pc) @ concat (map (\<lambda>c. chunk_bytes (stamp c)) cs)\<rparr>,
        pc_bytesSent := pc_bytesSent pc + of_nat (sum_list (map (\<lambda>c. length (c_Data c)) cs)),
        pc_chunksSent := pc_chunksSent pc + int (length cs)\<rparr>"
proof (induction cs rule: rev_induct)
  case (snoc c cs)
  then show ?case
    by (simp add: path_send_def WriteChunk_healthy len_u64_def ac_simps)
qed simp

lemma Redundant_step: "send_step st st' \<Longrightarrow> sd_sched st' = Redundant \<longleftrightarrow> sd_sched st = Redundant"
proof (induction rule: send_step.induct)
  case (sd_assign st c cs infos idxs sched)
  then show ?case
    by (cases "sd_sched st") (auto split: prod.splits)
qed auto


lemma send_delivered:
  assumes "paths_wf paths" and "send_step\<^sup>*\<^sup>* (send_init chunks paths sched pr) st" and "send_final st"
    and "\<forall>pc\<in>set paths. wstat (pc_stream pc) = Healthy"
  shows "\<exists>full. map fst full = chunks \<and> assignment_ok (length paths) full \<and>
     assigned_by (sd_sched st) (length paths) full \<and>
     length (sd_paths st) = length paths \<and>
     (\<forall>k<length paths. let cs = assigned_to k full; pc = paths ! k; pc' = sd_paths st ! k in
        pc_stream pc' = (pc_stream pc)\<lparr>wout := wout (pc_stream pc) @ concat (map (\<lambda>c. chunk_bytes (stamp c)) cs)\<rparr> \<and>
        pc_bytesSent pc' = pc_bytesSent pc + of_nat (sum_list (map (\<lambda>c. length (c_Data c)) cs)) \<and>
        pc_chunksSent pc' = pc_chunksSent pc + int (length cs))"
proof -
  obtain full where full: "map fst full = chunks" "assignment_ok (length paths) full"
      "assigned_by (sd_sched st) (length paths) full"
      "sd_paths st = map (\<lambda>k. send_all (assigned_to k full) (paths ! k)) [0..<length paths]"
    using send_outcome [OF send_inv_reachable [OF assms(2,1)] assms(3)] by blast
  have "wstat (pc_stream (paths ! k)) = Healthy" if "k < length paths" for k
    using assms(4) that by simp
  with full show ?thesis
    by (intro exI [of _ full]) (simp add: Let_def send_all_healthy)
qed

lemma snapshotSent_sums:
  "snapshotSent paths = (sum_list (map pc_bytesSent paths), sum_list (map pc_chunksSent paths))"
proof -
  have "foldl (\<lambda>(b, c) pc. (b + pc_bytesSent pc, c + pc_chunksSent pc)) (x, y) paths
      = (x + sum_list (map pc_bytesSent paths), y + sum_list (map pc_chunksSent paths))" for x y
    by (induction paths arbitrary: x y) (simp_all add: ac_simps)
  then show ?thesis
    by (simp add: snapshotSent_def)
qed

lemma Split_data:
  assumes "Split data cs bid bb = Some chunks"
  shows "concat (map c_Data chunks) = data"
proof (cases "effective_chunk_size data cs = 0")
  case True
  with assms have "data = []"
    using Split_None_iff [of data cs bid bb] by auto
  with assms True show ?thesis by (simp add: Split_def split_loop.simps)
next
  case False
  with assms show ?thesis
    by (auto simp: Split_eq_split_list unat_gt_0 intro: split_list_concat)
qed

section \<open>Properties\<close>

text \<open>
  C17: the send loop always returns.  Whatever the interleaving of the dispatcher and the
  workers, whatever the round trip times and whatever the streams do, every run of the send
  loop makes a bounded number of steps, somebody can always make the next one until it
  returns (the bounded queues cannot block it for ever), and it never indexes a queue that
  is not there.
\<close>

theorem sendChunks_terminates:
  assumes "paths_wf paths" and "(send_step ^^ m) (send_init chunks paths sched pr) st"
  shows "m \<le> work_left (send_init chunks paths sched pr)
    \<and> (send_final st \<or> (\<exists>st'. send_step st st')) \<and> \<not> send_panic st e"
proof -
  have inv: "send_inv chunks paths st" and "m \<le> work_left (send_init chunks paths sched pr)"
    using send_steps_work [OF assms(2,1)] by auto
  moreover have "\<not> send_panic st e"
    using send_pending_valid [OF inv] by (auto simp: send_panic.simps)
  ultimately show ?thesis
    using send_progress [OF inv] by blast
qed

definition sample_path :: "int \<Rightarrow> pathConn" where
  "sample_path i = \<lparr>pc_index = i, pc_stream = \<lparr>wout = [], wstat = Healthy\<rparr>, pc_ccName = ''cubic'',
     pc_bytesSent = 0, pc_chunksSent = 0\<rparr>"

lemma sample_paths_wf: "paths_wf [sample_path 0, sample_path 1]"
  by (simp add: paths_wf_def sample_path_def upt_conv_Cons)

theorem sendChunks_terminates_witness:
  "\<exists>st. send_step (send_init [] [sample_path 0, sample_path 1] Redundant None) st \<and> \<not> send_panic st IndexOutOfRange
     \<and> (send_final st \<or> (\<exists>st'. send_step st st'))"
proof -
  let ?st = "send_init [] [sample_path 0, sample_path 1] Redundant None"
  have step: "send_step ?st (?st\<lparr>sd_closed := True\<rparr>)"
    by (rule sd_close) (simp_all add: send_init_def)
  then have "(send_step ^^ 1) ?st (?st\<lparr>sd_closed := True\<rparr>)"
    by (simp only: relpowp_1)
  from sendChunks_terminates [OF sample_paths_wf this] step show ?thesis by blast
qed

text \<open>
  C16: what the send loop delivers.  When it returns and no stream failed, the chunks have
  been assigned, each to at least one path, without repetitions and in their order; each
  path's stream has received exactly the frames of its chunks, checksums included, in that
  order, and the counters have grown by their bytes and number, whatever the interleaving
  was.
\<close>

theorem sendChunks_delivers:
  assumes "paths_wf paths" and "send_step\<^sup>*\<^sup>* (send_init chunks paths sched pr) st" and "send_final st"
    and "\<forall>pc\<in>set paths. wstat (pc_stream pc) = Healthy"
  shows "\<exists>full. map fst full = chunks \<and> assignment_ok (length paths) full \<and>
     length (sd_paths st) = length paths \<and>
     (\<forall>k<length paths. let cs = assigned_to k full; pc = paths ! k; pc' = sd_paths st ! k in
        wout (pc_stream pc') = wout (pc_stream pc) @ concat (map (\<lambda>c. chunk_bytes (stamp c)) cs) \<and>
        pc_bytesSent pc' = pc_bytesSent pc + of_nat (sum_list (map (\<lambda>c. length (c_Data c)) cs)) \<and>
        pc_chunksSent pc' = pc_chunksSent pc + int (length cs))"
proof -
  from send_delivered [OF assms] obtain full where "map fst full = chunks"
    "assignment_ok (length paths) full" "length (sd_paths st) = length paths"
    "\<forall>k<length paths. let cs = assigned_to k full; pc = paths ! k; pc' = sd_paths st ! k in
        pc_stream pc' = (pc_stream pc)\<lparr>wout := wout (pc_stream pc) @ concat (map (\<lambda>c. chunk_bytes (stamp c)) cs)\<rparr> \<and>
        pc_bytesSent pc' = pc_bytesSent pc + of_nat (sum_list (map (\<lambda>c. length (c_Data c)) cs)) \<and>
        pc_chunksSent pc' = pc_chunksSent pc + int (length cs)"
    by blast
  then show ?thesis
    by (intro exI [of _ full]) (simp add: Let_def)
qed

lemma sample_run:
  "\<exists>st. send_step\<^sup>*\<^sup>* (send_init [c] [sample_path 0, sample_path 1] Redundant None) st \<and> send_final st"
  by (rule send_run_exists [OF sample_paths_wf])

theorem sendChunks_delivers_witness:
  "\<exists>st full. send_final st \<and> map fst full = [nth_chunk [1, 2] 2 0 2 0] \<and>
     wout (pc_stream (sd_paths st ! 1)) = concat (map (\<lambda>c. chunk_bytes (stamp c)) (assigned_to 1 full))"
proof -
  let ?c = "nth_chunk [1, 2] 2 0 2 0"
  obtain st where st: "send_step\<^sup>*\<^sup>* (send_init [?c] [sample_path 0, sample_path 1] Redundant None) st"
    "send_final st"
    using sample_run by blast
  have "\<forall>pc\<in>set [sample_path 0, sample_path 1]. wstat (pc_stream pc) = Healthy"
    by (simp add: sample_path_def)
  from sendChunks_delivers [OF sample_paths_wf st this] obtain full where full: "map fst full = [?c]"
    and each: "\<forall>k<length [sample_path 0, sample_path 1]. let cs = assigned_to k full; pc = [sample_path 0, sample_path 1] ! k; pc' = sd_paths st ! k in
        wout (pc_stream pc') = wout (pc_stream pc) @ concat (map (\<lambda>c. chunk_bytes (stamp c)) cs) \<and>
        pc_bytesSent pc' = pc_bytesSent pc + of_nat (sum_list (map (\<lambda>c. length (c_Data c)) cs)) \<and>
        pc_chunksSent pc' = pc_chunksSent pc + int (length cs)"
    by (elim exE conjE) (rule that)
  have "wout (pc_stream (sd_paths st ! 1)) = concat (map (\<lambda>c. chunk_bytes (stamp c)) (assigned_to 1 full))"
    using each [rule_format, of 1] by (simp add: Let_def sample_path_def)
  with st(2) full show ?thesis
    by (intro exI [of _ st] exI [of _ full] conjI)
qed

text \<open>
  C30: the client calls a burst sent over redundant paths incomplete.  With the redundant
  scheduler on two or more healthy paths the whole burst is written on every path, and yet
  the aggregate row the client logs for it says it is not complete: it compares the bytes of
  all copies with the size of the burst.
\<close>

theorem redundant_burst_incomplete:
  assumes "paths_wf paths" and "2 \<le> length paths" and "\<forall>pc\<in>set paths. wstat (pc_stream pc) = Healthy"
    and "Split data chunkSize bid (len_u64 data) = Some chunks" and "data \<noteq> []"
    and "length paths * length data < 2 ^ 64"
    and "send_step\<^sup>*\<^sup>* (send_init chunks paths Redundant None) st" and "send_final st"
  shows "(\<forall>k<length paths. wout (pc_stream (sd_paths st ! k))
             = wout (pc_stream (paths ! k)) @ concat (map (\<lambda>c. chunk_bytes (stamp c)) chunks))
    \<and> bs_BytesReceived (client_burst_aggregate sess bid (len_u64 data) t0 t1 paths (sd_paths st))
        = of_nat (length paths * length data)
    \<and> \<not> bs_Complete (client_burst_aggregate sess bid (len_u64 data) t0 t1 paths (sd_paths st))"
proof -
  let ?n = "length paths" and ?L = "length data"
  obtain full where full: "map fst full = chunks" "assigned_by (sd_sched st) ?n full"
      "length (sd_paths st) = ?n"
    and each: "\<forall>k<?n. let cs = assigned_to k full; pc = paths ! k; pc' = sd_paths st ! k in
        pc_stream pc' = (pc_stream pc)\<lparr>wout := wout (pc_stream pc) @ concat (map (\<lambda>c. chunk_bytes (stamp c)) cs)\<rparr> \<and>
        pc_bytesSent pc' = pc_bytesSent pc + of_nat (sum_list (map (\<lambda>c. length (c_Data c)) cs)) \<and>
        pc_chunksSent pc' = pc_chunksSent pc + int (length cs)"
    using send_delivered [OF assms(1,7,8,3)] by blast
  have "sd_sched st = Redundant"
    using assms(7) by (induction rule: rtranclp_induct) (auto simp: Redundant_step send_init_def)
  with full(2) have all: "assigned_to k full = chunks" if "k < ?n" for k
  proof -
    have "filter (\<lambda>(c, idxs). int k \<in> set idxs) full = full"
      using full(2) \<open>sd_sched st = Redundant\<close> that by (auto simp: assigned_by_def filter_id_conv)
    then show ?thesis
      by (simp add: assigned_to_def full(1))
  qed
  have lens: "sum_list (map (\<lambda>c. length (c_Data c)) chunks) = ?L"
    using Split_data [OF assms(4)] by (metis (mono_tags, lifting) length_concat map_map comp_apply map_eq_conv)
  have gain: "pc_bytesSent (sd_paths st ! k) = pc_bytesSent (paths ! k) + of_nat ?L" if "k < ?n" for k
    using each that all [OF that] by (simp add: Let_def lens)
  have "map pc_bytesSent (sd_paths st) = map (\<lambda>pc. pc_bytesSent pc + of_nat ?L) paths"
    by (rule nth_equalityI) (simp_all add: full(3) gain)
  then have "sum_list (map pc_bytesSent (sd_paths st)) = sum_list (map pc_bytesSent paths) + of_nat (?n * ?L)"
    by (simp add: sum_list_addf sum_list_triv)
  then have sent: "fst (snapshotSent (sd_paths st)) - fst (snapshotSent paths) = of_nat (?n * ?L)"
    by (simp add: snapshotSent_sums)
  have "?L < ?n * ?L"
    using assms(2,5) by (cases ?n) auto
  then have "(of_nat (?n * ?L) :: u64) \<noteq> of_nat ?L"
  proof -
    assume "?L < ?n * ?L"
    then have "?L < 2 ^ 64" and "?n * ?L \<noteq> ?L"
      using assms(6) by linarith+
    with assms(6) show ?thesis
      by (simp add: word_unat_eq_iff unat_of_nat del: of_nat_mult)
  qed
  then show ?thesis
    using each all sent by (simp add: client_burst_aggregate_def Let_def len_u64_def del: of_nat_mult)
qed


theorem redundant_burst_incomplete_witness:
  "\<exists>st. send_final st \<and> bs_BytesExpected (client_burst_aggregate [] 0 2 0 0 [sample_path 0, sample_path 1] (sd_paths st)) = 2
     \<and> bs_BytesReceived (client_burst_aggregate [] 0 2 0 0 [sample_path 0, sample_path 1] (sd_paths st)) = 4
     \<and> \<not> bs_Complete (client_burst_aggregate [] 0 2 0 0 [sample_path 0, sample_path 1] (sd_paths st))"
proof -
  let ?c = "nth_chunk [1, 2] 2 0 2 0"
  obtain st where st: "send_step\<^sup>*\<^sup>* (send_init [?c] [sample_path 0, sample_path 1] Redundant None) st"
    "send_final st"
    using sample_run by blast
  have split: "Split [1, 2] 2 0 (len_u64 [1, 2 :: byte]) = Some [?c]"
    by (simp add: Split_eq_split_list effective_chunk_size_def split_list_def num_chunks_def len_u64_def)
  have ok: "\<forall>pc\<in>set [sample_path 0, sample_path 1]. wstat (pc_stream pc) = Healthy"
    by (simp add: sample_path_def)
  from redundant_burst_incomplete [OF sample_paths_wf _ ok split _ _ st, of "[]" 0 0] st(2)
  show ?thesis
    by (intro exI [of _ st]) (simp add: len_u64_def client_burst_aggregate_def Let_def)
qed

end
