(* ===== verification/Mpq_Delivery.thy ===== *)
theory Mpq_Delivery
  imports Mpq_Base
begin

text \<open>
  The contract both completion trackers of \<^verbatim>\<open>internal/transfer\<close> keep: a chunk is counted
  once, under its key, however often and in whatever order its copies arrive.  The one-shot
  \<^verbatim>\<open>Reassembler\<close> and the \<^verbatim>\<open>BurstTracker\<close> of continuous sessions interpret it on their own
  operations.
\<close>

locale delivery =
  fixes apply_chunk :: "'c \<Rightarrow> 's \<Rightarrow> 's"
    and key :: "'c \<Rightarrow> 'k"
    and weight :: "'k \<Rightarrow> nat"
    and seen :: "'s \<Rightarrow> 'k set"
    and counted :: "'s \<Rightarrow> nat"
    and valid :: "'s \<Rightarrow> bool"
    and acceptable :: "'c \<Rightarrow> bool"
  assumes valid_apply: "valid s \<Longrightarrow> acceptable c \<Longrightarrow> valid (apply_chunk c s)"
    and seen_apply: "valid s \<Longrightarrow> acceptable c \<Longrightarrow> seen (apply_chunk c s) = insert (key c) (seen s)"
    and counted_apply: "valid s \<Longrightarrow> acceptable c \<Longrightarrow>
          counted (apply_chunk c s) = counted s + (if key c \<in> seen s then 0 else weight (key c))"
begin

lemma valid_fold:
  "valid s \<Longrightarrow> list_all acceptable cs \<Longrightarrow> valid (fold apply_chunk cs s)"
  by (induction cs arbitrary: s) (auto intro: valid_apply)

lemma seen_fold:
  "valid s \<Longrightarrow> list_all acceptable cs \<Longrightarrow>
     seen (fold apply_chunk cs s) = seen s \<union> key ` set cs"
  by (induction cs arbitrary: s) (auto simp: seen_apply valid_apply)

lemma counted_fold:
  "valid s \<Longrightarrow> list_all acceptable cs \<Longrightarrow>
     counted (fold apply_chunk cs s) = counted s + sum weight (key ` set cs - seen s)"
proof (induction cs arbitrary: s)
  case Nil
  then show ?case by simp
next
  case (Cons c cs)
  let ?K = "key ` set cs"
  have "counted (fold apply_chunk (c # cs) s)
      = counted (apply_chunk c s) + sum weight (?K - insert (key c) (seen s))"
    using Cons by (simp add: seen_apply valid_apply)
  also have "\<dots> = counted s + sum weight (key ` set (c # cs) - seen s)"
  proof (cases "key c \<in> seen s")
    case True
    with Cons.prems show ?thesis
      by (simp add: counted_apply insert_absorb insert_Diff_if)
  next
    case False
    have "key ` set (c # cs) - seen s = insert (key c) (?K - insert (key c) (seen s))"
      using False by auto
    with False Cons.prems show ?thesis
      by (simp add: counted_apply)
  qed
  finally show ?case .
qed

text \<open>Neither the order nor repetitions of the arrivals matter.\<close>

lemma order_free:
  assumes "valid s" and "list_all acceptable cs" and "list_all acceptable ds"
    and "key ` set cs = key ` set ds"
  shows "seen (fold apply_chunk cs s) = seen (fold apply_chunk ds s)"
    and "counted (fold apply_chunk cs s) = counted (fold apply_chunk ds s)"
  using assms by (simp_all add: seen_fold counted_fold)

lemma counted_complete:
  assumes "valid s" and "list_all acceptable cs" and "seen s = {}" and "K = key ` set cs"
  shows "counted (fold apply_chunk cs s) = counted s + sum weight K"
  using assms by (simp add: counted_fold)

end

end
