(* ===== verification/Mpq_Reassembler.thy ===== *)
theory Mpq_Reassembler
  imports Mpq_Chunk Mpq_Delivery
begin

text \<open>
  The one-shot reassembler of \<^verbatim>\<open>internal/transfer/chunk.go\<close>: its constructor and its
  operations with the panics Go raises on values taken from the network, the exact
  condition under which a write panics, and the correctness of reassembly for any arrival
  order with any duplicates.
\<close>

section \<open>State and operations\<close>

record Reassembler =
  r_buf :: "byte list"
  r_received :: "bool list"
  r_chunkSize :: u32
  r_remaining :: int
  r_receivedBytes :: u64

text \<open>
  \<^verbatim>\<open>make\<close> panics on a length the allocator cannot satisfy; on the 64-bit platforms the
  program runs on that is more than \<open>2 ^ 48\<close> bytes.
\<close>

definition max_alloc :: nat where
  "max_alloc = 2 ^ 48"

definition NewReassembler :: "u64 \<Rightarrow> u32 \<Rightarrow> go_panic + Reassembler" where
  "NewReassembler totalSize chunkSize0 =
     (let chunkSize = (if chunkSize0 = 0 then ucast totalSize else chunkSize0) in
      if chunkSize = 0 then Inl DivideByZero
      else let numChunks = go_int ((totalSize + ucast chunkSize - 1) div ucast chunkSize) in
        if unat totalSize > max_alloc then Inl MakeSliceLen
        else if numChunks < 0 \<or> nat numChunks > max_alloc then Inl MakeSliceLen
        else Inr \<lparr>r_buf = replicate (unat totalSize) 0,
                  r_received = replicate (nat numChunks) False,
                  r_chunkSize = chunkSize,
                  r_remaining = numChunks,
                  r_receivedBytes = 0\<rparr>)"

text \<open>\<^verbatim>\<open>copy(buf[off:], data)\<close> for an offset inside the slice.\<close>

definition copy_at :: "nat \<Rightarrow> byte list \<Rightarrow> byte list \<Rightarrow> byte list" where
  "copy_at off data buf =
     (let n = min (length data) (length buf - off)
      in take off buf @ take n data @ drop (off + n) buf)"

definition Reassembler_Write :: "Chunk \<Rightarrow> Reassembler \<Rightarrow> go_panic + (bool \<times> Reassembler)" where
  "Reassembler_Write c r =
     (let seq = go_int (c_Offset c div ucast (r_chunkSize r)) in
      if seq < 0 \<or> seq \<ge> int (length (r_received r)) then Inr (r_remaining r = 0, r)
      else if \<not> r_received r ! nat seq then
        (if unat (c_Offset c) > length (r_buf r) then Inl SliceOutOfRange
         else let r' = r\<lparr>r_buf := copy_at (unat (c_Offset c)) (c_Data c) (r_buf r),
                         r_received := (r_received r)[nat seq := True],
                         r_remaining := r_remaining r - 1,
                         r_receivedBytes := r_receivedBytes r + len_u64 (c_Data c)\<rparr>
              in Inr (r_remaining r' = 0, r'))
      else Inr (r_remaining r = 0, r))"

definition Reassembler_ReceivedBytes :: "Reassembler \<Rightarrow> u64" where
  "Reassembler_ReceivedBytes r = r_receivedBytes r"

definition Reassembler_Bytes :: "Reassembler \<Rightarrow> byte list" where
  "Reassembler_Bytes r = r_buf r"

definition Reassembler_Complete :: "Reassembler \<Rightarrow> bool" where
  "Reassembler_Complete r = (r_remaining r = 0)"

section \<open>Well-formed reassemblers\<close>

definition reassembler_wf :: "Reassembler \<Rightarrow> bool" where
  "reassembler_wf r \<longleftrightarrow>
     r_chunkSize r \<noteq> 0 \<and> length (r_buf r) \<le> max_alloc \<and>
     length (r_received r) = num_chunks (length (r_buf r)) (unat (r_chunkSize r)) \<and>
     r_remaining r = int (length (filter Not (r_received r)))"

lemma length_copy_at [simp]: "off \<le> length buf \<Longrightarrow> length (copy_at off data buf) = length buf"
  by (simp add: copy_at_def Let_def)

lemma nth_copy_at:
  assumes "off \<le> length buf" and "p < length buf"
  shows "copy_at off data buf ! p
      = (if off \<le> p \<and> p < off + length data then data ! (p - off) else buf ! p)"
  using assms by (auto simp: copy_at_def Let_def nth_append min_def)

lemma length_filter_Not_update:
  "i < length xs \<Longrightarrow> \<not> xs ! i \<Longrightarrow>
     length (filter Not xs) = Suc (length (filter Not (xs[i := True])))"
proof (induction xs arbitrary: i)
  case Nil
  then show ?case by simp
next
  case (Cons x xs)
  then show ?case
    by (cases i) auto
qed

lemma unat_u64_of_u32 [simp]: "unat (ucast (cs :: u32) :: u64) = unat cs"
proof -
  have "unat cs < 2 ^ 32"
    using unsigned_less [where w = cs and 'a = nat] by simp
  then show ?thesis
    by (simp add: unsigned_ucast_eq take_bit_nat_eq_self)
qed

lemma u64_div_u32: "unat (x div (ucast (cs :: u32) :: u64)) = unat x div unat cs"
  by (simp add: unat_div)

text \<open>The effective chunk size, and what the constructor returns.\<close>

definition reassembler_chunk_size :: "u64 \<Rightarrow> u32 \<Rightarrow> u32" where
  "reassembler_chunk_size totalSize chunkSize =
     (if chunkSize = 0 then ucast totalSize else chunkSize)"

lemma numChunks_exact:
  assumes "unat totalSize \<le> max_alloc" and "cs \<noteq> (0 :: u32)"
  shows "go_int ((totalSize + ucast cs - 1) div ucast cs)
      = int (num_chunks (unat totalSize) (unat cs))"
proof -
  have pos: "0 < unat cs"
    using assms(2) by (simp add: unat_gt_0)
  have lt: "unat cs < 2 ^ 32"
    using unsigned_less [where w = cs and 'a = nat] by simp
  have "unat totalSize + unat cs < 2 ^ 64"
    using assms(1) lt by (simp add: max_alloc_def)
  then have sum: "unat (totalSize + ucast cs) = unat totalSize + unat cs"
    by (simp add: unat_word_ariths)
  then have "(1 :: u64) \<le> totalSize + ucast cs"
    using pos by (simp add: word_le_nat_alt)
  then have "unat (totalSize + ucast cs - 1) = unat totalSize + unat cs - 1"
    using sum by (simp add: unat_sub)
  then have q: "unat ((totalSize + ucast cs - 1) div ucast cs) = num_chunks (unat totalSize) (unat cs)"
    by (simp add: u64_div_u32 num_chunks_def)
  have "num_chunks (unat totalSize) (unat cs) < 2 ^ 63"
    using num_chunks_le [OF pos, of "unat totalSize"] assms(1) by (simp add: max_alloc_def)
  with q show ?thesis
    by (simp add: go_int_small)
qed

lemma NewReassembler_Inr_iff:
  "NewReassembler totalSize chunkSize = Inr r \<longleftrightarrow>
     (let cs = reassembler_chunk_size totalSize chunkSize;
          n = num_chunks (unat totalSize) (unat cs) in
      cs \<noteq> 0 \<and> unat totalSize \<le> max_alloc \<and>
      r = \<lparr>r_buf = replicate (unat totalSize) 0, r_received = replicate n False,
           r_chunkSize = cs, r_remaining = int n, r_receivedBytes = 0\<rparr>)"
proof (cases "unat totalSize \<le> max_alloc \<and> reassembler_chunk_size totalSize chunkSize \<noteq> 0")
  case True
  let ?cs = "reassembler_chunk_size totalSize chunkSize"
  have "0 < unat ?cs"
    using True by (simp add: unat_gt_0)
  then have "num_chunks (unat totalSize) (unat ?cs) \<le> max_alloc"
    using num_chunks_le [of "unat ?cs" "unat totalSize"] True by simp
  moreover note numChunks_exact [of totalSize ?cs]
  ultimately show ?thesis
    using True
    unfolding NewReassembler_def reassembler_chunk_size_def [symmetric] Let_def by auto
next
  case False
  then show ?thesis
    unfolding NewReassembler_def reassembler_chunk_size_def [symmetric] Let_def by auto
qed

lemma NewReassembler_wf:
  "NewReassembler totalSize chunkSize = Inr r \<Longrightarrow>
     reassembler_wf r \<and> length (r_buf r) = unat totalSize"
  by (auto simp: NewReassembler_Inr_iff reassembler_wf_def Let_def)

lemma write_index:
  assumes "reassembler_wf r"
  shows "go_int (c_Offset c div ucast (r_chunkSize r)) < 0 \<or>
      go_int (c_Offset c div ucast (r_chunkSize r)) \<ge> int (length (r_received r))
    \<longleftrightarrow> unat (c_Offset c) div unat (r_chunkSize r) \<ge> length (r_received r)"
    and "unat (c_Offset c) div unat (r_chunkSize r) < length (r_received r) \<Longrightarrow>
      nat (go_int (c_Offset c div ucast (r_chunkSize r))) = unat (c_Offset c) div unat (r_chunkSize r)"
proof -
  let ?q = "c_Offset c div ucast (r_chunkSize r)" and ?n = "length (r_received r)"
  have q: "unat ?q = unat (c_Offset c) div unat (r_chunkSize r)"
    by (rule u64_div_u32)
  have "0 < unat (r_chunkSize r)"
    using assms by (simp add: reassembler_wf_def unat_gt_0)
  then have n: "?n < 2 ^ 63"
    using num_chunks_le [of "unat (r_chunkSize r)" "length (r_buf r)"] assms
    by (simp add: reassembler_wf_def max_alloc_def)
  have small: "go_int ?q = int (unat ?q)" if "unat ?q < 2 ^ 63"
    using that by (rule go_int_small)
  have big: "go_int ?q < 0" if "\<not> unat ?q < 2 ^ 63"
    using that by (rule go_int_large)
  show "go_int ?q < 0 \<or> go_int ?q \<ge> int ?n \<longleftrightarrow> unat (c_Offset c) div unat (r_chunkSize r) \<ge> ?n"
    using small big n q by (cases "unat ?q < 2 ^ 63") auto
  show "nat (go_int ?q) = unat (c_Offset c) div unat (r_chunkSize r)"
    if "unat (c_Offset c) div unat (r_chunkSize r) < ?n"
    using that small n q by simp
qed

text \<open>The write in terms of the chunk's index, without the conversions.\<close>

lemma Reassembler_Write_eq:
  assumes "reassembler_wf r"
  shows "Reassembler_Write c r =
     (let i = unat (c_Offset c) div unat (r_chunkSize r) in
      if i \<ge> length (r_received r) \<or> r_received r ! i then Inr (r_remaining r = 0, r)
      else if unat (c_Offset c) > length (r_buf r) then Inl SliceOutOfRange
      else Inr (r_remaining r = 1,
                r\<lparr>r_buf := copy_at (unat (c_Offset c)) (c_Data c) (r_buf r),
                  r_received := (r_received r)[i := True],
                  r_remaining := r_remaining r - 1,
                  r_receivedBytes := r_receivedBytes r + len_u64 (c_Data c)\<rparr>))"
  using write_index [OF assms, of c]
  by (cases "unat (c_Offset c) div unat (r_chunkSize r) < length (r_received r)")
    (auto simp: Reassembler_Write_def Let_def)

lemma Reassembler_Write_wf [inv_intros]:
  assumes "reassembler_wf r" and "Reassembler_Write c r = Inr (b, r')"
  shows "reassembler_wf r'"
  using assms(1,2) length_filter_Not_update
    [of "unat (c_Offset c) div unat (r_chunkSize r)" "r_received r"]
  by (auto simp: Reassembler_Write_eq reassembler_wf_def Let_def split: if_splits)

lemma remaining_zero_iff: "reassembler_wf r \<Longrightarrow> r_remaining r = 0 \<longleftrightarrow> (\<forall>x \<in> set (r_received r). x)"
  by (auto simp: reassembler_wf_def filter_empty_conv)

section \<open>Reassembly of a payload\<close>

text \<open>
  The chunks of one payload: \<open>payload_chunk data sz c\<close> says that \<open>c\<close> carries the slice of
  \<open>data\<close> that starts at its offset, a multiple of the chunk size.  \<open>holds_payload\<close> is the
  state in which exactly the slices marked as received are in the buffer.
\<close>

definition chunk_index :: "nat \<Rightarrow> Chunk \<Rightarrow> nat" where
  "chunk_index sz c = unat (c_Offset c) div sz"

definition payload_chunk :: "byte list \<Rightarrow> nat \<Rightarrow> Chunk \<Rightarrow> bool" where
  "payload_chunk data sz c \<longleftrightarrow>
     unat (c_Offset c) = chunk_index sz c * sz \<and> unat (c_Offset c) < length data \<and>
     c_Data c = take sz (drop (unat (c_Offset c)) data)"

definition received_set :: "Reassembler \<Rightarrow> nat set" where
  "received_set r = {i. i < length (r_received r) \<and> r_received r ! i}"

definition holds_payload :: "byte list \<Rightarrow> nat \<Rightarrow> Reassembler \<Rightarrow> bool" where
  "holds_payload data sz r \<longleftrightarrow>
     reassembler_wf r \<and> unat (r_chunkSize r) = sz \<and> length (r_buf r) = length data \<and>
     (\<forall>p < length data. p div sz \<in> received_set r \<longrightarrow> r_buf r ! p = data ! p) \<and>
     r_receivedBytes r = of_nat (sum (slice_len data sz) (received_set r))"

text \<open>One write as a function on states: a panic would leave the state alone.\<close>

definition write_step :: "Chunk \<Rightarrow> Reassembler \<Rightarrow> Reassembler" where
  "write_step c r = (case Reassembler_Write c r of Inl _ \<Rightarrow> r | Inr (_, r') \<Rightarrow> r')"

lemma finite_received_set [simp]: "finite (received_set r)"
  by (simp add: received_set_def)

lemma holds_payload_new:
  assumes "NewReassembler totalSize chunkSize = Inr r" and "length data = unat totalSize"
  shows "holds_payload data (unat (r_chunkSize r)) r \<and> received_set r = {}"
proof -
  have r: "r_received r = replicate (length (r_received r)) False" "r_receivedBytes r = 0"
    using assms(1) by (auto simp: NewReassembler_Inr_iff Let_def)
  then have "\<not> r_received r ! i" if "i < length (r_received r)" for i
    using that by (metis nth_replicate)
  then have "received_set r = {}"
    by (auto simp: received_set_def)
  with r(2) NewReassembler_wf [OF assms(1)] assms(2) show ?thesis
    by (simp add: holds_payload_def)
qed

lemma payload_chunk_index:
  assumes "holds_payload data sz r" and "payload_chunk data sz c"
  shows "chunk_index sz c < length (r_received r)" and "0 < sz"
proof -
  show pos: "0 < sz"
    using assms(1) by (auto simp: holds_payload_def reassembler_wf_def unat_gt_0)
  show "chunk_index sz c < length (r_received r)"
    using assms less_num_chunks_iff [OF pos, of "chunk_index sz c" "length data"]
    by (auto simp: holds_payload_def reassembler_wf_def payload_chunk_def)
qed

lemma slice_position:
  fixes sz p i :: nat
  assumes "0 < sz"
  shows "p div sz = i \<longleftrightarrow> i * sz \<le> p \<and> p < i * sz + sz"
  using assms div_nat_eqI [of sz i p] dividend_less_div_times [of sz p]
  by (auto simp: mult.commute add.commute)

lemma holds_payload_write:
  assumes h: "holds_payload data sz r" and c: "payload_chunk data sz c"
  obtains b r' where "Reassembler_Write c r = Inr (b, r')" and "holds_payload data sz r'"
    and "received_set r' = insert (chunk_index sz c) (received_set r)"
    and "b = Reassembler_Complete r'"
proof (cases "r_received r ! chunk_index sz c")
  case True
  have wf: "reassembler_wf r" and sz: "unat (r_chunkSize r) = sz"
    using h by (auto simp: holds_payload_def)
  have "Reassembler_Write c r = Inr (r_remaining r = 0, r)"
    using True Reassembler_Write_eq [OF wf, of c] by (simp add: Let_def sz chunk_index_def)
  moreover have "received_set r = insert (chunk_index sz c) (received_set r)"
    using True payload_chunk_index(1) [OF h c] by (auto simp: received_set_def)
  ultimately show ?thesis
    using that h by (auto simp: Reassembler_Complete_def)
next
  case False
  let ?i = "chunk_index sz c" and ?off = "unat (c_Offset c)"
  have wf: "reassembler_wf r" and sz: "unat (r_chunkSize r) = sz"
    and len: "length (r_buf r) = length data"
    using h by (auto simp: holds_payload_def)
  note i = payload_chunk_index [OF h c]
  have off: "?off = ?i * sz" "?off < length data" and d: "c_Data c = take sz (drop ?off data)"
    using c by (auto simp: payload_chunk_def)
  let ?r' = "r\<lparr>r_buf := copy_at ?off (c_Data c) (r_buf r),
               r_received := (r_received r)[?i := True],
               r_remaining := r_remaining r - 1,
               r_receivedBytes := r_receivedBytes r + len_u64 (c_Data c)\<rparr>"
  have w: "Reassembler_Write c r = Inr (r_remaining r = 1, ?r')"
  proof -
    have idx: "?off div unat (r_chunkSize r) = ?i"
      by (simp add: sz chunk_index_def)
    have "\<not> (length (r_received r) \<le> ?i \<or> r_received r ! ?i)" and "\<not> length (r_buf r) < ?off"
      using False i(1) off(2) len by simp_all
    then show ?thesis
      unfolding Reassembler_Write_eq [OF wf] idx Let_def by (simp only: if_False)
  qed
  have set': "received_set ?r' = insert ?i (received_set r)"
    using i(1) by (auto simp: received_set_def nth_list_update)
  have fresh: "?i \<notin> received_set r"
    using False by (simp add: received_set_def)
  have buf: "r_buf ?r' ! p = data ! p"
    if p: "p < length data" "p div sz \<in> received_set ?r'" for p
  proof (cases "p div sz = ?i")
    case True
    then have "?off \<le> p" and "p < ?off + sz"
      using slice_position [OF i(2), of p ?i] off(1) by auto
    then show ?thesis
      using p(1) off(2) len by (auto simp: nth_copy_at d min_def)
  next
    case False
    then have "\<not> (?off \<le> p \<and> p < ?off + length (c_Data c))"
      using slice_position [OF i(2), of p ?i] off(1) d by auto
    then have "r_buf ?r' ! p = r_buf r ! p"
      using p(1) off(2) len by (auto simp: nth_copy_at)
    moreover have "p div sz \<in> received_set r"
      using False p(2) set' by auto
    ultimately show ?thesis
      using h p(1) by (simp add: holds_payload_def)
  qed
  have "slice_len data sz ?i = length (c_Data c)"
    by (simp add: slice_len_def d off(1))
  then have bytes: "r_receivedBytes ?r' = of_nat (sum (slice_len data sz) (received_set ?r'))"
  proof -
    have "sum (slice_len data sz) (received_set ?r')
        = slice_len data sz ?i + sum (slice_len data sz) (received_set r)"
      unfolding set' using fresh by simp
    moreover have "r_receivedBytes ?r' = of_nat (sum (slice_len data sz) (received_set r))
        + of_nat (length (c_Data c))"
      using h by (simp add: holds_payload_def len_u64_def)
    ultimately show ?thesis
      using \<open>slice_len data sz ?i = length (c_Data c)\<close> by (simp only: of_nat_add add.commute)
  qed
  have "holds_payload data sz ?r'"
    using Reassembler_Write_wf [OF wf w] buf bytes sz len off(2)
    by (simp add: holds_payload_def)
  with w set' show ?thesis
    by (intro that) (auto simp: Reassembler_Complete_def)
qed

interpretation reassembly: delivery write_step "chunk_index sz" "slice_len data sz"
    received_set "\<lambda>r. sum (slice_len data sz) (received_set r)"
    "holds_payload data sz" "payload_chunk data sz"
  for data :: "byte list" and sz :: nat
proof unfold_locales
  fix r c
  assume "holds_payload data sz r" and "payload_chunk data sz c"
  then obtain b r' where w: "Reassembler_Write c r = Inr (b, r')" "holds_payload data sz r'"
    "received_set r' = insert (chunk_index sz c) (received_set r)"
    by (rule holds_payload_write)
  then show "holds_payload data sz (write_step c r)"
    and "received_set (write_step c r) = insert (chunk_index sz c) (received_set r)"
    by (simp_all add: write_step_def)
  show "sum (slice_len data sz) (received_set (write_step c r))
      = sum (slice_len data sz) (received_set r)
        + (if chunk_index sz c \<in> received_set r then 0 else slice_len data sz (chunk_index sz c))"
    using w by (simp add: write_step_def insert_absorb)
qed

text \<open>The writes of a whole transfer, in the order the session performs them.\<close>

fun run_writes :: "Chunk list \<Rightarrow> Reassembler \<Rightarrow> go_panic + Reassembler" where
  "run_writes [] r = Inr r"
| "run_writes (c # cs) r =
     (case Reassembler_Write c r of
        Inl e \<Rightarrow> Inl e
      | Inr (_, r') \<Rightarrow> run_writes cs r')"

lemma run_writes_fold:
  "holds_payload data sz r \<Longrightarrow> list_all (payload_chunk data sz) cs \<Longrightarrow>
     run_writes cs r = Inr (fold write_step cs r)"
proof (induction cs arbitrary: r)
  case Nil
  then show ?case by simp
next
  case (Cons c cs)
  from Cons.prems have "payload_chunk data sz c"
    by simp
  with Cons.prems(1) obtain b r' where
    "Reassembler_Write c r = Inr (b, r')" "holds_payload data sz r'"
    by (rule holds_payload_write)
  with Cons show ?case
    by (simp add: write_step_def)
qed

lemma complete_received_set:
  assumes "holds_payload data sz r"
  shows "Reassembler_Complete r \<longleftrightarrow> received_set r = {..<num_chunks (length data) sz}"
proof -
  have wf: "reassembler_wf r" and n: "length (r_received r) = num_chunks (length data) sz"
    using assms by (auto simp: holds_payload_def reassembler_wf_def)
  have "Reassembler_Complete r \<longleftrightarrow> (\<forall>i < length (r_received r). r_received r ! i)"
    unfolding Reassembler_Complete_def remaining_zero_iff [OF wf] by (simp add: all_set_conv_all_nth)
  then show ?thesis
    by (auto simp: received_set_def n)
qed

lemma complete_payload:
  assumes h: "holds_payload data sz r" and pos: "0 < sz" and full: "Reassembler_Complete r"
  shows "Reassembler_Bytes r = data" and "Reassembler_ReceivedBytes r = len_u64 data"
proof -
  let ?n = "num_chunks (length data) sz"
  have all: "received_set r = {..<?n}"
    using full complete_received_set [OF h] by simp
  have len: "length (r_buf r) = length data"
    using h by (simp add: holds_payload_def)
  have "p div sz < ?n" if "p < length data" for p
    using le_less_trans [OF div_times_less_eq_dividend that] by (simp add: less_num_chunks_iff [OF pos])
  then show "Reassembler_Bytes r = data"
    unfolding Reassembler_Bytes_def
    by (intro nth_equalityI) (use h all len in \<open>auto simp: holds_payload_def\<close>)
  have "sum (slice_len data sz) {..<?n} = length data"
    by (rule sum_slice_len [OF pos])
  then show "Reassembler_ReceivedBytes r = len_u64 data"
    using h all by (simp add: Reassembler_ReceivedBytes_def holds_payload_def len_u64_def
        del: of_nat_sum)
qed

lemma payload_chunk_nth:
  assumes "0 < sz" and "length data \<le> max_alloc" and "i < num_chunks (length data) sz"
  shows "payload_chunk data sz (stamp (nth_chunk data sz bid bb i))"
    and "chunk_index sz (stamp (nth_chunk data sz bid bb i)) = i"
proof -
  have lt: "i * sz < length data"
    using assms(3) less_num_chunks_iff [OF assms(1)] by simp
  then have off: "unat (of_nat (i * sz) :: u64) = i * sz"
    using assms(2) by (simp add: unat_of_nat max_alloc_def del: of_nat_mult)
  then show "chunk_index sz (stamp (nth_chunk data sz bid bb i)) = i"
    using assms(1) by (simp add: chunk_index_def nth_chunk_def del: of_nat_mult)
  then show "payload_chunk data sz (stamp (nth_chunk data sz bid bb i))"
    using off lt by (simp add: payload_chunk_def nth_chunk_def del: of_nat_mult)
qed

lemma chunk_sizes_agree: "reassembler_chunk_size (len_u64 data) cs = effective_chunk_size data cs"
  by (simp add: reassembler_chunk_size_def effective_chunk_size_def len_u64_def len_u32_def
      word_unat_eq_iff unsigned_ucast_eq unat_of_nat take_bit_eq_mod mod_mod_cancel)

lemma reassemble_payload:
  assumes "Split data chunkSize burstID burstBytes = Some chunks"
    and "NewReassembler (len_u64 data) chunkSize = Inr r0"
    and "length data \<le> max_alloc"
    and "set arrivals \<subseteq> stamp ` set chunks"
  shows "\<exists>r. run_writes arrivals r0 = Inr r \<and>
           (Reassembler_Complete r \<longleftrightarrow> set arrivals = stamp ` set chunks) \<and>
           (Reassembler_Complete r \<longrightarrow>
              Reassembler_Bytes r = data \<and> Reassembler_ReceivedBytes r = len_u64 data)"
proof -
  let ?sz = "unat (r_chunkSize r0)" and ?n = "num_chunks (length data) (unat (r_chunkSize r0))"
  have len: "length data = unat (len_u64 data)"
    using assms(3) by (simp add: unat_len_u64 max_alloc_def)
  have cs: "effective_chunk_size data chunkSize = r_chunkSize r0" "r_chunkSize r0 \<noteq> 0"
    using assms(2) by (auto simp: NewReassembler_Inr_iff Let_def chunk_sizes_agree)
  then have pos: "0 < ?sz"
    by (simp add: unat_gt_0)
  have chunks: "chunks = split_list data ?sz burstID burstBytes"
    using assms(1) cs by (simp add: Split_eq_split_list)
  let ?c = "\<lambda>i. stamp (nth_chunk data ?sz burstID burstBytes i)"
  have all: "stamp ` set chunks = ?c ` {..<?n}"
    by (simp add: chunks split_list_def image_image atLeast0LessThan)
  have h0: "holds_payload data ?sz r0" "received_set r0 = {}"
    using holds_payload_new [OF assms(2) len] by auto
  have ok: "list_all (payload_chunk data ?sz) arrivals"
    using assms(4) payload_chunk_nth(1) [OF pos assms(3)] unfolding all list_all_iff by blast
  let ?r = "fold write_step arrivals r0"
  have h: "holds_payload data ?sz ?r"
    by (rule reassembly.valid_fold [OF h0(1) ok])
  have recv: "received_set ?r = chunk_index ?sz ` set arrivals"
    using reassembly.seen_fold [OF h0(1) ok] h0(2) by simp
  have inj: "inj_on (chunk_index ?sz) (?c ` {..<?n})"
    by (rule inj_on_inverseI [where g = ?c]) (use payload_chunk_nth(2) [OF pos assms(3)] in auto)
  have idx: "chunk_index ?sz ` ?c ` {..<?n} = {..<?n}"
    using payload_chunk_nth(2) [OF pos assms(3)] by (force simp: image_image)
  have "Reassembler_Complete ?r \<longleftrightarrow> chunk_index ?sz ` set arrivals = chunk_index ?sz ` ?c ` {..<?n}"
    using complete_received_set [OF h] by (simp only: recv idx)
  also have "\<dots> \<longleftrightarrow> set arrivals = stamp ` set chunks"
    using inj_on_image_eq_iff [OF inj] assms(4) unfolding all by blast
  finally show ?thesis
    using run_writes_fold [OF h0(1) ok] complete_payload [OF h pos] by blast
qed

section \<open>Properties\<close>

text \<open>
  C4: reassembly is correct.  Take the chunks of a payload, each with its wire checksum,
  and write any selection of them in any order, with any repetitions, into the reassembler
  the server builds from the control header.  No write panics; the reassembler reports
  completion exactly when every chunk has arrived; and then its buffer is the payload and
  its byte count the payload's length, duplicates not counted.
\<close>

theorem reassembly_correct:
  assumes "Split data chunkSize burstID burstBytes = Some chunks"
    and "NewReassembler (len_u64 data) chunkSize = Inr r0"
    and "length data \<le> max_alloc"
    and "set arrivals \<subseteq> stamp ` set chunks"
  shows "\<exists>r. run_writes arrivals r0 = Inr r \<and>
           (Reassembler_Complete r \<longleftrightarrow> set arrivals = stamp ` set chunks) \<and>
           (Reassembler_Complete r \<longrightarrow>
              Reassembler_Bytes r = data \<and> Reassembler_ReceivedBytes r = len_u64 data)"
  by (rule reassemble_payload [OF assms])

theorem reassembly_correct_witness:
  "\<exists>r. run_writes
      (map stamp (rev (split_list [1, 2, 3, 4, 5] 2 0 5)) @ [stamp (nth_chunk [1, 2, 3, 4, 5] 2 0 5 0)])
      \<lparr>r_buf = replicate 5 0, r_received = replicate 3 False, r_chunkSize = 2, r_remaining = 3,
       r_receivedBytes = 0\<rparr> = Inr r \<and> Reassembler_Bytes r = [1, 2, 3, 4, 5]"
proof -
  let ?data = "[1, 2, 3, 4, 5] :: byte list"
  let ?r0 = "\<lparr>r_buf = replicate 5 0, r_received = replicate 3 False, r_chunkSize = 2 :: u32,
     r_remaining = 3, r_receivedBytes = 0\<rparr>"
  let ?arr = "map stamp (rev (split_list ?data 2 0 5)) @ [stamp (nth_chunk ?data 2 0 5 0)]"
  have n: "num_chunks 5 2 = 3"
    by (simp add: num_chunks_def)
  have sp: "Split ?data 2 0 5 = Some (split_list ?data 2 0 5)"
    using Split_eq_split_list [of ?data 2 0 5] by (simp add: effective_chunk_size_def)
  have new: "NewReassembler (len_u64 ?data) 2 = Inr ?r0"
    by (simp add: NewReassembler_Inr_iff reassembler_chunk_size_def Let_def len_u64_def
        max_alloc_def n)
  have "0 < num_chunks (length ?data) 2"
    by (simp add: num_chunks_pos)
  then have "nth_chunk ?data 2 0 5 0 \<in> set (split_list ?data 2 0 5)"
    by (auto simp: split_list_def)
  then have arr: "set ?arr = stamp ` set (split_list ?data 2 0 5)"
    by auto
  have "length ?data \<le> max_alloc"
    by (simp add: max_alloc_def)
  from reassembly_correct [OF sp new this, of ?arr] arr show ?thesis
    by auto
qed

text \<open>
  When a write panics.  In a well-formed reassembler a write panics exactly when its
  offset lies beyond the end of the payload but still inside the last, partial chunk slot,
  and that slot has not been filled: the index check accepts it and the slice expression
  does not.  The offset is not covered by the chunk's checksum.
\<close>

theorem Reassembler_Write_panics_iff:
  assumes "reassembler_wf r"
  shows "Reassembler_Write c r = Inl e \<longleftrightarrow>
    (let i = unat (c_Offset c) div unat (r_chunkSize r) in
     i < length (r_received r) \<and> \<not> r_received r ! i \<and>
     unat (c_Offset c) > length (r_buf r) \<and> e = SliceOutOfRange)"
  using Reassembler_Write_eq [OF assms, of c] by (auto simp: Let_def)

theorem Reassembler_Write_panics_iff_witness:
  "\<exists>r. NewReassembler 10 4 = Inr r \<and>
     Reassembler_Write (stamp \<lparr>c_Seq = 2, c_Offset = 11, c_BurstID = 0, c_BurstBytes = 10,
        c_Checksum = 0, c_Data = [1]\<rparr>) r = Inl SliceOutOfRange"
proof -
  have n: "num_chunks 10 4 = 3"
    by (simp add: num_chunks_def)
  obtain r where r: "NewReassembler 10 4 = Inr r"
    by (simp add: NewReassembler_Inr_iff reassembler_chunk_size_def Let_def max_alloc_def)
  then have "r_received r = replicate 3 False" and "r_chunkSize r = 4" and "length (r_buf r) = 10"
    by (auto simp: NewReassembler_Inr_iff reassembler_chunk_size_def Let_def n)
  with Reassembler_Write_panics_iff [of r "stamp \<lparr>c_Seq = 2, c_Offset = 11, c_BurstID = 0,
      c_BurstBytes = 10, c_Checksum = 0, c_Data = [1]\<rparr>" SliceOutOfRange]
    NewReassembler_wf [OF r] r show ?thesis
    by auto
qed

text \<open>
  The constructor runs on sizes taken from the control header, and its outcome is
  determined by them: it divides by zero when no chunk size is given and the total is a
  multiple of \<open>2 ^ 32\<close>, it panics in the allocator when the total is beyond it, and
  otherwise it returns a well-formed, empty reassembler of the announced size.
\<close>

theorem NewReassembler_outcome:
  "NewReassembler totalSize chunkSize =
     (if chunkSize = 0 \<and> 2 ^ 32 dvd unat totalSize then Inl DivideByZero
      else if unat totalSize > max_alloc then Inl MakeSliceLen
      else Inr \<lparr>r_buf = replicate (unat totalSize) 0,
                r_received = replicate (num_chunks (unat totalSize)
                   (unat (reassembler_chunk_size totalSize chunkSize))) False,
                r_chunkSize = reassembler_chunk_size totalSize chunkSize,
                r_remaining = int (num_chunks (unat totalSize)
                   (unat (reassembler_chunk_size totalSize chunkSize))),
                r_receivedBytes = 0\<rparr>)"
proof -
  have "(ucast totalSize :: u32) = 0 \<longleftrightarrow> 2 ^ 32 dvd unat totalSize"
    by (simp add: word_unat_eq_iff unsigned_ucast_eq take_bit_eq_mod mod_eq_0_iff_dvd)
  then have zero: "reassembler_chunk_size totalSize chunkSize = 0
      \<longleftrightarrow> chunkSize = 0 \<and> 2 ^ 32 dvd unat totalSize"
    by (auto simp: reassembler_chunk_size_def)
  show ?thesis
  proof (cases "reassembler_chunk_size totalSize chunkSize = 0 \<or> unat totalSize > max_alloc")
    case True
    then show ?thesis
      unfolding NewReassembler_def reassembler_chunk_size_def [symmetric] Let_def
      by (auto simp: zero)
  next
    case False
    then show ?thesis
      using NewReassembler_Inr_iff [of totalSize chunkSize] zero by (auto simp: Let_def)
  qed
qed

end
