(* ===== verification/Mpq_Burst.thy ===== *)
theory Mpq_Burst
  imports Mpq_Chunk Mpq_Delivery
begin

text \<open>
  The burst tracker of \<^verbatim>\<open>internal/transfer/burst.go\<close>, which judges delivery in continuous
  sessions: counting the bytes of each burst once per sequence number, the breakdown per
  path, and the expiry of idle bursts.  Clock readings are arguments (nanoseconds), and so
  is the order in which Go enumerates a map.
\<close>

section \<open>State\<close>

record PathBurstStats =
  pb_BytesReceived :: u64
  pb_Chunks :: int
  pb_Corrupted :: int

text \<open>
  The Go map \<^verbatim>\<open>seen\<close> from sequence numbers to booleans reads false where it has no entry,
  so it is a function; the maps of bursts and of paths are partial.
\<close>

record burstState =
  b_bytesExpected :: u64
  b_bytesReceived :: u64
  b_seen :: "u64 \<Rightarrow> bool"
  b_chunks :: int
  b_corrupted :: int
  b_startedAt :: int
  b_lastActivity :: int
  b_perPath :: "int \<rightharpoonup> PathBurstStats"

record BurstTracker =
  bt_bursts :: "u64 \<rightharpoonup> burstState"
  bt_ttl :: int

definition NewBurstTracker :: "int \<Rightarrow> BurstTracker" where
  "NewBurstTracker ttl = \<lparr>bt_bursts = Map.empty, bt_ttl = ttl\<rparr>"

section \<open>Write\<close>

definition new_burst :: "Chunk \<Rightarrow> int \<Rightarrow> burstState" where
  "new_burst c now =
     \<lparr>b_bytesExpected = c_BurstBytes c, b_bytesReceived = 0, b_seen = (\<lambda>_. False),
      b_chunks = 0, b_corrupted = 0, b_startedAt = now, b_lastActivity = 0,
      b_perPath = Map.empty\<rparr>"

definition zero_path :: PathBurstStats where
  "zero_path = \<lparr>pb_BytesReceived = 0, pb_Chunks = 0, pb_Corrupted = 0\<rparr>"

text \<open>
  What \<^verbatim>\<open>Write\<close> does to the burst it found or created; the pointer \<^verbatim>\<open>p\<close> into \<^verbatim>\<open>perPath\<close> is
  the entry that is stored back.
\<close>

definition burst_add :: "Chunk \<Rightarrow> bool \<Rightarrow> int \<Rightarrow> int \<Rightarrow> burstState \<Rightarrow> burstState" where
  "burst_add c corrupted pathIndex now b0 =
     (let b1 = b0\<lparr>b_lastActivity := now, b_chunks := b_chunks b0 + 1\<rparr>;
          p0 = (case b_perPath b1 pathIndex of None \<Rightarrow> zero_path | Some p \<Rightarrow> p);
          p1 = p0\<lparr>pb_Chunks := pb_Chunks p0 + 1\<rparr>
      in if corrupted
         then b1\<lparr>b_corrupted := b_corrupted b1 + 1,
                 b_perPath := (b_perPath b1)(pathIndex \<mapsto> p1\<lparr>pb_Corrupted := pb_Corrupted p1 + 1\<rparr>)\<rparr>
         else if \<not> b_seen b1 (c_Seq c)
         then b1\<lparr>b_seen := (b_seen b1)(c_Seq c := True),
                 b_bytesReceived := b_bytesReceived b1 + len_u64 (c_Data c),
                 b_perPath := (b_perPath b1)(pathIndex \<mapsto>
                    p1\<lparr>pb_BytesReceived := pb_BytesReceived p1 + len_u64 (c_Data c)\<rparr>)\<rparr>
         else b1\<lparr>b_perPath := (b_perPath b1)(pathIndex \<mapsto> p1)\<rparr>)"

definition burst_complete :: "burstState \<Rightarrow> bool" where
  "burst_complete b = (b_bytesReceived b \<ge> b_bytesExpected b)"

definition BurstTracker_Write ::
  "Chunk \<Rightarrow> bool \<Rightarrow> int \<Rightarrow> int \<Rightarrow> int \<Rightarrow> BurstTracker \<Rightarrow> bool \<times> BurstTracker" where
  "BurstTracker_Write c corrupted pathIndex nowCreate nowActive t =
     (let b0 = (case bt_bursts t (c_BurstID c) of
                  None \<Rightarrow> new_burst c nowCreate
                | Some b \<Rightarrow> b);
          b = burst_add c corrupted pathIndex nowActive b0
      in (burst_complete b, t\<lparr>bt_bursts := (bt_bursts t)(c_BurstID c \<mapsto> b)\<rparr>))"

section \<open>Snapshots and expiry\<close>

record BurstStats =
  st_BurstID :: u64
  st_BytesExpected :: u64
  st_BytesReceived :: u64
  st_Chunks :: int
  st_Corrupted :: int
  st_Complete :: bool
  st_StartedAt :: int
  st_LastActivity :: int
  st_PerPath :: "int \<rightharpoonup> PathBurstStats"

definition burst_stats :: "burstState \<Rightarrow> u64 \<Rightarrow> BurstStats" where
  "burst_stats b bid =
     \<lparr>st_BurstID = bid, st_BytesExpected = b_bytesExpected b,
      st_BytesReceived = b_bytesReceived b, st_Chunks = b_chunks b,
      st_Corrupted = b_corrupted b, st_Complete = (b_bytesReceived b \<ge> b_bytesExpected b),
      st_StartedAt = b_startedAt b, st_LastActivity = b_lastActivity b,
      st_PerPath = b_perPath b\<rparr>"

definition BurstTracker_Stats :: "u64 \<Rightarrow> BurstTracker \<Rightarrow> BurstStats option" where
  "BurstTracker_Stats burstID t =
     (case bt_bursts t burstID of None \<Rightarrow> None | Some b \<Rightarrow> Some (burst_stats b burstID))"

definition enumerates :: "'k list \<Rightarrow> ('k \<rightharpoonup> 'v) \<Rightarrow> bool" where
  "enumerates order m \<longleftrightarrow> distinct order \<and> set order = dom m"

text \<open>The loops over the map of bursts; deleting the current key while ranging is allowed.\<close>

fun expire_loop ::
  "int \<Rightarrow> int \<Rightarrow> u64 list \<Rightarrow> BurstStats list \<Rightarrow> (u64 \<rightharpoonup> burstState) \<Rightarrow>
     BurstStats list \<times> (u64 \<rightharpoonup> burstState)" where
  "expire_loop now ttl [] expired m = (expired, m)"
| "expire_loop now ttl (bid # bids) expired m =
     (case m bid of
        None \<Rightarrow> expire_loop now ttl bids expired m
      | Some b \<Rightarrow>
          (if now - b_lastActivity b < ttl then expire_loop now ttl bids expired m
           else expire_loop now ttl bids (expired @ [burst_stats b bid]) (m(bid := None))))"

definition BurstTracker_Expire ::
  "int \<Rightarrow> u64 list \<Rightarrow> BurstTracker \<Rightarrow> BurstStats list \<times> BurstTracker" where
  "BurstTracker_Expire now order t =
     (let (expired, m) = expire_loop now (bt_ttl t) order [] (bt_bursts t)
      in (expired, t\<lparr>bt_bursts := m\<rparr>))"

fun collect_stats :: "u64 list \<Rightarrow> (u64 \<rightharpoonup> burstState) \<Rightarrow> BurstStats list" where
  "collect_stats [] m = []"
| "collect_stats (bid # bids) m =
     (case m bid of None \<Rightarrow> collect_stats bids m | Some b \<Rightarrow> burst_stats b bid # collect_stats bids m)"

definition BurstTracker_ExpireAll ::
  "u64 list \<Rightarrow> BurstTracker \<Rightarrow> BurstStats list \<times> BurstTracker" where
  "BurstTracker_ExpireAll order t =
     (collect_stats order (bt_bursts t), t\<lparr>bt_bursts := Map.empty\<rparr>)"

section \<open>Facts about single operations\<close>

lemma burst_add_simps [simp]:
  "b_bytesExpected (burst_add c cor i now b) = b_bytesExpected b"
  "b_chunks (burst_add c cor i now b) = b_chunks b + 1"
  "b_corrupted (burst_add c cor i now b) = b_corrupted b + (if cor then 1 else 0)"
  "b_startedAt (burst_add c cor i now b) = b_startedAt b"
  "b_lastActivity (burst_add c cor i now b) = now"
  "b_seen (burst_add c cor i now b)
     = (if cor then b_seen b else (b_seen b)(c_Seq c := True))"
  "b_bytesReceived (burst_add c cor i now b)
     = b_bytesReceived b + (if cor \<or> b_seen b (c_Seq c) then 0 else len_u64 (c_Data c))"
  by (auto simp: burst_add_def Let_def fun_eq_iff)

lemma burst_add_perPath:
  "b_perPath (burst_add c cor i now b) =
     (b_perPath b)(i \<mapsto>
        (let p = (case b_perPath b i of None \<Rightarrow> zero_path | Some p \<Rightarrow> p) in
         p\<lparr>pb_Chunks := pb_Chunks p + 1,
           pb_Corrupted := pb_Corrupted p + (if cor then 1 else 0),
           pb_BytesReceived := pb_BytesReceived p
             + (if cor \<or> b_seen b (c_Seq c) then 0 else len_u64 (c_Data c))\<rparr>))"
  by (auto simp: burst_add_def Let_def)

lemma new_burst_simps [simp]:
  "b_bytesExpected (new_burst c now) = c_BurstBytes c"
  "b_bytesReceived (new_burst c now) = 0" "b_seen (new_burst c now) s = False"
  "b_chunks (new_burst c now) = 0" "b_corrupted (new_burst c now) = 0"
  "b_perPath (new_burst c now) = Map.empty"
  by (simp_all add: new_burst_def)

lemma expire_loop_spec:
  "distinct order \<Longrightarrow>
     expire_loop now ttl order expired m =
       (expired @ collect_stats (filter (\<lambda>bid. \<exists>b. m bid = Some b \<and> ttl \<le> now - b_lastActivity b) order) m,
        (\<lambda>bid. if bid \<in> set order \<and> (\<exists>b. m bid = Some b \<and> ttl \<le> now - b_lastActivity b)
              then None else m bid))"
proof (induction order arbitrary: expired m)
  case Nil
  then show ?case by simp
next
  case (Cons bid bids)
  have frame: "collect_stats bids' (m(bid := None)) = collect_stats bids' m" if "bid \<notin> set bids'" for bids'
    using that by (induction bids') (auto split: option.splits)
  have other: "filter (\<lambda>i. \<exists>b. (m(bid := None)) i = Some b \<and> ttl \<le> now - b_lastActivity b) bids
      = filter (\<lambda>i. \<exists>b. m i = Some b \<and> ttl \<le> now - b_lastActivity b) bids"
    by (rule filter_cong) (use Cons.prems in auto)
  show ?case
  proof (cases "m bid")
    case None
    with Cons show ?thesis
      by (auto simp: fun_eq_iff)
  next
    case (Some b)
    show ?thesis
    proof (cases "now - b_lastActivity b < ttl")
      case True
      with Cons Some show ?thesis
        by (auto simp: fun_eq_iff)
    next
      case False
      with Cons Some other show ?thesis
        by (auto simp: fun_eq_iff frame)
    qed
  qed
qed

lemma collect_stats_ids:
  "set order \<subseteq> dom m \<Longrightarrow> map st_BurstID (collect_stats order m) = order"
  by (induction order) (auto simp: burst_stats_def)

lemma set_collect_stats:
  "set (collect_stats order m) = {burst_stats b bid | bid b. bid \<in> set order \<and> m bid = Some b}"
  by (induction order) (auto split: option.splits)

lemma burst_stats_simps [simp]:
  "st_BurstID (burst_stats b i) = i" "st_LastActivity (burst_stats b i) = b_lastActivity b"
  "st_Complete (burst_stats b i) = burst_complete b"
  by (simp_all add: burst_stats_def burst_complete_def)

lemma Stats_Some_iff:
  "BurstTracker_Stats i t = Some st \<longleftrightarrow> (\<exists>b. bt_bursts t i = Some b \<and> st = burst_stats b i)"
  by (auto simp: BurstTracker_Stats_def split: option.splits)

section \<open>Accounting\<close>

text \<open>
  A burst's totals are the sums of its per-path entries, and corrupted chunks are among the
  chunks.  Every operation keeps this for every burst of the tracker.
\<close>

definition path_total :: "(PathBurstStats \<Rightarrow> 'n::ab_group_add) \<Rightarrow> (int \<rightharpoonup> PathBurstStats) \<Rightarrow> 'n" where
  "path_total f m = sum (\<lambda>i. f (the (m i))) (dom m)"

definition burst_accounted :: "burstState \<Rightarrow> bool" where
  "burst_accounted b \<longleftrightarrow>
     finite (dom (b_perPath b)) \<and>
     b_chunks b = path_total pb_Chunks (b_perPath b) \<and>
     b_corrupted b = path_total pb_Corrupted (b_perPath b) \<and>
     b_bytesReceived b = path_total pb_BytesReceived (b_perPath b) \<and>
     0 \<le> b_corrupted b \<and> b_corrupted b \<le> b_chunks b"

lemma path_total_update:
  assumes "finite (dom m)" and "f zero_path = 0"
  shows "path_total f (m(i \<mapsto> p))
      = path_total f m - f (case m i of None \<Rightarrow> zero_path | Some q \<Rightarrow> q) + f p"
proof -
  have new: "path_total f (m(i \<mapsto> p)) = f p + sum (\<lambda>j. f (the (m j))) (dom m - {i})"
  proof -
    have "sum (\<lambda>j. f (the ((m(i \<mapsto> p)) j))) (dom m - {i}) = sum (\<lambda>j. f (the (m j))) (dom m - {i})"
      by (rule sum.cong) auto
    with assms(1) show ?thesis
      by (simp add: path_total_def sum.insert_remove)
  qed
  show ?thesis
  proof (cases "m i")
    case None
    then have "dom m - {i} = dom m"
      by auto
    with None assms(2) new show ?thesis
      by (simp add: path_total_def)
  next
    case (Some q)
    then have "path_total f m = f q + sum (\<lambda>j. f (the (m j))) (dom m - {i})"
      using assms(1) by (simp add: path_total_def sum.remove [of "dom m" i] domI)
    with Some new show ?thesis
      by (simp add: algebra_simps)
  qed
qed

lemma burst_accounted_new [inv_intros]: "burst_accounted (new_burst c now)"
  by (simp add: burst_accounted_def path_total_def)

lemma burst_accounted_add [inv_intros]:
  assumes "burst_accounted b"
  shows "burst_accounted (burst_add c cor i now b)"
proof -
  have fin: "finite (dom (b_perPath b))"
    using assms by (simp add: burst_accounted_def)
  have zero: "pb_Chunks zero_path = 0" "pb_Corrupted zero_path = 0" "pb_BytesReceived zero_path = 0"
    by (simp_all add: zero_path_def)
  show ?thesis
    using assms unfolding burst_accounted_def burst_add_perPath Let_def
    by (simp add: path_total_update [where f = pb_Chunks, OF fin zero(1)]
        path_total_update [where f = pb_Corrupted, OF fin zero(2)]
        path_total_update [where f = pb_BytesReceived, OF fin zero(3)])
qed

inductive tracker_reachable :: "int \<Rightarrow> BurstTracker \<Rightarrow> bool" for ttl where
  tr_new: "tracker_reachable ttl (NewBurstTracker ttl)"
| tr_write: "tracker_reachable ttl t \<Longrightarrow>
     tracker_reachable ttl (snd (BurstTracker_Write c cor i n0 n1 t))"
| tr_expire: "tracker_reachable ttl t \<Longrightarrow> enumerates order (bt_bursts t) \<Longrightarrow>
     tracker_reachable ttl (snd (BurstTracker_Expire now order t))"
| tr_expire_all: "tracker_reachable ttl t \<Longrightarrow> enumerates order (bt_bursts t) \<Longrightarrow>
     tracker_reachable ttl (snd (BurstTracker_ExpireAll order t))"

lemma Expire_eq:
  assumes "enumerates order (bt_bursts t)"
  shows "BurstTracker_Expire now order t =
     (collect_stats (filter (\<lambda>i. bt_ttl t \<le> now - b_lastActivity (the (bt_bursts t i))) order) (bt_bursts t),
      t\<lparr>bt_bursts := (\<lambda>i. case bt_bursts t i of None \<Rightarrow> None
         | Some b \<Rightarrow> if bt_ttl t \<le> now - b_lastActivity b then None else Some b)\<rparr>)"
proof -
  have d: "distinct order" and dom: "set order = dom (bt_bursts t)"
    using assms by (auto simp: enumerates_def)
  have "filter (\<lambda>i. \<exists>b. bt_bursts t i = Some b \<and> bt_ttl t \<le> now - b_lastActivity b) order
      = filter (\<lambda>i. bt_ttl t \<le> now - b_lastActivity (the (bt_bursts t i))) order"
    by (rule filter_cong) (use dom in auto)
  moreover have "(\<lambda>i. if i \<in> set order \<and> (\<exists>b. bt_bursts t i = Some b \<and> bt_ttl t \<le> now - b_lastActivity b)
       then None else bt_bursts t i)
     = (\<lambda>i. case bt_bursts t i of None \<Rightarrow> None
         | Some b \<Rightarrow> if bt_ttl t \<le> now - b_lastActivity b then None else Some b)"
    using dom by (auto simp: fun_eq_iff split: option.splits)
  ultimately show ?thesis
    by (simp add: BurstTracker_Expire_def expire_loop_spec [OF d])
qed

lemma set_Expire:
  assumes "enumerates order (bt_bursts t)"
  shows "set (fst (BurstTracker_Expire now order t)) =
     {burst_stats b i | i b. bt_bursts t i = Some b \<and> bt_ttl t \<le> now - b_lastActivity b}"
proof -
  have dom: "i \<in> set order" if "bt_bursts t i = Some b" for i b
    using assms that by (auto simp: enumerates_def)
  then have "bid \<in> {i \<in> set order. bt_ttl t \<le> now - b_lastActivity (the (bt_bursts t i))}
        \<and> bt_bursts t bid = Some b
      \<longleftrightarrow> bt_bursts t bid = Some b \<and> bt_ttl t \<le> now - b_lastActivity b" for bid b
    by auto
  then show ?thesis
    unfolding Expire_eq [OF assms] fst_conv set_collect_stats set_filter by simp
qed

lemma tracker_reachable_accounted:
  "tracker_reachable ttl t \<Longrightarrow> bt_bursts t i = Some b \<Longrightarrow> burst_accounted b"
proof (induction arbitrary: i b rule: tracker_reachable.induct)
  case tr_new
  then show ?case by (simp add: NewBurstTracker_def)
next
  case (tr_write t c cor p n0 n1)
  show ?case
  proof (cases "i = c_BurstID c")
    case True
    with tr_write.prems tr_write.IH show ?thesis
      by (auto simp: BurstTracker_Write_def Let_def intro!: inv_intros split: option.splits)
  next
    case False
    with tr_write.prems tr_write.IH show ?thesis
      by (simp add: BurstTracker_Write_def Let_def)
  qed
next
  case (tr_expire t order now)
  then show ?case
    by (auto simp: Expire_eq split: option.splits if_splits)
next
  case (tr_expire_all t order)
  then show ?case
    by (simp add: BurstTracker_ExpireAll_def)
qed

section \<open>Once-only counting\<close>

text \<open>
  Good chunks of one burst in the sense of the delivery contract: the weight of a sequence
  number is the length of the data sent under it.
\<close>

definition seen_set :: "burstState \<Rightarrow> u64 set" where
  "seen_set b = {s. b_seen b s}"

definition burst_counts :: "(u64 \<Rightarrow> nat) \<Rightarrow> burstState \<Rightarrow> bool" where
  "burst_counts w b \<longleftrightarrow>
     finite (seen_set b) \<and> b_bytesReceived b = of_nat (sum w (seen_set b))"

definition good_add :: "Chunk \<times> int \<times> int \<Rightarrow> burstState \<Rightarrow> burstState" where
  "good_add e b = burst_add (fst e) False (fst (snd e)) (snd (snd e)) b"

interpretation burst_delivery: delivery good_add "\<lambda>e. c_Seq (fst e)" w seen_set
    "\<lambda>b. sum w (seen_set b)" "burst_counts w" "\<lambda>e. length (c_Data (fst e)) = w (c_Seq (fst e))"
  for w :: "u64 \<Rightarrow> nat"
proof unfold_locales
  fix b :: burstState and e :: "Chunk \<times> int \<times> int"
  assume v: "burst_counts w b" and a: "length (c_Data (fst e)) = w (c_Seq (fst e))"
  have seen: "seen_set (good_add e b) = insert (c_Seq (fst e)) (seen_set b)"
    by (auto simp: seen_set_def good_add_def)
  show "seen_set (good_add e b) = insert (c_Seq (fst e)) (seen_set b)"
    by (rule seen)
  have fin: "finite (seen_set b)"
    using v by (simp add: burst_counts_def)
  show sum': "sum w (seen_set (good_add e b))
      = sum w (seen_set b) + (if c_Seq (fst e) \<in> seen_set b then 0 else w (c_Seq (fst e)))"
    using fin by (simp add: seen insert_absorb)
  have mem: "c_Seq (fst e) \<in> seen_set b \<longleftrightarrow> b_seen b (c_Seq (fst e))"
    by (simp add: seen_set_def)
  have "b_bytesReceived (good_add e b) = of_nat (sum w (seen_set b))
      + of_nat (if c_Seq (fst e) \<in> seen_set b then 0 else w (c_Seq (fst e)))"
    using v a mem by (simp add: good_add_def burst_counts_def len_u64_def)
  then show "burst_counts w (good_add e b)"
    unfolding burst_counts_def sum' of_nat_add using fin seen by simp
qed


section \<open>Runs of the tracker\<close>

text \<open>
  One arrival: the chunk, whether its checksum failed, the path it came on, and the two
  clock readings \<^verbatim>\<open>Write\<close> may take.  The path goroutines serialise on the tracker's mutex,
  so any interleaving of theirs is a list of arrivals.
\<close>

type_synonym arrival = "Chunk \<times> bool \<times> int \<times> int \<times> int"

abbreviation arr_chunk :: "arrival \<Rightarrow> Chunk" where "arr_chunk e \<equiv> fst e"
abbreviation arr_corrupted :: "arrival \<Rightarrow> bool" where "arr_corrupted e \<equiv> fst (snd e)"
abbreviation arr_path :: "arrival \<Rightarrow> int" where "arr_path e \<equiv> fst (snd (snd e))"
abbreviation arr_create :: "arrival \<Rightarrow> int" where "arr_create e \<equiv> fst (snd (snd (snd e)))"
abbreviation arr_time :: "arrival \<Rightarrow> int" where "arr_time e \<equiv> snd (snd (snd (snd e)))"

definition arrive :: "arrival \<Rightarrow> BurstTracker \<Rightarrow> BurstTracker" where
  "arrive e t =
     snd (BurstTracker_Write (arr_chunk e) (arr_corrupted e) (arr_path e) (arr_create e) (arr_time e) t)"

definition burst_arrive :: "arrival \<Rightarrow> burstState \<Rightarrow> burstState" where
  "burst_arrive e b = burst_add (arr_chunk e) (arr_corrupted e) (arr_path e) (arr_time e) b"

definition of_burst :: "u64 \<Rightarrow> arrival list \<Rightarrow> arrival list" where
  "of_burst bid es = filter (\<lambda>e. c_BurstID (arr_chunk e) = bid) es"

lemma of_burst_simps [simp]:
  "of_burst bid [] = []"
  "of_burst bid (e # es) = (if c_BurstID (arr_chunk e) = bid then e # of_burst bid es else of_burst bid es)"
  by (simp_all add: of_burst_def)

lemma arrive_bursts:
  "bt_bursts (arrive e t) bid =
     (if c_BurstID (arr_chunk e) = bid
      then Some (burst_arrive e (case bt_bursts t bid of None \<Rightarrow> new_burst (arr_chunk e) (arr_create e) | Some b \<Rightarrow> b))
      else bt_bursts t bid)"
  by (auto simp: arrive_def BurstTracker_Write_def burst_arrive_def Let_def)

lemma arrivals_known:
  "bt_bursts t bid = Some b \<Longrightarrow>
     bt_bursts (fold arrive es t) bid = Some (fold burst_arrive (of_burst bid es) b)"
  by (induction es arbitrary: t b) (auto simp: arrive_bursts)

lemma arrivals_new:
  "bt_bursts t bid = None \<Longrightarrow>
     bt_bursts (fold arrive es t) bid =
       (case of_burst bid es of
          [] \<Rightarrow> None
        | e # rest \<Rightarrow> Some (fold burst_arrive (e # rest) (new_burst (arr_chunk e) (arr_create e))))"
  by (induction es arbitrary: t) (auto simp: arrive_bursts arrivals_known)

lemma burst_arrivals_counts [simp]:
  "b_bytesExpected (fold burst_arrive es b) = b_bytesExpected b"
  "b_chunks (fold burst_arrive es b) = b_chunks b + int (length es)"
  "b_corrupted (fold burst_arrive es b) = b_corrupted b + int (length (filter arr_corrupted es))"
  by (induction es arbitrary: b) (simp_all add: burst_arrive_def)

definition good_of :: "arrival list \<Rightarrow> (Chunk \<times> int \<times> int) list" where
  "good_of es = map (\<lambda>e. (arr_chunk e, arr_path e, arr_time e)) (filter (\<lambda>e. \<not> arr_corrupted e) es)"

text \<open>Corrupted arrivals leave what is counted alone.\<close>

lemma burst_arrivals_good:
  assumes "b_seen b = b_seen b'" and "b_bytesReceived b = b_bytesReceived b'"
  shows "b_seen (fold burst_arrive es b) = b_seen (fold good_add (good_of es) b')
    \<and> b_bytesReceived (fold burst_arrive es b) = b_bytesReceived (fold good_add (good_of es) b')"
  using assms
proof (induction es arbitrary: b b')
  case Nil
  then show ?case by (simp add: good_of_def)
next
  case (Cons e es)
  show ?case
  proof (cases "arr_corrupted e")
    case True
    with Cons.prems Cons.IH [of "burst_arrive e b" b'] show ?thesis
      by (simp add: good_of_def burst_arrive_def)
  next
    case False
    with Cons.prems Cons.IH [of "burst_arrive e b" "good_add (arr_chunk e, arr_path e, arr_time e) b'"]
    show ?thesis
      by (simp add: good_of_def burst_arrive_def good_add_def)
  qed
qed

lemma burst_arrivals_bytes:
  assumes len: "\<And>e. e \<in> set es \<Longrightarrow> \<not> arr_corrupted e \<Longrightarrow>
      length (c_Data (arr_chunk e)) = w (c_Seq (arr_chunk e))"
  shows "b_bytesReceived (fold burst_arrive es (new_burst c now))
    = of_nat (sum w ((\<lambda>e. c_Seq (arr_chunk e)) ` {e \<in> set es. \<not> arr_corrupted e}))"
proof -
  let ?b = "new_burst c now" and ?g = "good_of es"
  have acc: "list_all (\<lambda>e. length (c_Data (fst e)) = w (c_Seq (fst e))) ?g"
    using len by (auto simp: good_of_def list_all_iff)
  have start: "burst_counts w ?b" "seen_set ?b = {}"
    by (simp_all add: burst_counts_def seen_set_def)
  have keys: "(\<lambda>e. c_Seq (fst e)) ` set ?g = (\<lambda>e. c_Seq (arr_chunk e)) ` {e \<in> set es. \<not> arr_corrupted e}"
    by (force simp: good_of_def)
  have "b_bytesReceived (fold good_add ?g ?b) = of_nat (sum w (seen_set (fold good_add ?g ?b)))"
    using burst_delivery.valid_fold [OF start(1) acc] by (simp add: burst_counts_def)
  also have "seen_set (fold good_add ?g ?b) = (\<lambda>e. c_Seq (fst e)) ` set ?g"
    using burst_delivery.seen_fold [OF start(1) acc] start(2) by simp
  finally show ?thesis
    using burst_arrivals_good [of ?b ?b es] by (simp add: keys)
qed


lemma full_sum_subset:
  fixes f :: "nat \<Rightarrow> nat"
  assumes "finite B" and "A \<subseteq> B" and "sum f B \<le> sum f A" and "\<And>x. x \<in> B \<Longrightarrow> 0 < f x"
  shows "A = B"
proof (rule ccontr)
  assume "A \<noteq> B"
  with assms(2) obtain x where x: "x \<in> B" "x \<notin> A"
    by blast
  have "sum f A < sum f B"
    by (rule sum_strict_mono2 [OF assms(1,2), of x]) (use x assms(4) in auto)
  with assms(3) show False by simp
qed

text \<open>
  Arrivals that are chunks of one payload, corrupted ones aside: the bytes counted are
  those of the chunks that came intact, which is the whole payload exactly when all came.
\<close>

definition intact :: "arrival list \<Rightarrow> arrival set" where
  "intact es = {e \<in> set es. \<not> arr_corrupted e}"

definition intact_indices :: "arrival list \<Rightarrow> nat set" where
  "intact_indices es = (\<lambda>e. unat (c_Seq (arr_chunk e))) ` intact es"

definition payload_arrivals :: "byte list \<Rightarrow> nat \<Rightarrow> u64 \<Rightarrow> u64 \<Rightarrow> arrival list \<Rightarrow> bool" where
  "payload_arrivals data sz bid bb es \<longleftrightarrow>
     0 < sz \<and> length data < 2 ^ 64 \<and>
     (\<forall>e\<in>intact es. \<exists>i<num_chunks (length data) sz. arr_chunk e = stamp (nth_chunk data sz bid bb i))"

lemma nth_chunk_seq:
  assumes "0 < sz" and "length data < 2 ^ 64" and "i < num_chunks (length data) sz"
  shows "unat (c_Seq (stamp (nth_chunk data sz bid bb i))) = i"
  using assms num_chunks_le [OF assms(1), of "length data"] by (simp add: nth_chunk_def unat_of_nat)

lemma intact_indices_bound:
  assumes "payload_arrivals data sz bid bb es"
  shows "intact_indices es \<subseteq> {..<num_chunks (length data) sz}"
  using assms nth_chunk_seq [of sz data _ bid bb] by (force simp: payload_arrivals_def intact_indices_def)

lemma intact_bytes:
  assumes "payload_arrivals data sz bid bb es"
  shows "b_bytesReceived (fold burst_arrive es (new_burst c now))
    = of_nat (sum (slice_len data sz) (intact_indices es))"
proof -
  let ?w = "\<lambda>s. slice_len data sz (unat s)" and ?S = "(\<lambda>e. c_Seq (arr_chunk e)) ` intact es"
  have "length (c_Data (arr_chunk e)) = ?w (c_Seq (arr_chunk e))" if "e \<in> intact es" for e
    using assms that nth_chunk_seq [of sz data _ bid bb]
    by (auto simp: payload_arrivals_def nth_chunk_def slice_len_def)
  then have "b_bytesReceived (fold burst_arrive es (new_burst c now)) = of_nat (sum ?w ?S)"
    using burst_arrivals_bytes [of es ?w] by (simp add: intact_def)
  also have "sum ?w ?S = sum (slice_len data sz) (unat ` ?S)"
    by (rule sum.reindex [of unat ?S, unfolded o_def, symmetric])
      (simp add: inj_on_def flip: word_unat_eq_iff)
  also have "unat ` ?S = intact_indices es"
    by (simp only: intact_indices_def image_image)
  finally show ?thesis .
qed

lemma intact_indices_full:
  assumes "payload_arrivals data sz bid bb es"
  shows "intact_indices es = {..<num_chunks (length data) sz}
    \<longleftrightarrow> (\<lambda>i. stamp (nth_chunk data sz bid bb i)) ` {..<num_chunks (length data) sz} \<subseteq> arr_chunk ` intact es"
    (is "?I = {..<?n} \<longleftrightarrow> ?c ` {..<?n} \<subseteq> _")
proof
  have seq: "unat (c_Seq (?c i)) = i" if "i < ?n" for i
    using assms that by (intro nth_chunk_seq) (auto simp: payload_arrivals_def)
  assume eq: "?I = {..<?n}"
  have "?c i \<in> arr_chunk ` intact es" if i: "i < ?n" for i
  proof -
    have "i \<in> ?I"
      unfolding eq using i by simp
    then obtain e where e: "e \<in> intact es" and i_eq: "i = unat (c_Seq (arr_chunk e))"
      by (auto simp: intact_indices_def)
    then obtain j where j: "j < ?n" "arr_chunk e = ?c j"
      using assms by (auto simp: payload_arrivals_def)
    with seq [OF j(1)] i_eq have "arr_chunk e = ?c i" by simp
    with e show ?thesis by (rule image_eqI [OF sym, rotated])
  qed
  then show "?c ` {..<?n} \<subseteq> arr_chunk ` intact es"
    by blast
next
  have seq: "unat (c_Seq (?c i)) = i" if "i < ?n" for i
    using assms that by (intro nth_chunk_seq) (auto simp: payload_arrivals_def)
  assume "?c ` {..<?n} \<subseteq> arr_chunk ` intact es"
  then have "i \<in> ?I" if "i < ?n" for i
    using that seq [OF that] unfolding intact_indices_def by (force simp: image_iff)
  with intact_indices_bound [OF assms] show "?I = {..<?n}" by blast
qed

lemma intact_complete:
  assumes "payload_arrivals data sz bid bb es"
  shows "len_u64 data \<le> b_bytesReceived (fold burst_arrive es (new_burst c now))
      \<longleftrightarrow> intact_indices es = {..<num_chunks (length data) sz}"
    and "intact_indices es = {..<num_chunks (length data) sz} \<Longrightarrow>
      b_bytesReceived (fold burst_arrive es (new_burst c now)) = len_u64 data"
proof -
  let ?n = "num_chunks (length data) sz" and ?f = "slice_len data sz" and ?I = "intact_indices es"
  note bytes = intact_bytes [OF assms, of c now] and bound = intact_indices_bound [OF assms]
  have pos: "0 < sz" and len: "length data < 2 ^ 64"
    using assms by (auto simp: payload_arrivals_def)
  have tot: "sum ?f {..<?n} = length data"
    by (rule sum_slice_len [OF pos])
  have part: "sum ?f ?I \<le> length data"
    using sum_mono2 [OF _ bound, of ?f] tot by simp
  then have "unat (b_bytesReceived (fold burst_arrive es (new_burst c now))) = sum ?f ?I"
    unfolding bytes using len by (simp add: unat_of_nat del: of_nat_sum)
  moreover have "length data \<le> sum ?f ?I \<longleftrightarrow> ?I = {..<?n}"
    using full_sum_subset [OF _ bound, of ?f] slice_len_pos [OF pos] tot by auto
  ultimately show "len_u64 data \<le> b_bytesReceived (fold burst_arrive es (new_burst c now)) \<longleftrightarrow> ?I = {..<?n}"
    by (simp add: word_le_nat_alt unat_len_u64 [OF len])
  show "?I = {..<?n} \<Longrightarrow> b_bytesReceived (fold burst_arrive es (new_burst c now)) = len_u64 data"
    using bytes tot by (simp add: len_u64_def del: of_nat_sum)
qed

section \<open>Properties\<close>

text \<open>
  C15: a burst is judged complete exactly when all of it arrived.  Let a burst's payload be
  split, and let its chunks arrive on any paths, at any times, in any order, with any
  repetitions, some copies corrupted, and interleaved with arrivals of any other bursts.
  Once anything of the burst arrived the tracker reports it, complete exactly when every
  chunk of it has arrived uncorrupted; a complete burst has received exactly the payload's
  length; every arrival of the burst and every corrupted one is counted.
\<close>

theorem BurstTracker_complete_iff:
  assumes "Split data chunkSize bid (len_u64 data) = Some chunks"
    and "0 < length data" and "length data < 2 ^ 64"
    and "\<forall>e\<in>set (of_burst bid es).
           if arr_corrupted e then c_BurstBytes (arr_chunk e) = len_u64 data
           else arr_chunk e \<in> stamp ` set chunks"
    and "of_burst bid es \<noteq> []"
  shows "\<exists>st. BurstTracker_Stats bid (fold arrive es (NewBurstTracker ttl)) = Some st \<and>
           (st_Complete st \<longleftrightarrow>
              stamp ` set chunks \<subseteq> arr_chunk ` {e \<in> set (of_burst bid es). \<not> arr_corrupted e}) \<and>
           (st_Complete st \<longrightarrow> st_BytesReceived st = len_u64 data) \<and>
           st_BytesExpected st = len_u64 data \<and>
           st_Chunks st = int (length (of_burst bid es)) \<and>
           st_Corrupted st = int (length (filter arr_corrupted (of_burst bid es)))"
proof -
  let ?es = "of_burst bid es" and ?sz = "unat (effective_chunk_size data chunkSize)"
  let ?n = "num_chunks (length data) ?sz" and ?c = "\<lambda>i. stamp (nth_chunk data ?sz bid (len_u64 data) i)"
  have "Split data chunkSize bid (len_u64 data) \<noteq> None" and "data \<noteq> []"
    using assms(1,2) by auto
  then have csz: "effective_chunk_size data chunkSize \<noteq> 0"
    unfolding Split_None_iff by blast
  then have pos: "0 < ?sz" and chunks: "chunks = split_list data ?sz bid (len_u64 data)"
    using assms(1) by (simp_all add: Split_eq_split_list unat_gt_0)
  have all: "stamp ` set chunks = ?c ` {..<?n}"
    by (simp add: chunks split_list_def image_image atLeast0LessThan)
  have pay: "payload_arrivals data ?sz bid (len_u64 data) ?es"
    using pos assms(3,4) unfolding payload_arrivals_def intact_def all by fastforce
  obtain e0 rest where es: "?es = e0 # rest"
    using assms(5) by (cases ?es) auto
  have exp: "c_BurstBytes (arr_chunk e0) = len_u64 data"
    using assms(4) es unfolding all by (auto simp: nth_chunk_def split: if_splits)
  let ?b = "fold burst_arrive ?es (new_burst (arr_chunk e0) (arr_create e0))"
  have look: "bt_bursts (fold arrive es (NewBurstTracker ttl)) bid = Some ?b"
    using arrivals_new [of "NewBurstTracker ttl" bid es] es by (simp add: NewBurstTracker_def)
  have "{e \<in> set ?es. \<not> arr_corrupted e} = intact ?es"
    by (simp add: intact_def)
  with intact_complete [OF pay, of "arr_chunk e0" "arr_create e0"] intact_indices_full [OF pay]
  show ?thesis
    by (simp add: BurstTracker_Stats_def look burst_stats_def burst_complete_def exp all)
qed

theorem BurstTracker_complete_iff_witness:
  "\<exists>chunks es st. Split [1, 2, 3] 2 7 3 = Some chunks \<and> length es = 3 \<and>
     BurstTracker_Stats 7 (fold arrive es (NewBurstTracker 5000000000)) = Some st \<and>
     st_Complete st \<and> st_Corrupted st = 1"
proof -
  let ?D = "[1, 2, 3] :: byte list"
  let ?cs = "split_list ?D 2 7 3"
  have split: "Split ?D 2 7 3 = Some ?cs"
    by (simp add: Split_eq_split_list effective_chunk_size_def)
  have cs: "?cs = [nth_chunk ?D 2 7 3 0, nth_chunk ?D 2 7 3 1]"
    by (simp add: split_list_def num_chunks_def upt_conv_Cons)
  let ?c = "\<lambda>i. stamp (nth_chunk ?D 2 7 3 i)"
  let ?es = "[(?c 1, False, 1, 10, 11), (?c 0, True, 0, 12, 13), (?c 0, False, 1, 14, 15)] :: arrival list"
  have b: "of_burst 7 ?es = ?es"
    by (simp add: nth_chunk_def)
  have ok: "\<forall>e\<in>set (of_burst 7 ?es).
      if arr_corrupted e then c_BurstBytes (arr_chunk e) = len_u64 ?D else arr_chunk e \<in> stamp ` set ?cs"
    unfolding b cs by (simp add: nth_chunk_def len_u64_def)
  have sp: "Split ?D 2 7 (len_u64 ?D) = Some ?cs"
    using split by (simp add: len_u64_def)
  have "of_burst 7 ?es \<noteq> []"
    unfolding b by simp
  from BurstTracker_complete_iff [OF sp _ _ ok this, of 5000000000]
  obtain st where st: "BurstTracker_Stats 7 (fold arrive ?es (NewBurstTracker 5000000000)) = Some st"
    and "st_Complete st \<longleftrightarrow> stamp ` set ?cs \<subseteq> arr_chunk ` {e \<in> set ?es. \<not> arr_corrupted e}"
    and "st_Corrupted st = int (length (filter arr_corrupted ?es))"
    unfolding b by auto
  moreover have "?c i \<in> arr_chunk ` {e \<in> set ?es. \<not> arr_corrupted e}" if "i = 0 \<or> i = 1" for i
    using that
    by (auto intro!: image_eqI [of _ _ "(?c i, False, 1, if i = 0 then 14 else 10, if i = 0 then 15 else 11)"])
  then have "stamp ` set ?cs \<subseteq> arr_chunk ` {e \<in> set ?es. \<not> arr_corrupted e}"
    unfolding cs by (simp only: list.set image_insert image_empty insert_subset empty_subsetI simp_thms)
  ultimately have "st_Complete st" "st_Corrupted st = 1"
    by simp_all
  with st split show ?thesis
    by (intro exI [of _ ?cs] exI [of _ ?es] exI [of _ st] conjI) simp_all
qed

text \<open>
  The tracker's accounts balance.  In every tracker that any sequence of writes and
  expiries can produce, the totals reported for a burst are the sums of what is reported
  for its paths, and corrupted chunks are among the chunks.
\<close>

theorem BurstTracker_accounts_balance:
  assumes "tracker_reachable ttl t" and "BurstTracker_Stats bid t = Some st"
  shows "st_Chunks st = path_total pb_Chunks (st_PerPath st)
    \<and> st_Corrupted st = path_total pb_Corrupted (st_PerPath st)
    \<and> st_BytesReceived st = path_total pb_BytesReceived (st_PerPath st)
    \<and> 0 \<le> st_Corrupted st \<and> st_Corrupted st \<le> st_Chunks st"
proof -
  obtain b where b: "bt_bursts t bid = Some b" and st: "st = burst_stats b bid"
    using assms(2) by (auto simp: BurstTracker_Stats_def split: option.splits)
  from tracker_reachable_accounted [OF assms(1) b] show ?thesis
    by (simp add: st burst_stats_def burst_accounted_def)
qed

theorem BurstTracker_accounts_balance_witness:
  "\<exists>st. BurstTracker_Stats 0
      (snd (BurstTracker_Write \<lparr>c_Seq = 0, c_Offset = 0, c_BurstID = 0, c_BurstBytes = 2,
         c_Checksum = 0, c_Data = [5, 6]\<rparr> False 1 0 0 (NewBurstTracker 5))) = Some st
     \<and> st_BytesReceived st = path_total pb_BytesReceived (st_PerPath st)"
  (is "\<exists>st. BurstTracker_Stats 0 ?t = Some st \<and> _")
proof -
  have "BurstTracker_Stats 0 ?t \<noteq> None"
    by (simp add: BurstTracker_Write_def BurstTracker_Stats_def Let_def)
  then obtain st where st: "BurstTracker_Stats 0 ?t = Some st"
    by blast
  from BurstTracker_accounts_balance [OF tr_write [OF tr_new] st] st show ?thesis
    by blast
qed

text \<open>
  A sweep splits the bursts.  Whatever order the map is enumerated in, the sweep reports
  each burst that has been idle for at least the time to live, once and as it stood, forgets
  exactly those, and leaves every other burst as it was.
\<close>

theorem BurstTracker_Expire_splits:
  assumes "enumerates order (bt_bursts t)"
    and "BurstTracker_Expire now order t = (reports, t')"
  shows "distinct (map st_BurstID reports)
    \<and> set reports = {st. BurstTracker_Stats (st_BurstID st) t = Some st
                        \<and> bt_ttl t \<le> now - st_LastActivity st}
    \<and> (\<forall>bid. BurstTracker_Stats bid t' =
         (case BurstTracker_Stats bid t of
            None \<Rightarrow> None
          | Some st \<Rightarrow> if bt_ttl t \<le> now - st_LastActivity st then None else Some st))"
proof (intro conjI allI)
  let ?idle = "filter (\<lambda>i. bt_ttl t \<le> now - b_lastActivity (the (bt_bursts t i))) order"
  have d: "distinct order" and dom: "set order = dom (bt_bursts t)"
    using assms(1) by (auto simp: enumerates_def)
  have reports: "reports = collect_stats ?idle (bt_bursts t)"
    using assms by (simp add: Expire_eq)
  have t': "bt_bursts t' = (\<lambda>i. case bt_bursts t i of None \<Rightarrow> None
         | Some b \<Rightarrow> if bt_ttl t \<le> now - b_lastActivity b then None else Some b)"
    using assms by (auto simp: Expire_eq)
  have "set ?idle \<subseteq> dom (bt_bursts t)"
    using dom by auto
  then show "distinct (map st_BurstID reports)"
    unfolding reports using d by (simp add: collect_stats_ids)
  show "set reports = {st. BurstTracker_Stats (st_BurstID st) t = Some st
      \<and> bt_ttl t \<le> now - st_LastActivity st}"
    using set_Expire [OF assms(1), of now] assms(2) unfolding Stats_Some_iff
    by (auto, metis burst_stats_simps(2))
  show "BurstTracker_Stats bid t' =
      (case BurstTracker_Stats bid t of None \<Rightarrow> None
       | Some st \<Rightarrow> if bt_ttl t \<le> now - st_LastActivity st then None else Some st)" for bid
    by (auto simp: BurstTracker_Stats_def t' burst_stats_def split: option.splits)
qed


theorem BurstTracker_Expire_splits_witness:
  "\<exists>t reports t'. enumerates [4] (bt_bursts t) \<and> BurstTracker_Expire 20 [4] t = (reports, t')
     \<and> BurstTracker_Stats 4 t \<noteq> None \<and> BurstTracker_Stats 4 t' = None"
proof -
  let ?c = "\<lparr>c_Seq = 0, c_Offset = 0, c_BurstID = 4, c_BurstBytes = 2, c_Checksum = 0, c_Data = [5]\<rparr>"
  let ?t = "arrive (?c, False, 0, 3, 3) (NewBurstTracker 5)"
  have known: "bt_bursts ?t = [4 \<mapsto> burst_arrive (?c, False, 0, 3, 3) (new_burst ?c 3)]"
    by (auto simp: fun_eq_iff arrive_bursts NewBurstTracker_def)
  have enum: "enumerates [4] (bt_bursts ?t)"
    by (simp add: known enumerates_def)
  obtain reports t' where run: "BurstTracker_Expire 20 [4] ?t = (reports, t')"
    by fastforce
  from BurstTracker_Expire_splits [OF enum run]
  have "BurstTracker_Stats 4 t' = (case BurstTracker_Stats 4 ?t of None \<Rightarrow> None
      | Some st \<Rightarrow> if bt_ttl ?t \<le> 20 - st_LastActivity st then None else Some st)"
    by blast
  moreover have "bt_ttl ?t = 5"
    by (simp add: arrive_def BurstTracker_Write_def Let_def NewBurstTracker_def)
  ultimately have "BurstTracker_Stats 4 t' = None" "BurstTracker_Stats 4 ?t \<noteq> None"
    by (simp_all add: BurstTracker_Stats_def known burst_stats_def burst_arrive_def)
  with enum run show ?thesis
    by blast
qed

text \<open>
  C33: a burst can be reported more than once.  When a sweep has reported and forgotten a
  burst and one more copy of one of its chunks arrives, smaller than the whole burst, the
  burst is created anew: the next flush reports the same burst again, now incomplete, even
  if the first report said it was complete.
\<close>

theorem late_chunk_reported_again:
  assumes "enumerates order (bt_bursts t)"
    and "BurstTracker_Expire now order t = (reports, t')"
    and "BurstTracker_Stats bid t = Some st" and "bt_ttl t \<le> now - st_LastActivity st"
    and "c_BurstID c = bid" and "len_u64 (c_Data c) < c_BurstBytes c"
    and "enumerates order' (bt_bursts (arrive (c, False, i, n0, n1) t'))"
  shows "st \<in> set reports
    \<and> (\<exists>st'\<in>set (fst (BurstTracker_ExpireAll order' (arrive (c, False, i, n0, n1) t'))).
          st_BurstID st' = st_BurstID st \<and> \<not> st_Complete st')"
proof -
  obtain b where b: "bt_bursts t bid = Some b" and st: "st = burst_stats b bid"
    using assms(3) by (auto simp: BurstTracker_Stats_def split: option.splits)
  have idle: "bt_ttl t \<le> now - b_lastActivity b"
    using assms(4) by (simp add: st burst_stats_def)
  have gone: "bt_bursts t' bid = None"
    using assms(2) b idle by (auto simp: Expire_eq [OF assms(1)])
  have first: "st \<in> set reports"
    using set_Expire [OF assms(1), of now] assms(2) b idle by (auto simp: st)
  let ?t = "arrive (c, False, i, n0, n1) t'" and ?b = "burst_arrive (c, False, i, n0, n1) (new_burst c n0)"
  have again: "bt_bursts ?t bid = Some ?b"
    using assms(5) gone by (simp add: arrive_bursts)
  then have "bid \<in> set order'"
    using assms(7) by (auto simp: enumerates_def)
  with again have "burst_stats ?b bid \<in> set (fst (BurstTracker_ExpireAll order' ?t))"
    by (auto simp: BurstTracker_ExpireAll_def set_collect_stats)
  moreover have "\<not> st_Complete (burst_stats ?b bid)"
    using assms(6) by (simp add: burst_complete_def burst_arrive_def)
  ultimately show ?thesis
    using first by (auto simp: st intro!: bexI [of _ "burst_stats ?b bid"])
qed

theorem late_chunk_reported_again_witness:
  "\<exists>t reports t' st c. BurstTracker_Expire 20 [4] t = (reports, t') \<and> st \<in> set reports \<and> st_Complete st
     \<and> (\<exists>st'\<in>set (fst (BurstTracker_ExpireAll [4] (arrive (c, False, 1, 21, 21) t'))).
          st_BurstID st' = st_BurstID st \<and> \<not> st_Complete st')"
proof -
  let ?c = "\<lambda>s d. \<lparr>c_Seq = s, c_Offset = 0, c_BurstID = 4, c_BurstBytes = 2, c_Checksum = 0, c_Data = [d]\<rparr>"
  let ?b = "burst_arrive (?c 1 6, False, 0, 3, 3)
      (burst_arrive (?c 0 5, False, 0, 3, 3) (new_burst (?c 0 5) 3))"
  let ?t = "\<lparr>bt_bursts = [4 \<mapsto> ?b], bt_ttl = 5\<rparr>" and ?st = "burst_stats ?b 4"
  obtain reports t' where run: "BurstTracker_Expire 20 [4] ?t = (reports, t')"
    by fastforce
  have t': "bt_bursts t' = Map.empty"
    using run by (simp add: BurstTracker_Expire_def burst_arrive_def fun_eq_iff) auto
  have "st_Complete ?st"
    by (simp add: burst_complete_def burst_arrive_def len_u64_def)
  moreover have "enumerates [4] (bt_bursts (arrive (?c 1 6, False, 1, 21, 21) t'))"
    by (auto simp: enumerates_def arrive_bursts t' dom_def split: if_splits)
  ultimately show ?thesis
    using late_chunk_reported_again [of "[4]" ?t 20 reports t' 4 ?st "?c 1 6" "[4]" 1 21 21] run
    by (intro exI [of _ ?t] exI [of _ reports] exI [of _ t'] exI [of _ ?st] exI [of _ "?c 1 6"])
      (auto simp: enumerates_def BurstTracker_Stats_def burst_arrive_def len_u64_def)
qed

end
