(* ===== verification/Mpq_Server.thy ===== *)
theory Mpq_Server
  imports Mpq_Reassembler Mpq_Burst Mpq_Metrics
begin

text \<open>
  The server of \<^verbatim>\<open>cmd/server/main.go\<close>: the state of one session with the operations the
  connection handlers and the background goroutines perform on it, the connection handler as
  the sequence of operations it performs, and the whole server as a transition system over
  any number of connections.  Clock readings and map enumeration orders are arguments.
\<close>

section \<open>Sessions\<close>

text \<open>
  Fields as in \<^verbatim>\<open>serverSession\<close>.  \<open>ss_stopSweep\<close> is \<open>None\<close> before the channel is made, then
  whether it is closed; \<open>ss_sweeping\<close> and \<open>ss_waiting\<close> say that the sweep goroutine and the
  goroutine in \<^verbatim>\<open>wg.Wait\<close> are running; \<open>ss_results\<close> and \<open>ss_burstFile\<close> are what was handed to
  the result writers.
\<close>

record serverSession =
  ss_id :: SessionID
  ss_progressEvery :: int
  ss_ctrl :: "ControlHeader option"
  ss_readyClosed :: bool
  ss_reassembler :: "Reassembler option"
  ss_burstTracker :: "BurstTracker option"
  ss_progress :: "ProgressPrinter option"
  ss_startTime :: int
  ss_deliveryLog :: "DeliverySample SampleLog"
  ss_burstLog :: "BurstSample SampleLog"
  ss_stopSweep :: "bool option"
  ss_stopSweepOne :: bool
  ss_wg :: int
  ss_pathResults :: "PathStats list"
  ss_sweeping :: bool
  ss_waiting :: bool
  ss_results :: "RunResult list"
  ss_burstFile :: "BurstSample list option"

definition new_session :: "SessionID \<Rightarrow> int \<Rightarrow> serverSession" where
  "new_session sid every =
     \<lparr>ss_id = sid, ss_progressEvery = every, ss_ctrl = None, ss_readyClosed = False,
      ss_reassembler = None, ss_burstTracker = None, ss_progress = None, ss_startTime = 0,
      ss_deliveryLog = \<lparr>sl_rows = []\<rparr>, ss_burstLog = \<lparr>sl_rows = []\<rparr>,
      ss_stopSweep = None, ss_stopSweepOne = False, ss_wg = 0, ss_pathResults = [],
      ss_sweeping = False, ss_waiting = False, ss_results = [], ss_burstFile = None\<rparr>"

text \<open>\<^verbatim>\<open>fmt.Sprintf("%x", id)\<close>\<close>

definition hex_digit :: "nat \<Rightarrow> char" where
  "hex_digit d = (if d < 10 then char_of (48 + d) else char_of (87 + d))"

definition session_hex :: "SessionID \<Rightarrow> string" where
  "session_hex sid =
     concat (map (\<lambda>b :: byte. [hex_digit (unat b div 16), hex_digit (unat b mod 16)]) (be_bytes 16 sid))"

definition burstTTL :: int where "burstTTL = 5000000000"

definition session_start :: "ControlHeader \<Rightarrow> int \<Rightarrow> serverSession \<Rightarrow> go_panic + serverSession" where
  "session_start ctrl now s =
     (if ss_readyClosed s then Inr s
      else
        let s1 = s\<lparr>ss_ctrl := Some ctrl, ss_startTime := now\<rparr>;
            finish = (\<lambda>s. s\<lparr>ss_wg := ss_wg s + uint (ch_NumPaths ctrl), ss_readyClosed := True,
                            ss_waiting := True\<rparr>)
        in if ch_TotalSize ctrl = 0
           then Inr (finish (s1\<lparr>ss_burstTracker := Some (NewBurstTracker burstTTL),
                               ss_stopSweep := Some False, ss_sweeping := True\<rparr>))
           else (case NewReassembler (ch_TotalSize ctrl) (ch_ChunkSize ctrl) of
                   Inl e \<Rightarrow> Inl e
                 | Inr r \<Rightarrow> Inr (finish (s1\<lparr>ss_reassembler := Some r,
                                    ss_progress := Some (NewProgressPrinter (ch_TotalSize ctrl))\<rparr>))))"

section \<open>Reporting bursts\<close>

definition burst_aggregate :: "serverSession \<Rightarrow> BurstStats \<Rightarrow> BurstSample" where
  "burst_aggregate s b =
     \<lparr>bs_SessionID = session_hex (ss_id s), bs_Role = ''server'', bs_BurstID = st_BurstID b,
      bs_PathIndex = -1, bs_BytesExpected = st_BytesExpected b, bs_BytesReceived = st_BytesReceived b,
      bs_Chunks = st_Chunks b, bs_Corrupted = st_Corrupted b, bs_Complete = st_Complete b,
      bs_StartMs = Milliseconds (time_Sub (st_StartedAt b) (ss_startTime s)),
      bs_EndMs = Milliseconds (time_Sub (st_LastActivity b) (ss_startTime s))\<rparr>"

definition burst_of_path :: "serverSession \<Rightarrow> BurstStats \<Rightarrow> int \<Rightarrow> PathBurstStats \<Rightarrow> BurstSample" where
  "burst_of_path s b idx p =
     \<lparr>bs_SessionID = session_hex (ss_id s), bs_Role = ''server'', bs_BurstID = st_BurstID b,
      bs_PathIndex = idx, bs_BytesExpected = st_BytesExpected b, bs_BytesReceived = pb_BytesReceived p,
      bs_Chunks = pb_Chunks p, bs_Corrupted = pb_Corrupted p,
      bs_Complete = (pb_BytesReceived p \<ge> st_BytesExpected b),
      bs_StartMs = Milliseconds (time_Sub (st_StartedAt b) (ss_startTime s)),
      bs_EndMs = Milliseconds (time_Sub (st_LastActivity b) (ss_startTime s))\<rparr>"

text \<open>\<open>paths b\<close> is the order in which \<^verbatim>\<open>b.PerPath\<close> is enumerated.\<close>

definition burst_samples :: "(BurstStats \<Rightarrow> int list) \<Rightarrow> serverSession \<Rightarrow> BurstStats \<Rightarrow> BurstSample list" where
  "burst_samples paths s b =
     burst_aggregate s b #
     List.map_filter (\<lambda>idx. map_option (burst_of_path s b idx) (st_PerPath b idx)) (paths b)"

definition recordBursts ::
  "(BurstStats \<Rightarrow> int list) \<Rightarrow> BurstStats list \<Rightarrow> serverSession \<Rightarrow> serverSession" where
  "recordBursts paths stats s =
     (if stats = [] then s
      else let s1 = s\<lparr>ss_burstLog := fold SampleLog_Add (concat (map (burst_samples paths s) stats)) (ss_burstLog s)\<rparr>
           in s1\<lparr>ss_burstFile := Some (SampleLog_Snapshot (ss_burstLog s1))\<rparr>)"

text \<open>One tick of \<^verbatim>\<open>burstSweepLoop\<close>.\<close>

definition sweep_tick ::
  "int \<Rightarrow> u64 list \<Rightarrow> (BurstStats \<Rightarrow> int list) \<Rightarrow> serverSession \<Rightarrow> go_panic + serverSession" where
  "sweep_tick now order paths s =
     (case ss_burstTracker s of
        None \<Rightarrow> Inl NilDereference
      | Some t \<Rightarrow>
          (let (stats, t') = BurstTracker_Expire now order t
           in Inr (recordBursts paths stats (s\<lparr>ss_burstTracker := Some t'\<rparr>))))"

definition shutdownContinuous ::
  "u64 list \<Rightarrow> (BurstStats \<Rightarrow> int list) \<Rightarrow> serverSession \<Rightarrow> serverSession" where
  "shutdownContinuous order paths s =
     (case ss_burstTracker s of
        None \<Rightarrow> s
      | Some t \<Rightarrow>
          (let s1 = (if ss_stopSweepOne s then s
                     else s\<lparr>ss_stopSweepOne := True, ss_stopSweep := Some True\<rparr>);
               (stats, t') = BurstTracker_ExpireAll order t
           in recordBursts paths stats (s1\<lparr>ss_burstTracker := Some t'\<rparr>)))"

section \<open>The end of a one-shot session\<close>

definition sum_corrupted :: "PathStats list \<Rightarrow> int" where
  "sum_corrupted ps = foldl (\<lambda>n p. n + ps_ChunksCorrupted p) 0 ps"

definition session_finalize :: "int \<Rightarrow> serverSession \<Rightarrow> go_panic + serverSession" where
  "session_finalize now s =
     (case (ss_progress s, ss_reassembler s, ss_ctrl s) of
        (Some pp, Some r, Some ctrl) \<Rightarrow>
          (case ProgressPrinter_Close pp of
             Inl e \<Rightarrow> Inl e
           | Inr pp' \<Rightarrow>
              (let ok = (sum_corrupted (ss_pathResults s) = 0 \<and> Reassembler_Complete r);
                   result =
                     \<lparr>rr_Role = ''server'', rr_SessionID = session_hex (ss_id s),
                      rr_TotalBytes = ch_TotalSize ctrl, rr_ChunkSize = ch_ChunkSize ctrl,
                      rr_Scheduler = ch_Scheduler ctrl, rr_StartTime = ss_startTime s,
                      rr_Duration = 0, rr_ThroughputMbps = 0, rr_IntegrityOK = ok,
                      rr_Paths = ss_pathResults s\<rparr>
               in Inr (s\<lparr>ss_progress := Some pp',
                        ss_results := ss_results s @ [RunResult_Finalize now result]\<rparr>)))
      | _ \<Rightarrow> Inl NilDereference)"

definition pathDone :: "PathStats \<Rightarrow> serverSession \<Rightarrow> go_panic + serverSession" where
  "pathDone p s =
     (let s1 = s\<lparr>ss_pathResults := ss_pathResults s @ [p], ss_wg := ss_wg s - 1\<rparr>
      in if ss_wg s1 < 0 then Inl NegativeWaitGroup else Inr s1)"

section \<open>One received chunk\<close>

text \<open>
  The body of the read loop after a chunk was read: the burst tracker of a continuous
  session, or the reassembler and the progress printer, and the delivery log.  \<open>t1\<close> and \<open>t2\<close>
  are the tracker's clock readings, \<open>t3\<close> the log's.
\<close>

definition delivery_sample :: "serverSession \<Rightarrow> int \<Rightarrow> Chunk \<Rightarrow> int \<Rightarrow> DeliverySample" where
  "delivery_sample s pathIndex c t3 =
     \<lparr>ds_SessionID = session_hex (ss_id s), ds_PathIndex = pathIndex, ds_Seq = c_Seq c,
      ds_TMs = Milliseconds (time_Sub t3 (ss_startTime s)), ds_Bytes = int (length (c_Data c))\<rparr>"

definition log_delivery :: "int \<Rightarrow> Chunk \<Rightarrow> int \<Rightarrow> serverSession \<Rightarrow> go_panic + serverSession" where
  "log_delivery pathIndex c t3 s =
     (let add = (\<lambda>s. s\<lparr>ss_deliveryLog := SampleLog_Add (delivery_sample s pathIndex c t3) (ss_deliveryLog s)\<rparr>)
      in case ss_progress s of
           None \<Rightarrow> Inr (add s)
         | Some pp \<Rightarrow>
            (case ss_reassembler s of
               None \<Rightarrow> Inl NilDereference
             | Some r \<Rightarrow> Inr (add (s\<lparr>ss_progress := Some (ProgressPrinter_Update (Reassembler_ReceivedBytes r) pp)\<rparr>))))"

text \<open>The \<^verbatim>\<open>switch\<close> of the read loop.\<close>

definition route_chunk ::
  "int \<Rightarrow> Chunk \<Rightarrow> bool \<Rightarrow> int \<Rightarrow> int \<Rightarrow> serverSession \<Rightarrow> go_panic + serverSession" where
  "route_chunk pathIndex c corrupt t1 t2 s =
     (case ss_burstTracker s of
        Some t \<Rightarrow> Inr (s\<lparr>ss_burstTracker := Some (snd (BurstTracker_Write c corrupt pathIndex t1 t2 t))\<rparr>)
      | None \<Rightarrow>
         (if corrupt then Inr s
          else case ss_reassembler s of
                 None \<Rightarrow> Inl NilDereference
               | Some r \<Rightarrow>
                  (case Reassembler_Write c r of
                     Inl e \<Rightarrow> Inl e
                   | Inr (_, r') \<Rightarrow> Inr (s\<lparr>ss_reassembler := Some r'\<rparr>))))"

definition handle_chunk ::
  "int \<Rightarrow> Chunk \<Rightarrow> int \<Rightarrow> int \<Rightarrow> int \<Rightarrow> serverSession \<Rightarrow> go_panic + serverSession" where
  "handle_chunk pathIndex c t1 t2 t3 s =
     (let corrupt = (\<not> VerifyChecksum c)
      in case route_chunk pathIndex c corrupt t1 t2 s of
           Inl e \<Rightarrow> Inl e
         | Inr s1 \<Rightarrow> if corrupt then Inr s1 else log_delivery pathIndex c t3 s1)"

section \<open>The operations on a session\<close>

datatype session_op =
    OpStart ControlHeader int
  | OpReady
  | OpChunk int Chunk int int int
  | OpPathDone PathStats
  | OpWait int "u64 list" "BurstStats \<Rightarrow> int list"
  | OpSweep int "u64 list" "BurstStats \<Rightarrow> int list"
  | OpSweepStop
  | OpFlush "u64 list" "BurstStats \<Rightarrow> int list"

text \<open>The goroutine that waits for every path, then ends the session.\<close>

definition session_wait ::
  "int \<Rightarrow> u64 list \<Rightarrow> (BurstStats \<Rightarrow> int list) \<Rightarrow> serverSession \<Rightarrow> go_panic + serverSession" where
  "session_wait now order paths s =
     (let s1 = s\<lparr>ss_waiting := False\<rparr>
      in if ss_burstTracker s1 \<noteq> None then Inr (shutdownContinuous order paths s1)
         else session_finalize now s1)"

text \<open>An order in which Go may enumerate the tracker's map.\<close>

definition enumerates_bursts :: "u64 list \<Rightarrow> serverSession \<Rightarrow> bool" where
  "enumerates_bursts order s =
     (case ss_burstTracker s of None \<Rightarrow> True | Some t \<Rightarrow> enumerates order (bt_bursts t))"

text \<open>When a goroutine can perform an operation; the others block or do not exist.\<close>

fun op_enabled :: "session_op \<Rightarrow> serverSession \<Rightarrow> bool" where
  "op_enabled (OpStart ctrl now) s = True"
| "op_enabled OpReady s = ss_readyClosed s"
| "op_enabled (OpChunk i c t1 t2 t3) s = True"
| "op_enabled (OpPathDone p) s = True"
| "op_enabled (OpWait now order paths) s = (ss_waiting s \<and> ss_wg s = 0 \<and> enumerates_bursts order s)"
| "op_enabled (OpSweep now order paths) s = (ss_sweeping s \<and> enumerates_bursts order s)"
| "op_enabled OpSweepStop s = (ss_sweeping s \<and> ss_stopSweep s = Some True)"
| "op_enabled (OpFlush order paths) s = enumerates_bursts order s"

fun op_exec :: "session_op \<Rightarrow> serverSession \<Rightarrow> go_panic + serverSession" where
  "op_exec (OpStart ctrl now) s = session_start ctrl now s"
| "op_exec OpReady s = Inr s"
| "op_exec (OpChunk i c t1 t2 t3) s = handle_chunk i c t1 t2 t3 s"
| "op_exec (OpPathDone p) s = pathDone p s"
| "op_exec (OpWait now order paths) s = session_wait now order paths s"
| "op_exec (OpSweep now order paths) s = sweep_tick now order paths s"
| "op_exec OpSweepStop s = Inr (s\<lparr>ss_sweeping := False\<rparr>)"
| "op_exec (OpFlush order paths) s = Inr (shutdownContinuous order paths s)"

text \<open>
  Runs of a session: the operations performed on it so far, in the order the mutexes and
  the wait group let them happen, none of which panicked.
\<close>

inductive session_run :: "serverSession \<Rightarrow> session_op list \<Rightarrow> serverSession \<Rightarrow> bool" for s0 where
  sr_nil: "session_run s0 [] s0"
| sr_op: "session_run s0 ops s \<Longrightarrow> op_enabled op s \<Longrightarrow> op_exec op s = Inr s' \<Longrightarrow>
     session_run s0 (ops @ [op]) s'"

inductive_cases session_run_snocE: "session_run s0 (ops @ [op]) s'"

lemma session_run_append:
  "session_run s ops' s' \<Longrightarrow> session_run s0 ops s \<Longrightarrow> session_run s0 (ops @ ops') s'"
  by (induction rule: session_run.induct) (auto simp: append_assoc [symmetric] intro: sr_op simp del: append_assoc)

section \<open>The connection handler\<close>

text \<open>
  The read loop: the operations it performs on the session, the error that ends it, and its
  counters.  \<open>tm\<close> gives the clock readings for each chunk.  Every frame is at least forty
  bytes, so the loop ends on every stream.
\<close>

record loop_result =
  lr_ops :: "session_op list"
  lr_err :: io_err
  lr_bytes :: u64
  lr_chunks :: int
  lr_corrupted :: int

function handle_loop ::
  "int \<Rightarrow> (int \<Rightarrow> int \<times> int \<times> int) \<Rightarrow> u64 \<Rightarrow> int \<Rightarrow> int \<Rightarrow> rstream \<Rightarrow> loop_result" where
  "handle_loop pathIndex tm bytesReceived chunks corrupted s =
     (case ReadChunk s of
        Inl e \<Rightarrow> \<lparr>lr_ops = [], lr_err = e, lr_bytes = bytesReceived, lr_chunks = chunks,
                  lr_corrupted = corrupted\<rparr>
      | Inr (c, s') \<Rightarrow>
          (let (t1, t2, t3) = tm chunks;
               res = handle_loop pathIndex tm (bytesReceived + len_u64 (c_Data c)) (chunks + 1)
                       (if \<not> VerifyChecksum c then corrupted + 1 else corrupted) s'
           in res\<lparr>lr_ops := OpChunk pathIndex c t1 t2 t3 # lr_ops res\<rparr>))"
  by pat_completeness auto
termination
  by (relation "measure (\<lambda>(_, _, _, _, _, s). length (rbuf s))") (auto dest: chunk_wire.dec_consumes)

declare handle_loop.simps [simp del]

text \<open>
  \<^verbatim>\<open>waitReady\<close> sleeps on three channels; \<open>w\<close> is the one that woke it.  The first is closed by
  \<^verbatim>\<open>start\<close>, the second fires after sixty seconds.
\<close>

datatype wake = ReadyClosed | MinuteOver | ContextDone

fun waitReady :: "wake \<Rightarrow> bool" where
  "waitReady ReadyClosed = True"
| "waitReady MinuteOver = False"
| "waitReady ContextDone = False"

text \<open>
  What the handler gets from outside: the addresses of the connection, what ended its wait for
  the control header, clock readings, and whether the one-byte drain acknowledgement could be
  written.
\<close>

record conn_env =
  ce_local :: string
  ce_remote :: string
  ce_wake :: wake
  ce_now :: int
  ce_start :: int
  ce_end :: int
  ce_tm :: "int \<Rightarrow> int \<times> int \<times> int"
  ce_ackOk :: bool

abbreviation ce_ready :: "conn_env \<Rightarrow> bool" where
  "ce_ready env \<equiv> waitReady (ce_wake env)"

record conn_result =
  cr_session :: SessionID
  cr_path :: int
  cr_ops :: "session_op list"
  cr_ack :: bool
  cr_closeNow :: bool

definition path_stats :: "conn_env \<Rightarrow> int \<Rightarrow> loop_result \<Rightarrow> PathStats" where
  "path_stats env pathIndex res =
     \<lparr>ps_Index = pathIndex, ps_LocalAddr = ce_local env, ps_RemoteAddr = ce_remote env,
      ps_Bytes = lr_bytes res, ps_Chunks = lr_chunks res, ps_ChunksCorrupted = lr_corrupted res,
      ps_Duration = time_Sub (ce_end env) (ce_start env), ps_CC = []\<rparr>"

text \<open>\<^verbatim>\<open>None\<close>: the preamble could not be read, the connection is closed and nothing happened.\<close>

definition handleConn :: "conn_env \<Rightarrow> rstream \<Rightarrow> conn_result option" where
  "handleConn env stream =
     (case ReadPreamble stream of
        Inl _ \<Rightarrow> None
      | Inr (pre, s1) \<Rightarrow>
          (let sid = (case pre of PreControl ctrl \<Rightarrow> ch_SessionID ctrl | PreHello hello \<Rightarrow> ph_SessionID hello);
               pathIndex = (case pre of PreControl _ \<Rightarrow> 0 | PreHello hello \<Rightarrow> uint (ph_PathIndex hello));
               starts = (case pre of PreControl ctrl \<Rightarrow> [OpStart ctrl (ce_now env)] | PreHello _ \<Rightarrow> [])
           in if \<not> ce_ready env
              then Some \<lparr>cr_session = sid, cr_path = pathIndex, cr_ops = starts, cr_ack = False, cr_closeNow = True\<rparr>
              else
                let res = handle_loop pathIndex (ce_tm env) 0 0 0 s1;
                    ack = (lr_err res = EOF)
                in Some \<lparr>cr_session = sid, cr_path = pathIndex,
                         cr_ops = starts @ OpReady # lr_ops res @ [OpPathDone (path_stats env pathIndex res)],
                         cr_ack = (ack \<and> ce_ackOk env), cr_closeNow = \<not> (ack \<and> ce_ackOk env)\<rparr>))"

section \<open>The server\<close>

record server =
  sv_sessions :: "SessionID \<rightharpoonup> serverSession"
  sv_progressEvery :: int
  sv_conns :: "(SessionID \<times> session_op list) list"

definition newSessionRegistry :: "int \<Rightarrow> server" where
  "newSessionRegistry every = \<lparr>sv_sessions = Map.empty, sv_progressEvery = every, sv_conns = []\<rparr>"

definition getOrCreate :: "SessionID \<Rightarrow> server \<Rightarrow> serverSession \<times> server" where
  "getOrCreate sid r =
     (case sv_sessions r sid of
        Some s \<Rightarrow> (s, r)
      | None \<Rightarrow> (let s = new_session sid (sv_progressEvery r)
                 in (s, r\<lparr>sv_sessions := (sv_sessions r)(sid \<mapsto> s)\<rparr>)))"

text \<open>
  \<^verbatim>\<open>shutdownAll\<close>: the sessions in the order Go enumerated them, \<open>order sid\<close> being the order
  in which the tracker of session \<open>sid\<close> is flushed.  Other goroutines may run between two
  sessions; each flush is then the step \<open>OpFlush\<close> below.
\<close>

definition shutdownAll ::
  "SessionID list \<Rightarrow> (SessionID \<Rightarrow> u64 list) \<Rightarrow> (BurstStats \<Rightarrow> int list) \<Rightarrow> server \<Rightarrow> server" where
  "shutdownAll sids order paths r =
     r\<lparr>sv_sessions := fold (\<lambda>sid m. case m sid of None \<Rightarrow> m
                                 | Some s \<Rightarrow> m(sid \<mapsto> shutdownContinuous (order sid) paths s))
                        sids (sv_sessions r)\<rparr>"

text \<open>
  Steps of the server: a connection is accepted and its handler looks its session up; a
  handler performs its next operation; a background goroutine of a session does.
\<close>

definition background_op :: "session_op \<Rightarrow> bool" where
  "background_op op =
     (case op of OpWait _ _ _ \<Rightarrow> True | OpSweep _ _ _ \<Rightarrow> True | OpSweepStop \<Rightarrow> True | OpFlush _ _ \<Rightarrow> True | _ \<Rightarrow> False)"

inductive server_step :: "server \<Rightarrow> server \<Rightarrow> bool" where
  ss_accept: "handleConn env stream = Some res \<Longrightarrow> getOrCreate (cr_session res) r = (s, r') \<Longrightarrow>
     server_step r (r'\<lparr>sv_conns := sv_conns r' @ [(cr_session res, cr_ops res)]\<rparr>)"
| ss_conn: "k < length (sv_conns r) \<Longrightarrow> sv_conns r ! k = (sid, op # ops) \<Longrightarrow>
     sv_sessions r sid = Some s \<Longrightarrow> op_enabled op s \<Longrightarrow> op_exec op s = Inr s' \<Longrightarrow>
     server_step r (r\<lparr>sv_sessions := (sv_sessions r)(sid \<mapsto> s'), sv_conns := (sv_conns r)[k := (sid, ops)]\<rparr>)"
| ss_background: "background_op op \<Longrightarrow> sv_sessions r sid = Some s \<Longrightarrow> op_enabled op s \<Longrightarrow>
     op_exec op s = Inr s' \<Longrightarrow>
     server_step r (r\<lparr>sv_sessions := (sv_sessions r)(sid \<mapsto> s')\<rparr>)"

text \<open>
  A panic in any handler or goroutine ends the process.  The goroutine of a progress printer
  makes a ticker, which panics when its interval is not positive.
\<close>

inductive server_crash :: "server \<Rightarrow> go_panic \<Rightarrow> bool" where
  sc_conn: "k < length (sv_conns r) \<Longrightarrow> sv_conns r ! k = (sid, op # ops) \<Longrightarrow>
     sv_sessions r sid = Some s \<Longrightarrow> op_enabled op s \<Longrightarrow> op_exec op s = Inl e \<Longrightarrow> server_crash r e"
| sc_background: "background_op op \<Longrightarrow> sv_sessions r sid = Some s \<Longrightarrow> op_enabled op s \<Longrightarrow>
     op_exec op s = Inl e \<Longrightarrow> server_crash r e"
| sc_progress: "sv_sessions r sid = Some s \<Longrightarrow> ss_progress s \<noteq> None \<Longrightarrow> ss_progressEvery s \<le> 0 \<Longrightarrow>
     server_crash r NonPositiveInterval"

inductive server_reachable :: "int \<Rightarrow> server \<Rightarrow> bool" for every where
  rs_init: "server_reachable every (newSessionRegistry every)"
| rs_step: "server_reachable every r \<Longrightarrow> server_step r r' \<Longrightarrow> server_reachable every r'"

text \<open>
  Sessions do not touch each other: the state of each is that of a run of its own.
\<close>

lemma server_sessions_run:
  "server_reachable every r \<Longrightarrow> sv_progressEvery r = every \<and>
     (\<forall>sid s. sv_sessions r sid = Some s \<longrightarrow> (\<exists>ops. session_run (new_session sid every) ops s))"
proof (induction rule: server_reachable.induct)
  case rs_init
  then show ?case by (simp add: newSessionRegistry_def)
next
  case (rs_step r r')
  from rs_step.hyps(2) rs_step.IH show ?case
  proof cases
    case (ss_accept env stream res s r1)
    have "\<exists>ops. session_run (new_session sid every) ops (new_session sid every)" for sid
      by (blast intro: sr_nil)
    with ss_accept rs_step.IH show ?thesis
      by (auto simp: getOrCreate_def Let_def split: option.splits if_splits)
  next
    case (ss_conn k sid op ops s s')
    with rs_step.IH obtain os where "session_run (new_session sid every) os s" by auto
    with ss_conn have "session_run (new_session sid every) (os @ [op]) s'" by (blast intro: sr_op)
    with ss_conn rs_step.IH show ?thesis by auto
  next
    case (ss_background op sid s s')
    with rs_step.IH obtain os where "session_run (new_session sid every) os s" by auto
    with ss_background have "session_run (new_session sid every) (os @ [op]) s'" by (blast intro: sr_op)
    with ss_background rs_step.IH show ?thesis by auto
  qed
qed


section \<open>The invariant of a session\<close>

text \<open>
  The mode of a session is fixed by its control header; the wait group counts the paths that
  have not reported; the waiting goroutine runs until it has ended the session, once.
\<close>

definition session_mode :: "serverSession \<Rightarrow> bool" where
  "session_mode s \<longleftrightarrow>
     (case ss_ctrl s of
        None \<Rightarrow> \<not> ss_readyClosed s \<and> ss_reassembler s = None \<and> ss_burstTracker s = None \<and>
                ss_progress s = None \<and> \<not> ss_waiting s \<and> \<not> ss_sweeping s \<and> ss_results s = []
      | Some ctrl \<Rightarrow> ss_readyClosed s \<and>
          (if ch_TotalSize ctrl = 0
           then ss_reassembler s = None \<and> ss_progress s = None \<and> ss_results s = [] \<and>
                (\<exists>t. ss_burstTracker s = Some t \<and> tracker_reachable burstTTL t)
           else ss_burstTracker s = None \<and> \<not> ss_sweeping s \<and> ss_reassembler s \<noteq> None \<and>
                (\<exists>pp. ss_progress s = Some pp \<and> pp_done pp = (ss_results s \<noteq> []))))"

definition session_count :: "serverSession \<Rightarrow> bool" where
  "session_count s \<longleftrightarrow>
     0 \<le> ss_wg s \<and>
     ss_wg s + int (length (ss_pathResults s)) =
       (case ss_ctrl s of None \<Rightarrow> 0 | Some ctrl \<Rightarrow> uint (ch_NumPaths ctrl))"

definition session_ended :: "serverSession \<Rightarrow> bool" where
  "session_ended s \<longleftrightarrow>
     (ss_waiting s \<longrightarrow> ss_results s = []) \<and> length (ss_results s) \<le> 1 \<and>
     (\<forall>r\<in>set (ss_results s). rr_Paths r = ss_pathResults s \<and> ss_wg s = 0)"

definition session_inv :: "serverSession \<Rightarrow> bool" where
  "session_inv s \<longleftrightarrow> session_mode s \<and> session_count s \<and> session_ended s"

lemmas session_inv_defs = session_inv_def session_mode_def session_count_def session_ended_def

lemma recordBursts_simps [simp]:
  "ss_id (recordBursts ps st s) = ss_id s" "ss_ctrl (recordBursts ps st s) = ss_ctrl s"
  "ss_readyClosed (recordBursts ps st s) = ss_readyClosed s"
  "ss_reassembler (recordBursts ps st s) = ss_reassembler s"
  "ss_burstTracker (recordBursts ps st s) = ss_burstTracker s"
  "ss_progress (recordBursts ps st s) = ss_progress s"
  "ss_wg (recordBursts ps st s) = ss_wg s" "ss_pathResults (recordBursts ps st s) = ss_pathResults s"
  "ss_sweeping (recordBursts ps st s) = ss_sweeping s" "ss_waiting (recordBursts ps st s) = ss_waiting s"
  "ss_results (recordBursts ps st s) = ss_results s" "ss_startTime (recordBursts ps st s) = ss_startTime s"
  "ss_deliveryLog (recordBursts ps st s) = ss_deliveryLog s"
  by (simp_all add: recordBursts_def Let_def)

lemma shutdownContinuous_simps [simp]:
  "ss_ctrl (shutdownContinuous order ps s) = ss_ctrl s"
  "ss_readyClosed (shutdownContinuous order ps s) = ss_readyClosed s"
  "ss_reassembler (shutdownContinuous order ps s) = ss_reassembler s"
  "ss_progress (shutdownContinuous order ps s) = ss_progress s"
  "ss_wg (shutdownContinuous order ps s) = ss_wg s"
  "ss_pathResults (shutdownContinuous order ps s) = ss_pathResults s"
  "ss_sweeping (shutdownContinuous order ps s) = ss_sweeping s"
  "ss_waiting (shutdownContinuous order ps s) = ss_waiting s"
  "ss_results (shutdownContinuous order ps s) = ss_results s"
  "ss_deliveryLog (shutdownContinuous order ps s) = ss_deliveryLog s"
  "ss_burstTracker (shutdownContinuous order ps s)
     = map_option (\<lambda>t. snd (BurstTracker_ExpireAll order t)) (ss_burstTracker s)"
  by (auto simp: shutdownContinuous_def Let_def split: option.splits prod.splits)

lemma session_inv_new [inv_intros]: "session_inv (new_session sid every)"
  by (simp add: session_inv_defs new_session_def)

lemma session_inv_start:
  assumes "session_inv s" and "session_start ctrl now s = Inr s'"
  shows "session_inv s'"
proof (cases "ss_readyClosed s")
  case True
  with assms show ?thesis by (simp add: session_start_def)
next
  case False
  then have "ss_ctrl s = None"
    using assms(1) by (auto simp: session_inv_defs split: option.splits)
  with False assms show ?thesis
    by (auto simp: session_inv_defs session_start_def Let_def NewProgressPrinter_def
        split: if_splits sum.splits intro: tr_new)
qed

text \<open>A chunk touches the tracker or the reassembler, the display and the delivery log.\<close>

definition chunk_frame :: "serverSession \<Rightarrow> serverSession \<Rightarrow> bool" where
  "chunk_frame s s' \<longleftrightarrow>
     ss_ctrl s' = ss_ctrl s \<and> ss_readyClosed s' = ss_readyClosed s \<and> ss_wg s' = ss_wg s \<and>
     ss_pathResults s' = ss_pathResults s \<and> ss_results s' = ss_results s \<and>
     ss_waiting s' = ss_waiting s \<and> ss_sweeping s' = ss_sweeping s \<and>
     map_option pp_done (ss_progress s') = map_option pp_done (ss_progress s)"

lemma log_delivery_frame:
  assumes "log_delivery i c t3 s = Inr s'"
  shows "chunk_frame s s'" and "ss_burstTracker s' = ss_burstTracker s"
    and "ss_reassembler s' = ss_reassembler s"
  using assms
  by (auto simp: chunk_frame_def log_delivery_def Let_def ProgressPrinter_Update_def split: option.splits)

definition routed :: "int \<Rightarrow> Chunk \<Rightarrow> int \<Rightarrow> int \<Rightarrow> serverSession \<Rightarrow> serverSession \<Rightarrow> bool" where
  "routed i c t1 t2 s s' \<longleftrightarrow>
     ss_burstTracker s' = map_option (\<lambda>t. snd (BurstTracker_Write c (\<not> VerifyChecksum c) i t1 t2 t)) (ss_burstTracker s) \<and>
     (if ss_burstTracker s = None \<and> VerifyChecksum c
      then \<exists>r r' b. ss_reassembler s = Some r \<and> Reassembler_Write c r = Inr (b, r') \<and> ss_reassembler s' = Some r'
      else ss_reassembler s' = ss_reassembler s)"

lemma route_chunk_frame:
  assumes "route_chunk i c (\<not> VerifyChecksum c) t1 t2 s = Inr s'"
  shows "chunk_frame s s' \<and> routed i c t1 t2 s s'"
  using assms
  by (auto simp: route_chunk_def chunk_frame_def routed_def split: option.splits sum.splits if_splits)

lemma handle_chunk_frame:
  assumes "handle_chunk i c t1 t2 t3 s = Inr s'"
  shows "chunk_frame s s'" and "routed i c t1 t2 s s'"
proof -
  obtain s1 where s1: "route_chunk i c (\<not> VerifyChecksum c) t1 t2 s = Inr s1"
    and s': "if \<not> VerifyChecksum c then s' = s1 else log_delivery i c t3 s1 = Inr s'"
    using assms by (auto simp: handle_chunk_def Let_def split: sum.splits if_splits)
  have "chunk_frame s s' \<and> routed i c t1 t2 s s'"
  proof (cases "VerifyChecksum c")
    case True
    with s' have l: "log_delivery i c t3 s1 = Inr s'" by simp
    have "chunk_frame s s'"
      using route_chunk_frame [OF s1] log_delivery_frame(1) [OF l] by (auto simp: chunk_frame_def)
    moreover have "routed i c t1 t2 s s'"
      using route_chunk_frame [OF s1] log_delivery_frame(2,3) [OF l] unfolding routed_def by metis
    ultimately show ?thesis ..
  next
    case False
    with s' route_chunk_frame [OF s1] show ?thesis by simp
  qed
  then show "chunk_frame s s'" and "routed i c t1 t2 s s'" by simp_all
qed

lemma session_inv_chunk:
  assumes "session_inv s" and "handle_chunk i c t1 t2 t3 s = Inr s'"
  shows "session_inv s'"
proof -
  note eqs = handle_chunk_frame(1) [OF assms(2), unfolded chunk_frame_def]
  have bt: "ss_burstTracker s' = map_option (\<lambda>t. snd (BurstTracker_Write c (\<not> VerifyChecksum c) i t1 t2 t)) (ss_burstTracker s)"
    using handle_chunk_frame(2) [OF assms(2)] by (simp add: routed_def)
  have ra: "(ss_reassembler s' = None) = (ss_reassembler s = None)"
    using handle_chunk_frame(2) [OF assms(2)] by (auto simp: routed_def split: if_splits)
  have pp: "(ss_progress s' = None) = (ss_progress s = None)"
      "(\<exists>pp. ss_progress s' = Some pp \<and> pp_done pp = d) = (\<exists>pp. ss_progress s = Some pp \<and> pp_done pp = d)" for d
    using eqs by (cases "ss_progress s"; cases "ss_progress s'"; auto)+
  have count: "session_count s'" and ended: "session_ended s'"
    using assms(1) by (simp_all add: eqs session_inv_def session_count_def session_ended_def)
  have mode: "session_mode s"
    using assms(1) by (simp add: session_inv_def)
  have "session_mode s'"
  proof (cases "ss_ctrl s")
    case None
    with mode pp bt ra show ?thesis by (simp add: session_mode_def eqs)
  next
    case (Some ctrl)
    show ?thesis
    proof (cases "ch_TotalSize ctrl = 0")
      case True
      with Some mode pp bt ra show ?thesis by (auto simp: session_mode_def eqs intro: tr_write)
    next
      case False
      with Some mode pp bt ra show ?thesis by (simp add: session_mode_def eqs)
    qed
  qed
  with count ended show ?thesis by (simp add: session_inv_def)
qed

lemma session_inv_pathDone:
  assumes "session_inv s" and "pathDone p s = Inr s'"
  shows "session_inv s'"
proof -
  have "ss_results s = []" if "ss_wg s \<noteq> 0"
    using assms(1) that by (cases "ss_results s") (auto simp: session_inv_defs)
  with assms show ?thesis
    by (auto simp: session_inv_defs pathDone_def Let_def split: option.splits if_splits)
qed

lemma session_inv_shutdown:
  assumes "session_inv s" and "enumerates_bursts order s"
  shows "session_inv (shutdownContinuous order ps s)"
  using assms
  by (auto simp: session_inv_defs enumerates_bursts_def split: option.splits if_splits
      intro: tr_expire_all)

lemma session_inv_finalize:
  assumes "session_inv s" and "ss_waiting s" and "ss_wg s = 0" and "ss_burstTracker s = None"
    and "session_finalize now (s\<lparr>ss_waiting := False\<rparr>) = Inr s'"
  shows "session_inv s'"
  using assms
  by (auto simp: session_inv_defs session_finalize_def ProgressPrinter_Close_def Let_def
      RunResult_Finalize_def split: option.splits if_splits sum.splits)

lemma tracker_reachable_Expire:
  "BurstTracker_Expire now order t = (stats, t') \<Longrightarrow> tracker_reachable ttl t \<Longrightarrow>
     enumerates order (bt_bursts t) \<Longrightarrow> tracker_reachable ttl t'"
  using tr_expire [of ttl t order now] by simp

lemma session_inv_op:
  assumes inv: "session_inv s" and en: "op_enabled op s" and ex: "op_exec op s = Inr s'"
  shows "session_inv s'"
proof (cases op)
  case (OpStart ctrl now)
  with assms show ?thesis by (auto intro: session_inv_start)
next
  case OpReady
  with assms show ?thesis by simp
next
  case (OpChunk i c t1 t2 t3)
  with assms show ?thesis by (auto intro: session_inv_chunk)
next
  case (OpPathDone p)
  with assms show ?thesis by (auto intro: session_inv_pathDone)
next
  case (OpWait now order ps)
  show ?thesis
  proof (cases "ss_burstTracker s")
    case None
    with OpWait assms show ?thesis
      by (auto simp: session_wait_def Let_def intro: session_inv_finalize)
  next
    case (Some t)
    have "session_inv (s\<lparr>ss_waiting := False\<rparr>)"
      using inv Some by (auto simp: session_inv_defs split: option.splits if_splits)
    then have "session_inv (shutdownContinuous order ps (s\<lparr>ss_waiting := False\<rparr>))"
      using en OpWait by (intro session_inv_shutdown) (simp_all add: enumerates_bursts_def)
    with OpWait Some ex show ?thesis
      by (auto simp: session_wait_def Let_def)
  qed
next
  case (OpSweep now order ps)
  with assms show ?thesis
    by (auto simp: session_inv_defs sweep_tick_def Let_def enumerates_bursts_def
        split: option.splits if_splits prod.splits dest: tracker_reachable_Expire)
next
  case OpSweepStop
  with assms show ?thesis by (auto simp: session_inv_defs split: option.splits if_splits)
next
  case (OpFlush order ps)
  with assms show ?thesis by (auto intro: session_inv_shutdown)
qed

lemma session_run_inv: "session_run s0 ops s \<Longrightarrow> session_inv s0 \<Longrightarrow> session_inv s"
  by (induction rule: session_run.induct) (auto intro: session_inv_op)

end
