(* ===== verification/Mpq_Sessions.thy ===== *)
theory Mpq_Sessions
  imports Mpq_Server
begin

text \<open>
  What the sessions of the server guarantee: one verdict per session, given when every
  announced path has reported, and what that verdict means.
\<close>

section \<open>What a run has recorded\<close>

definition arrived :: "session_op list \<Rightarrow> Chunk list" where
  "arrived ops = List.map_filter (\<lambda>op. case op of OpChunk i c t1 t2 t3 \<Rightarrow> Some c | _ \<Rightarrow> None) ops"

definition good_arrivals :: "session_op list \<Rightarrow> Chunk list" where
  "good_arrivals ops = filter VerifyChecksum (arrived ops)"

definition path_reports :: "session_op list \<Rightarrow> PathStats list" where
  "path_reports ops = List.map_filter (\<lambda>op. case op of OpPathDone p \<Rightarrow> Some p | _ \<Rightarrow> None) ops"

lemma arrived_simps [simp]:
  "arrived [] = []" "arrived (ops @ ops') = arrived ops @ arrived ops'"
  "arrived (op # ops) = (case op of OpChunk i c t1 t2 t3 \<Rightarrow> [c] | _ \<Rightarrow> []) @ arrived ops"
  by (auto simp: arrived_def map_filter_def split: session_op.splits)

lemma good_arrivals_simps [simp]:
  "good_arrivals [] = []" "good_arrivals (ops @ ops') = good_arrivals ops @ good_arrivals ops'"
  "good_arrivals (op # ops) = (case op of OpChunk i c t1 t2 t3 \<Rightarrow> if VerifyChecksum c then [c] else [] | _ \<Rightarrow> [])
     @ good_arrivals ops"
  by (auto simp: good_arrivals_def split: session_op.splits)

lemma path_reports_simps [simp]:
  "path_reports [] = []" "path_reports (ops @ ops') = path_reports ops @ path_reports ops'"
  "path_reports (op # ops) = (case op of OpPathDone p \<Rightarrow> [p] | _ \<Rightarrow> []) @ path_reports ops"
  by (auto simp: path_reports_def map_filter_def split: session_op.splits)

text \<open>The reassembler holds what the good arrivals wrote, the reports are those handed in.\<close>

definition session_records :: "session_op list \<Rightarrow> serverSession \<Rightarrow> bool" where
  "session_records ops s \<longleftrightarrow>
     ss_pathResults s = path_reports ops \<and>
     (ss_ctrl s = None \<longrightarrow> good_arrivals ops = []) \<and>
     (\<forall>ctrl. ss_ctrl s = Some ctrl \<longrightarrow> ch_TotalSize ctrl \<noteq> 0 \<longrightarrow>
        (\<exists>r0 r. NewReassembler (ch_TotalSize ctrl) (ch_ChunkSize ctrl) = Inr r0 \<and>
           run_writes (good_arrivals ops) r0 = Inr r \<and> ss_reassembler s = Some r))"

lemma run_writes_snoc:
  "run_writes (cs @ [c]) r =
     (case run_writes cs r of Inl e \<Rightarrow> Inl e
      | Inr r' \<Rightarrow> (case Reassembler_Write c r' of Inl e \<Rightarrow> Inl e | Inr (_, r'') \<Rightarrow> Inr r''))"
  by (induction cs arbitrary: r) (auto split: sum.splits)

text \<open>Operations that leave reassembler, header and reports alone.\<close>

lemma session_records_quiet:
  assumes "session_records ops s" and "ss_pathResults s' = ss_pathResults s" and "ss_ctrl s' = ss_ctrl s"
    and "ss_reassembler s' = ss_reassembler s" and "path_reports [op] = []" and "good_arrivals [op] = []"
  shows "session_records (ops @ [op]) s'"
  using assms(1) unfolding session_records_def path_reports_simps(2) good_arrivals_simps(2) assms(2-)
  by (auto simp only: append_Nil2)

lemma session_records_chunk:
  assumes rec: "session_records ops s" and inv: "session_inv s"
    and ex: "handle_chunk i c t1 t2 t3 s = Inr s'"
  shows "session_records (ops @ [OpChunk i c t1 t2 t3]) s'"
proof -
  note frame = handle_chunk_frame(1) [OF ex, unfolded chunk_frame_def]
  note route = handle_chunk_frame(2) [OF ex, unfolded routed_def]
  show ?thesis
  proof (cases "VerifyChecksum c \<and> ss_burstTracker s = None")
    case True
    then obtain r r' b where r: "ss_reassembler s = Some r" "Reassembler_Write c r = Inr (b, r')"
        "ss_reassembler s' = Some r'"
      using route by auto
    then have "ss_ctrl s \<noteq> None"
      using inv by (cases "ss_ctrl s") (auto simp: session_inv_defs)
    with rec r True frame show ?thesis
      by (auto simp: session_records_def run_writes_snoc)
  next
    case False
    then have same: "ss_reassembler s' = ss_reassembler s"
      using route by (auto split: if_splits)
    show ?thesis
    proof (cases "VerifyChecksum c")
      case True
      with False inv have "\<exists>ctrl. ss_ctrl s = Some ctrl \<and> ch_TotalSize ctrl = 0"
        by (auto simp: session_inv_defs split: option.splits if_splits)
      with rec frame show ?thesis
        by (auto simp: session_records_def)
    next
      case False
      with rec frame same show ?thesis by (simp add: session_records_def)
    qed
  qed
qed

lemma session_records_op:
  assumes rec: "session_records ops s" and inv: "session_inv s"
    and en: "op_enabled op s" and ex: "op_exec op s = Inr s'"
  shows "session_records (ops @ [op]) s'"
proof (cases op)
  case (OpStart ctrl now)
  show ?thesis
  proof (cases "ss_readyClosed s")
    case True
    with OpStart ex rec show ?thesis by (simp add: session_start_def session_records_def)
  next
    case False
    then have "ss_ctrl s = None"
      using inv by (auto simp: session_inv_defs split: option.splits)
    with False OpStart ex rec show ?thesis
      by (auto simp: session_start_def session_records_def Let_def split: if_splits sum.splits)
  qed
next
  case (OpChunk i c t1 t2 t3)
  with session_records_chunk [OF rec inv] ex show ?thesis by simp
next
  case (OpPathDone p)
  with ex rec show ?thesis
    by (auto simp: pathDone_def session_records_def Let_def split: if_splits)
next
  case (OpWait now order ps)
  with ex have "ss_pathResults s' = ss_pathResults s \<and> ss_ctrl s' = ss_ctrl s \<and> ss_reassembler s' = ss_reassembler s"
    by (auto simp: session_wait_def session_finalize_def Let_def split: if_splits option.splits sum.splits)
  with OpWait rec show ?thesis by (intro session_records_quiet) auto
next
  case (OpSweep now order ps)
  with ex have "ss_pathResults s' = ss_pathResults s \<and> ss_ctrl s' = ss_ctrl s \<and> ss_reassembler s' = ss_reassembler s"
    by (auto simp: sweep_tick_def split: option.splits prod.splits)
  with OpSweep rec show ?thesis by (intro session_records_quiet) auto
qed (use rec ex in \<open>auto intro!: session_records_quiet\<close>)

lemma session_run_records:
  "session_run (new_session sid every) ops s \<Longrightarrow> session_inv s \<and> session_records ops s"
proof (induction rule: session_run.induct)
  case sr_nil
  have "session_records [] (new_session sid every)"
    by (simp add: session_records_def new_session_def)
  then show ?case
    by (auto intro: session_inv_new)
next
  case (sr_op ops s op s')
  then show ?case
    by (blast intro: session_inv_op session_records_op)
qed


section \<open>Properties\<close>

text \<open>
  C31: one verdict per session.  In every run of a session, however the connections and
  goroutines interleave, at most one result is written; when it is, exactly the announced
  number of paths have reported, the result lists these reports, and its scheduler, sizes
  and session id are those of the first control header.
\<close>

theorem session_verdict_once:
  assumes "session_run (new_session sid every) ops s" and "r \<in> set (ss_results s)"
  shows "ss_results s = [r] \<and> rr_Paths r = path_reports ops
    \<and> (\<exists>ctrl. ss_ctrl s = Some ctrl \<and> uint (ch_NumPaths ctrl) = int (length (rr_Paths r)))"
proof -
  have inv: "session_inv s" and rec: "session_records ops s"
    using session_run_records [OF assms(1)] by simp_all
  then have "ss_results s = [r]"
    using assms(2) by (cases "ss_results s") (auto simp: session_inv_def session_ended_def)
  moreover obtain ctrl where "ss_ctrl s = Some ctrl"
    using inv assms(2) by (cases "ss_ctrl s") (auto simp: session_inv_defs)
  ultimately show ?thesis
    using inv rec assms(2) by (auto simp: session_inv_def session_count_def session_ended_def session_records_def)
qed

text \<open>
  Too many paths crash the server.  Once a session is ready, a further path may report
  as long as fewer paths than the control header announced have; the report of one more
  path panics in the wait group and ends the process.
\<close>

theorem extra_path_panics:
  assumes "session_run (new_session sid every) ops s" and "ss_ctrl s = Some ctrl"
  shows "op_exec (OpPathDone p) s = Inl e
    \<longleftrightarrow> length (path_reports ops) = unat (ch_NumPaths ctrl) \<and> e = NegativeWaitGroup"
proof -
  have "session_inv s" and "session_records ops s"
    using session_run_records [OF assms(1)] by simp_all
  then have "ss_wg s + int (length (path_reports ops)) = int (unat (ch_NumPaths ctrl))" and "0 \<le> ss_wg s"
    using assms(2) by (simp_all add: session_inv_def session_count_def session_records_def)
  then have "ss_wg s - 1 < 0 \<longleftrightarrow> length (path_reports ops) = unat (ch_NumPaths ctrl)"
    by linarith
  then show ?thesis
    by (auto simp: pathDone_def Let_def)
qed

theorem session_verdict_once_witness:
  "\<exists>ops s r. session_run (new_session 5 0) ops s \<and> ss_results s = [r] \<and> rr_Paths r = path_reports ops"
proof -
  let ?h = "\<lparr>ch_SessionID = 5, ch_TotalSize = 1, ch_ChunkSize = 1, ch_NumPaths = 0, ch_Scheduler = []\<rparr>"
  have new: "\<exists>r0. NewReassembler 1 1 = Inr r0"
    by (simp add: NewReassembler_Inr_iff reassembler_chunk_size_def Let_def max_alloc_def)
  then obtain r0 where r0: "NewReassembler 1 1 = Inr r0" by blast
  obtain s1 where s1: "session_start ?h 0 (new_session 5 0) = Inr s1" and
    s1': "ss_waiting s1" "ss_wg s1 = 0" "ss_burstTracker s1 = None" "ss_reassembler s1 = Some r0"
      "ss_ctrl s1 = Some ?h" "ss_progress s1 = Some (NewProgressPrinter 1)" "ss_results s1 = []"
    using r0 by (simp add: session_start_def new_session_def Let_def)
  obtain s2 r where s2: "session_wait 1 [] (\<lambda>_. []) s1 = Inr s2" "r \<in> set (ss_results s2)"
    using s1' by (auto simp: session_wait_def session_finalize_def ProgressPrinter_Close_def
        NewProgressPrinter_def Let_def)
  have "session_run (new_session 5 0) (([] @ [OpStart ?h 0]) @ [OpWait 1 [] (\<lambda>_. [])]) s2"
    by (rule sr_op [OF sr_op [OF sr_nil]]) (use s1 s1' s2 in \<open>auto simp: enumerates_bursts_def\<close>)
  from this session_verdict_once [OF this s2(2)] show ?thesis
    by blast
qed

theorem extra_path_panics_witness:
  "\<exists>s. ss_readyClosed s \<and> op_exec (OpPathDone \<lparr>ps_Index = 0, ps_LocalAddr = [], ps_RemoteAddr = [],
      ps_Bytes = 0, ps_Chunks = 0, ps_ChunksCorrupted = 0, ps_Duration = 0, ps_CC = []\<rparr>) s = Inl NegativeWaitGroup"
proof -
  let ?h = "\<lparr>ch_SessionID = 5, ch_TotalSize = 0, ch_ChunkSize = 1, ch_NumPaths = 0, ch_Scheduler = []\<rparr>"
  obtain s1 where s1: "session_start ?h 0 (new_session 5 0) = Inr s1" "ss_ctrl s1 = Some ?h" "ss_readyClosed s1"
    by (simp add: session_start_def new_session_def Let_def)
  have run: "session_run (new_session 5 0) ([] @ [OpStart ?h 0]) s1"
    by (rule sr_op [OF sr_nil]) (use s1 in auto)
  from extra_path_panics [OF run s1(2)] s1(3) show ?thesis
    by (intro exI [of _ s1]) simp
qed


lemma session_verdict:
  assumes run: "session_run (new_session sid every) ops s" and ctrl: "ss_ctrl s = Some ctrl"
    and len: "ch_TotalSize ctrl = len_u64 data" "data \<noteq> []" "length data \<le> max_alloc"
    and split: "Split data (ch_ChunkSize ctrl) burstID burstBytes = Some chunks"
    and good: "set (good_arrivals ops) \<subseteq> stamp ` set chunks"
    and en: "op_enabled (OpWait now order ps) s"
  shows "\<exists>s' r. op_exec (OpWait now order ps) s = Inr s' \<and> ss_results s' = [r] \<and>
     rr_Paths r = path_reports ops \<and>
     (rr_IntegrityOK r \<longleftrightarrow> sum_corrupted (path_reports ops) = 0
        \<and> set (good_arrivals ops) = stamp ` set chunks) \<and>
     (rr_IntegrityOK r \<longrightarrow> map_option Reassembler_Bytes (ss_reassembler s') = Some data)"
proof -
  have inv: "session_inv s" and rec: "session_records ops s"
    using session_run_records [OF run] by simp_all
  have "len_u64 data \<noteq> 0"
    using len unat_len_u64 [of data] by (auto simp: max_alloc_def)
  then have oneshot: "ch_TotalSize ctrl \<noteq> 0"
    using len(1) by simp
  obtain r0 r where r0: "NewReassembler (len_u64 data) (ch_ChunkSize ctrl) = Inr r0"
      "run_writes (good_arrivals ops) r0 = Inr r" and r: "ss_reassembler s = Some r"
    using rec ctrl oneshot len(1) by (auto simp: session_records_def)
  have whole: "Reassembler_Complete r \<longleftrightarrow> set (good_arrivals ops) = stamp ` set chunks"
      "Reassembler_Complete r \<longrightarrow> Reassembler_Bytes r = data"
    using reassemble_payload [OF split r0(1) len(3) good] r0(2) by auto
  obtain pp where pp: "ss_progress s = Some pp" "\<not> pp_done pp" and bt: "ss_burstTracker s = None"
      and res: "ss_results s = []" and paths: "ss_pathResults s = path_reports ops"
    using inv ctrl oneshot en rec by (auto simp: session_inv_defs session_records_def)
  show ?thesis
    using whole
    by (simp add: session_wait_def session_finalize_def ProgressPrinter_Close_def Let_def
        pp bt res r ctrl paths RunResult_Finalize_def)
qed

text \<open>
  C13: what the verdict means.  Let a one-shot session announce the length of a non-empty
  payload, and let every chunk that arrived with a matching checksum be one of the payload's
  chunks.  When the last announced path has reported, the session ends without a panic and
  writes its result; integrity is reported exactly when no path reported a corrupted chunk
  and every chunk of the payload arrived intact, and then the reassembled buffer is the
  payload.
\<close>

theorem session_verdict_sound:
  assumes "session_run (new_session sid every) ops s" and "ss_ctrl s = Some ctrl"
    and "ch_TotalSize ctrl = len_u64 data" and "data \<noteq> []" and "length data \<le> max_alloc"
    and "Split data (ch_ChunkSize ctrl) burstID burstBytes = Some chunks"
    and "set (good_arrivals ops) \<subseteq> stamp ` set chunks"
    and "op_enabled (OpWait now order ps) s"
  shows "\<exists>s' r. op_exec (OpWait now order ps) s = Inr s' \<and> ss_results s' = [r] \<and>
     rr_Paths r = path_reports ops \<and>
     (rr_IntegrityOK r \<longleftrightarrow> sum_corrupted (path_reports ops) = 0
        \<and> set (good_arrivals ops) = stamp ` set chunks) \<and>
     (rr_IntegrityOK r \<longrightarrow> map_option Reassembler_Bytes (ss_reassembler s') = Some data)"
  by (rule session_verdict [OF assms])


theorem session_verdict_sound_witness:
  "\<exists>s s' r. session_run (new_session 5 0) [OpStart \<lparr>ch_SessionID = 5, ch_TotalSize = 1, ch_ChunkSize = 1,
        ch_NumPaths = 0, ch_Scheduler = []\<rparr> 0] s \<and>
     op_exec (OpWait 1 [] (\<lambda>_. [])) s = Inr s' \<and> ss_results s' = [r] \<and> \<not> rr_IntegrityOK r"
proof -
  let ?h = "\<lparr>ch_SessionID = 5, ch_TotalSize = 1, ch_ChunkSize = 1, ch_NumPaths = 0, ch_Scheduler = []\<rparr>"
  have "\<exists>r0. NewReassembler 1 1 = Inr r0"
    by (simp add: NewReassembler_Inr_iff reassembler_chunk_size_def Let_def max_alloc_def)
  then obtain s1 where s1: "session_start ?h 0 (new_session 5 0) = Inr s1"
      "ss_waiting s1" "ss_wg s1 = 0" "ss_burstTracker s1 = None" "ss_ctrl s1 = Some ?h"
    by (auto simp: session_start_def new_session_def Let_def)
  have run: "session_run (new_session 5 0) ([] @ [OpStart ?h 0]) s1"
    by (rule sr_op [OF sr_nil]) (use s1 in auto)
  have "Split [7] 1 0 1 = Some (split_list [7] 1 0 1)"
    by (simp add: Split_eq_split_list effective_chunk_size_def)
  moreover have "split_list [7] 1 0 1 \<noteq> []"
    by (simp add: split_list_def num_chunks_def)
  ultimately obtain cs where cs: "Split [7] (ch_ChunkSize ?h) 0 1 = Some cs" "cs \<noteq> []"
    by auto
  from session_verdict_sound [OF run s1(5) _ _ _ cs(1), of 1 "[]" "\<lambda>_. []"] s1 cs(2)
  obtain s' r where "op_exec (OpWait 1 [] (\<lambda>_. [])) s1 = Inr s'" "ss_results s' = [r]" "\<not> rr_IntegrityOK r"
    by (auto simp: len_u64_def max_alloc_def enumerates_bursts_def)
  with run show ?thesis by auto
qed

text \<open>
  C32: what a flush reports.  In a continuous session a flush, whether it is the first, the
  one at the end of the last path or the one of a server that is shutting down, appends to
  the burst log the samples of every burst the tracker holds at that moment, one group per
  burst, and empties the tracker; with nothing held it changes neither log nor file.  So a
  second flush reports again whatever arrived after the first.
\<close>

theorem shutdown_flushes_all:
  assumes "session_run (new_session sid every) ops s" and "ss_burstTracker s = Some t"
    and "enumerates order (bt_bursts t)"
  shows "let s' = shutdownContinuous order paths s in
     SampleLog_Snapshot (ss_burstLog s') = SampleLog_Snapshot (ss_burstLog s)
        @ concat (map (\<lambda>bid. burst_samples paths s (the (BurstTracker_Stats bid t))) order) \<and>
     map_option bt_bursts (ss_burstTracker s') = Some Map.empty \<and>
     ss_burstFile s' = (if order = [] then ss_burstFile s else Some (SampleLog_Snapshot (ss_burstLog s')))"
proof -
  have dom: "set order \<subseteq> dom (bt_bursts t)"
    using assms(3) by (simp add: enumerates_def)
  then have stats: "collect_stats order (bt_bursts t) = map (\<lambda>bid. the (BurstTracker_Stats bid t)) order"
    by (induction order) (auto simp: BurstTracker_Stats_def)
  have "burst_samples paths (s\<lparr>ss_stopSweepOne := y, ss_stopSweep := z, ss_burstTracker := x\<rparr>) = burst_samples paths s"
    and "burst_samples paths (s\<lparr>ss_burstTracker := x\<rparr>) = burst_samples paths s" for x y z
    by (auto simp: fun_eq_iff burst_samples_def burst_aggregate_def burst_of_path_def map_filter_def)
  then show ?thesis
    using assms(2)
    by (auto simp: Let_def shutdownContinuous_def BurstTracker_ExpireAll_def recordBursts_def stats
        Snapshot_fold_Add comp_def)
qed

theorem shutdown_flushes_all_witness:
  "\<exists>s s'. session_run (new_session 5 0) [OpStart \<lparr>ch_SessionID = 5, ch_TotalSize = 0, ch_ChunkSize = 1,
        ch_NumPaths = 1, ch_Scheduler = []\<rparr> 0, OpFlush [] (\<lambda>_. []),
        OpChunk 0 (stamp \<lparr>c_Seq = 0, c_Offset = 0, c_BurstID = 1, c_BurstBytes = 2, c_Checksum = 0,
          c_Data = [9]\<rparr>) 1 1 1] s \<and>
     s' = shutdownContinuous [1] (\<lambda>_. []) s \<and> ss_stopSweepOne s \<and>
     length (SampleLog_Snapshot (ss_burstLog s')) = length (SampleLog_Snapshot (ss_burstLog s)) + 1"
proof -
  let ?h = "\<lparr>ch_SessionID = 5, ch_TotalSize = 0, ch_ChunkSize = 1, ch_NumPaths = 1, ch_Scheduler = []\<rparr>"
  let ?c = "stamp \<lparr>c_Seq = 0, c_Offset = 0, c_BurstID = 1, c_BurstBytes = 2, c_Checksum = 0, c_Data = [9]\<rparr>"
  obtain s1 where s1: "op_exec (OpStart ?h 0) (new_session 5 0) = Inr s1"
      "ss_burstTracker s1 = Some (NewBurstTracker burstTTL)" "ss_progress s1 = None"
    by (simp add: session_start_def new_session_def Let_def)
  define s2 where "s2 = shutdownContinuous [] (\<lambda>_. []) s1"
  have t2: "ss_burstTracker s2 = Some (NewBurstTracker burstTTL)" "ss_stopSweepOne s2"
      "ss_progress s2 = None"
    using s1 by (simp_all add: s2_def shutdownContinuous_def BurstTracker_ExpireAll_def recordBursts_def NewBurstTracker_def)
  let ?t = "snd (BurstTracker_Write ?c False 0 1 1 (NewBurstTracker burstTTL))"
  obtain s3 where s3: "op_exec (OpChunk 0 ?c 1 1 1) s2 = Inr s3" "ss_burstTracker s3 = Some ?t"
      "ss_stopSweepOne s3"
    using t2 by (simp add: handle_chunk_def route_chunk_def log_delivery_def Let_def)
  have run: "session_run (new_session 5 0) ((([] @ [OpStart ?h 0]) @ [OpFlush [] (\<lambda>_. [])]) @ [OpChunk 0 ?c 1 1 1]) s3"
    by (rule sr_op [OF sr_op [OF sr_op [OF sr_nil]]])
      (use s1 s3 in \<open>auto simp: s2_def enumerates_bursts_def enumerates_def NewBurstTracker_def\<close>)
  have "bt_bursts ?t = [1 \<mapsto> burst_add ?c False 0 1 (new_burst ?c 1)]"
    by (simp add: BurstTracker_Write_def NewBurstTracker_def Let_def)
  then have "enumerates [1] (bt_bursts ?t)"
    by (simp add: enumerates_def)
  from shutdown_flushes_all [OF run s3(2) this, of "\<lambda>_. []"] s3(3) run show ?thesis
    by (intro exI [of _ s3] exI [of _ "shutdownContinuous [1] (\<lambda>_. []) s3"])
      (simp add: Let_def burst_samples_def map_filter_def)
qed


section \<open>The connection handler\<close>

fun chunk_ops :: "int \<Rightarrow> (int \<Rightarrow> int \<times> int \<times> int) \<Rightarrow> int \<Rightarrow> Chunk list \<Rightarrow> session_op list" where
  "chunk_ops i tm k [] = []"
| "chunk_ops i tm k (c # cs) =
     (let (t1, t2, t3) = tm k in OpChunk i c t1 t2 t3 # chunk_ops i tm (k + 1) cs)"

lemma handle_loop_eq:
  "read_chunks s = (cs, e) \<Longrightarrow>
     handle_loop i tm b k m s =
       \<lparr>lr_ops = chunk_ops i tm k cs, lr_err = e,
        lr_bytes = b + of_nat (sum_list (map (\<lambda>c. length (c_Data c)) cs)),
        lr_chunks = k + int (length cs),
        lr_corrupted = m + int (length (filter (\<lambda>c. \<not> VerifyChecksum c) cs))\<rparr>"
proof (induction i tm b k m s arbitrary: cs e rule: handle_loop.induct)
  case (1 i tm b k m s)
  show ?case
  proof (cases "ReadChunk s")
    case (Inl x)
    with "1.prems" show ?thesis
      by (simp add: handle_loop.simps [of i tm b k m s] read_chunks.simps [of s])
  next
    case (Inr y)
    obtain c s' where y: "y = (c, s')" by fastforce
    obtain ds e' where ds: "read_chunks s' = (ds, e')" by fastforce
    with "1.prems" Inr y have cs: "cs = c # ds" "e = e'"
      by (simp_all add: read_chunks.simps [of s])
    obtain t1 t2 t3 where tm: "tm k = (t1, t2, t3)" by (cases "tm k")
    have ih: "handle_loop i tm (b + len_u64 (c_Data c)) (k + 1) (if \<not> VerifyChecksum c then m + 1 else m) s' =
       \<lparr>lr_ops = chunk_ops i tm (k + 1) ds, lr_err = e',
        lr_bytes = b + len_u64 (c_Data c) + of_nat (sum_list (map (\<lambda>c. length (c_Data c)) ds)),
        lr_chunks = k + 1 + int (length ds),
        lr_corrupted = (if \<not> VerifyChecksum c then m + 1 else m)
           + int (length (filter (\<lambda>c. \<not> VerifyChecksum c) ds))\<rparr>"
      by (rule "1.IH" [OF Inr y [symmetric] tm [symmetric] refl refl ds])
    show ?thesis
      unfolding handle_loop.simps [of i tm b k m s] Inr y sum.case prod.case tm Let_def ih
      by (simp add: cs tm len_u64_def)
  qed
qed

lemma arrived_chunk_ops [simp]: "arrived (chunk_ops i tm k cs) = cs"
  by (induction cs arbitrary: k) (auto split: prod.splits)

lemma path_reports_chunk_ops [simp]: "path_reports (chunk_ops i tm k cs) = []"
  by (induction cs arbitrary: k) (auto split: prod.splits)


lemma ReadChunk_Inl_EOF:
  assumes "ReadChunk s = Inl EOF"
  shows "rend s = EOF \<and> length (rbuf s) < 40 + announced_len s"
proof -
  consider "length (rbuf s) < 40"
    | "40 \<le> length (rbuf s)" "length (rbuf s) < 40 + announced_len s"
    | "40 + announced_len s \<le> length (rbuf s)"
    by linarith
  then show ?thesis
  proof cases
    case 1
    with assms show ?thesis by (auto simp: ReadChunk_header_short split: if_splits)
  next
    case 2
    with assms show ?thesis by (auto simp: ReadChunk_data_short split: if_splits)
  next
    case 3
    with assms ReadChunk_complete [OF 3] show ?thesis by auto
  qed
qed

definition report_of :: "PathStats \<Rightarrow> Chunk list \<Rightarrow> bool" where
  "report_of p cs \<longleftrightarrow>
     ps_Bytes p = of_nat (sum_list (map (\<lambda>c. length (c_Data c)) cs)) \<and>
     ps_Chunks p = int (length cs) \<and>
     ps_ChunksCorrupted p = int (length (filter (\<lambda>c. \<not> VerifyChecksum c) cs))"

definition start_ops :: "conn_env \<Rightarrow> preamble \<Rightarrow> session_op list" where
  "start_ops env pre = (case pre of PreControl ctrl \<Rightarrow> [OpStart ctrl (ce_now env)] | PreHello _ \<Rightarrow> [])"

definition preamble_session :: "preamble \<Rightarrow> SessionID" where
  "preamble_session pre = (case pre of PreControl ctrl \<Rightarrow> ch_SessionID ctrl | PreHello hello \<Rightarrow> ph_SessionID hello)"

definition preamble_path :: "preamble \<Rightarrow> int" where
  "preamble_path pre = (case pre of PreControl _ \<Rightarrow> 0 | PreHello hello \<Rightarrow> uint (ph_PathIndex hello))"

lemma handleConn_ready:
  assumes "ReadPreamble stream = Inr (pre, s1)" and "read_chunks s1 = (cs, e)" and "ce_ready env"
  shows "\<exists>p. report_of p cs \<and> ps_Index p = preamble_path pre \<and>
    handleConn env stream = Some \<lparr>cr_session = preamble_session pre, cr_path = preamble_path pre,
      cr_ops = start_ops env pre @ OpReady # chunk_ops (preamble_path pre) (ce_tm env) 0 cs @ [OpPathDone p],
      cr_ack = (e = EOF \<and> ce_ackOk env), cr_closeNow = \<not> (e = EOF \<and> ce_ackOk env)\<rparr>"
  using assms
  by (simp add: handleConn_def Let_def handle_loop_eq [OF assms(2)] start_ops_def preamble_session_def
      preamble_path_def path_stats_def report_of_def)

text \<open>A handler that acknowledged read its stream to a clean end of file.\<close>

lemma acked_handler:
  assumes "handleConn env stream = Some res" and "cr_ack res"
  shows "\<exists>pre s1 cs p. ReadPreamble stream = Inr (pre, s1) \<and> read_chunks s1 = (cs, EOF) \<and> report_of p cs \<and>
    res = \<lparr>cr_session = preamble_session pre, cr_path = preamble_path pre,
      cr_ops = start_ops env pre @ OpReady # chunk_ops (preamble_path pre) (ce_tm env) 0 cs @ [OpPathDone p],
      cr_ack = True, cr_closeNow = False\<rparr>"
proof -
  obtain pre s1 where pre: "ReadPreamble stream = Inr (pre, s1)"
    using assms(1) by (auto simp: handleConn_def split: sum.splits)
  obtain cs e where cs: "read_chunks s1 = (cs, e)"
    by fastforce
  have ready: "ce_ready env"
    using assms pre by (auto simp: handleConn_def Let_def split: if_splits)
  from handleConn_ready [OF pre cs ready] assms pre cs show ?thesis
    by auto
qed

lemma acked_at_EOF:
  assumes "handleConn env stream = Some res" and "cr_ack res"
  shows "rend stream = EOF"
proof -
  obtain pre s1 cs where pre: "ReadPreamble stream = Inr (pre, s1)" and cs: "read_chunks s1 = (cs, EOF)"
    using acked_handler [OF assms] by blast
  obtain rest where "ReadChunk (s1\<lparr>rbuf := rest\<rparr>) = Inl EOF"
    using read_chunks_prefix [OF cs] by blast
  from ReadChunk_Inl_EOF [OF this] preamble_wire.dec_sound [OF pre] show ?thesis
    by simp
qed

text \<open>
  What the drain acknowledgement proves.  When a handler acknowledges a path, the stream
  really was closed by its sender, everything it carried is a preamble, whole frames and
  less than one more frame, every one of these frames was handed to the session, in order,
  and the path's report counts them.
\<close>

lemma drain_ack_sound:
  assumes "handleConn env stream = Some res" and "cr_ack res"
  shows "\<exists>pre cs rest p. rend stream = EOF \<and>
    rbuf stream = preamble_bytes pre @ concat (map chunk_bytes cs) @ rest \<and>
    length rest < 40 + announced_len (stream\<lparr>rbuf := rest\<rparr>) \<and>
    cr_session res = preamble_session pre \<and> arrived (cr_ops res) = cs \<and>
    path_reports (cr_ops res) = [p] \<and> report_of p cs"
proof -
  obtain pre s1 cs p where pre: "ReadPreamble stream = Inr (pre, s1)" and cs: "read_chunks s1 = (cs, EOF)"
    and p: "report_of p cs" and res: "res = \<lparr>cr_session = preamble_session pre, cr_path = preamble_path pre,
      cr_ops = start_ops env pre @ OpReady # chunk_ops (preamble_path pre) (ce_tm env) 0 cs @ [OpPathDone p],
      cr_ack = True, cr_closeNow = False\<rparr>"
    using acked_handler [OF assms] by blast
  from read_chunks_prefix [OF cs] obtain rest where rest: "rbuf s1 = concat (map chunk_bytes cs) @ rest"
      "ReadChunk (s1\<lparr>rbuf := rest\<rparr>) = Inl EOF"
    by blast
  have wire: "rbuf stream = preamble_bytes pre @ rbuf s1" "rend s1 = rend stream"
    using preamble_wire.dec_sound [OF pre] by auto
  have starts: "arrived (start_ops env pre) = []" "path_reports (start_ops env pre) = []"
    by (simp_all add: start_ops_def split: preamble.split)
  have "s1\<lparr>rbuf := rest\<rparr> = stream\<lparr>rbuf := rest\<rparr>"
    using wire(2) by (simp add: rstream.equality)
  with ReadChunk_Inl_EOF [OF rest(2)] wire rest(1) p res starts show ?thesis
    by (intro exI [of _ pre] exI [of _ cs] exI [of _ rest] exI [of _ p]) auto
qed

lemma drain_ack_sound_example:
  "\<exists>env res p. handleConn env \<lparr>rbuf = preamble_bytes (PreHello \<lparr>ph_SessionID = 7, ph_PathIndex = 1\<rparr>), rend = EOF\<rparr>
      = Some res \<and> cr_ack res \<and> path_reports (cr_ops res) = [p] \<and> report_of p (arrived (cr_ops res))"
proof -
  let ?pre = "PreHello \<lparr>ph_SessionID = 7, ph_PathIndex = 1\<rparr>"
  let ?s = "\<lparr>rbuf = preamble_bytes ?pre, rend = EOF\<rparr>"
  let ?env = "\<lparr>ce_local = [], ce_remote = [], ce_wake = ReadyClosed, ce_now = 0, ce_start = 0, ce_end = 0,
      ce_tm = \<lambda>_. (0, 0, 0), ce_ackOk = True\<rparr>"
  have pre: "ReadPreamble ?s = Inr (?pre, \<lparr>rbuf = [], rend = EOF\<rparr>)"
    using preamble_wire.dec_enc_stream [of ?pre ?s "[]"] by simp
  from handleConn_ready [OF pre, of "[]" EOF ?env] obtain res where
    res: "handleConn ?env ?s = Some res" "cr_ack res"
    by auto
  from drain_ack_sound [OF res] obtain p where
    "path_reports (cr_ops res) = [p]" "report_of p (arrived (cr_ops res))"
    by auto
  with res show ?thesis by blast
qed

end
