(* ===== verification/Mpq_EndToEnd.thy ===== *)
theory Mpq_EndToEnd
  imports Mpq_Client Mpq_Sessions "HOL-Library.Multiset"
begin

text \<open>
  Client and server together: what the client's flags make of the server's session, and a
  whole one-shot transfer, from the flags over the send loop, the streams and the handlers,
  in any interleaving, to the verdict.
\<close>

section \<open>Interleavings\<close>

inductive interleave :: "'a list list \<Rightarrow> 'a list \<Rightarrow> bool" where
  il_nil: "\<forall>cs\<in>set css. cs = [] \<Longrightarrow> interleave css []"
| il_step: "k < length css \<Longrightarrow> css ! k = x # xs \<Longrightarrow> interleave (css[k := xs]) ys \<Longrightarrow> interleave css (x # ys)"

lemma interleave_mset: "interleave css ops \<Longrightarrow> mset ops = mset (concat css)"
proof (induction rule: interleave.induct)
  case (il_nil css)
  then have "concat css = []" by (simp add: concat_eq_Nil_conv)
  then show ?case by (simp only: mset.simps)
next
  case (il_step k css x xs ys)
  have "css = take k css @ (x # xs) # drop (Suc k) css"
    using id_take_nth_drop [OF il_step.hyps(1)] il_step.hyps(2) by simp
  moreover have "css[k := xs] = take k css @ xs # drop (Suc k) css"
    using il_step.hyps(1) by (rule upd_conv_take_nth_drop)
  ultimately have "mset (concat css) = add_mset x (mset (concat (css[k := xs])))"
    by (metis (no_types, lifting) add_mset_add_single concat.simps(2) concat_append mset.simps(2) mset_append
        union_mset_add_mset_left union_mset_add_mset_right append_Cons)
  with il_step.IH show ?case by simp
qed

section \<open>Runs that cannot fail\<close>

lemma session_run_Cons:
  assumes "op_enabled op s" and "op_exec op s = Inr s1" and "session_run s1 ops s2"
  shows "session_run s (op # ops) s2"
  using session_run_append [OF assms(3) sr_op [OF sr_nil assms(1,2)]] by simp

text \<open>The operations of handlers that receive intact chunks of the payload.\<close>

fun intact_op :: "byte list \<Rightarrow> nat \<Rightarrow> session_op \<Rightarrow> bool" where
  "intact_op data sz OpReady = True"
| "intact_op data sz (OpChunk i c t1 t2 t3) = (VerifyChecksum c \<and> payload_chunk data sz c)"
| "intact_op data sz (OpPathDone p) = True"
| "intact_op data sz _ = False"

definition receiving :: "byte list \<Rightarrow> nat \<Rightarrow> serverSession \<Rightarrow> bool" where
  "receiving data sz s \<longleftrightarrow> ss_readyClosed s \<and> ss_burstTracker s = None \<and>
     (\<exists>r. ss_reassembler s = Some r \<and> holds_payload data sz r)"

lemma receiving_chunk:
  assumes "receiving data sz s" and "VerifyChecksum c" and "payload_chunk data sz c"
  shows "\<exists>s'. handle_chunk i c t1 t2 t3 s = Inr s' \<and> receiving data sz s' \<and> ss_wg s' = ss_wg s
    \<and> ss_waiting s' = ss_waiting s \<and> ss_ctrl s' = ss_ctrl s"
proof -
  obtain r where r: "ss_reassembler s = Some r" "holds_payload data sz r"
    using assms(1) by (auto simp: receiving_def)
  obtain b r' where w: "Reassembler_Write c r = Inr (b, r')" "holds_payload data sz r'"
    using holds_payload_write [OF r(2) assms(3)] by blast
  show ?thesis
    using assms(1,2) r w
    by (auto simp: receiving_def handle_chunk_def route_chunk_def log_delivery_def Let_def split: option.splits)
qed

lemma intact_run:
  assumes "receiving data sz s" and "list_all (intact_op data sz) ops"
    and "int (length (path_reports ops)) \<le> ss_wg s"
  shows "\<exists>s'. session_run s ops s' \<and> receiving data sz s' \<and> ss_waiting s' = ss_waiting s \<and> ss_ctrl s' = ss_ctrl s"
  using assms
proof (induction ops arbitrary: s)
  case Nil
  then show ?case by (blast intro: sr_nil)
next
  case (Cons op ops)
  have "\<exists>s1. op_enabled op s \<and> op_exec op s = Inr s1 \<and> receiving data sz s1
      \<and> int (length (path_reports ops)) \<le> ss_wg s1 \<and> ss_waiting s1 = ss_waiting s \<and> ss_ctrl s1 = ss_ctrl s"
  proof (cases op)
    case OpReady
    with Cons.prems show ?thesis by (auto simp: receiving_def)
  next
    case (OpChunk i c t1 t2 t3)
    with Cons.prems receiving_chunk [OF Cons.prems(1), of c i t1 t2 t3] show ?thesis by auto
  next
    case (OpPathDone p)
    with Cons.prems show ?thesis
      by (auto simp: pathDone_def Let_def receiving_def)
  qed (use Cons.prems in auto)
  then obtain s1 where s1: "op_enabled op s" "op_exec op s = Inr s1" "receiving data sz s1"
      "int (length (path_reports ops)) \<le> ss_wg s1" "ss_waiting s1 = ss_waiting s" "ss_ctrl s1 = ss_ctrl s"
    by blast
  with Cons.IH [OF s1(3)] Cons.prems(2) obtain s2 where "session_run s1 ops s2" "receiving data sz s2"
      "ss_waiting s2 = ss_waiting s" "ss_ctrl s2 = ss_ctrl s"
    by auto
  with session_run_Cons [OF s1(1,2)] show ?case by blast
qed

text \<open>A session that has just started on a header that announces the payload.\<close>

lemma receiving_start:
  assumes "ch_TotalSize ctrl = len_u64 data" and "data \<noteq> []" and "length data \<le> max_alloc"
    and "Split data (ch_ChunkSize ctrl) b bb = Some chunks"
  shows "\<exists>s. session_start ctrl now (new_session sid every) = Inr s \<and> ss_ctrl s = Some ctrl \<and>
    receiving data (unat (effective_chunk_size data (ch_ChunkSize ctrl))) s \<and> ss_waiting s \<and>
    ss_wg s = uint (ch_NumPaths ctrl)"
proof -
  let ?cs = "effective_chunk_size data (ch_ChunkSize ctrl)"
  have len: "unat (len_u64 data) = length data"
    using assms(3) by (simp add: unat_len_u64 max_alloc_def)
  then have nz: "len_u64 data \<noteq> 0"
    using assms(2) by auto
  have "?cs \<noteq> 0"
    using assms(2,4) Split_None_iff [of data "ch_ChunkSize ctrl" b bb] by auto
  then obtain r where r: "NewReassembler (len_u64 data) (ch_ChunkSize ctrl) = Inr r" "r_chunkSize r = ?cs"
    using len assms(3) by (auto simp: NewReassembler_Inr_iff chunk_sizes_agree Let_def)
  then have "holds_payload data (unat ?cs) r"
    using holds_payload_new [OF r(1), of data] len by simp
  with r nz assms(1) show ?thesis
    by (simp add: session_start_def new_session_def Let_def receiving_def)
qed

section \<open>What the handlers contribute\<close>

definition is_start :: "session_op \<Rightarrow> bool" where
  "is_start op = (case op of OpStart ctrl t \<Rightarrow> True | _ \<Rightarrow> False)"

lemma is_start_simps [simp]:
  "is_start (OpStart ctrl t)" "\<not> is_start OpReady" "\<not> is_start (OpChunk i c t1 t2 t3)"
  "\<not> is_start (OpPathDone p)"
  by (simp_all add: is_start_def)

lemma chunk_ops_set:
  "op \<in> set (chunk_ops i tm k cs) \<Longrightarrow> \<exists>c t1 t2 t3. op = OpChunk i c t1 t2 t3 \<and> c \<in> set cs"
  by (induction cs arbitrary: k) (fastforce split: prod.splits)+

lemma mset_path_reports:
  "mset xs = mset ys \<Longrightarrow> mset (path_reports xs) = mset (path_reports ys)"
  by (simp add: path_reports_def map_filter_def mset_map)

lemma set_arrived: "set (arrived ops) = {c. \<exists>i t1 t2 t3. OpChunk i c t1 t2 t3 \<in> set ops}"
  by (induction ops) (auto split: session_op.splits)

lemma path_reports_concat: "path_reports (concat css) = concat (map path_reports css)"
  by (induction css) simp_all

lemma arrived_concat: "arrived (concat css) = concat (map arrived css)"
  by (induction css) simp_all

definition handler_result :: "conn_env \<Rightarrow> preamble \<Rightarrow> Chunk list \<Rightarrow> PathStats \<Rightarrow> conn_result" where
  "handler_result env pre cs p =
     \<lparr>cr_session = preamble_session pre, cr_path = preamble_path pre,
      cr_ops = start_ops env pre @ OpReady # chunk_ops (preamble_path pre) (ce_tm env) 0 cs @ [OpPathDone p],
      cr_ack = ce_ackOk env, cr_closeNow = \<not> ce_ackOk env\<rparr>"

lemma handler_complete:
  assumes "preamble_ok pre" and "list_all chunk_ok cs" and "ce_ready env"
  shows "\<exists>p. report_of p cs \<and>
    handleConn env \<lparr>rbuf = preamble_bytes pre @ concat (map chunk_bytes cs), rend = EOF\<rparr>
      = Some (handler_result env pre cs p)"
proof -
  let ?s = "\<lparr>rbuf = preamble_bytes pre @ concat (map chunk_bytes cs), rend = EOF\<rparr>"
  have "ReadPreamble ?s = Inr (pre, \<lparr>rbuf = concat (map chunk_bytes cs), rend = EOF\<rparr>)"
    using preamble_wire.dec_enc_stream [OF assms(1), of ?s "concat (map chunk_bytes cs)"] by simp
  from handleConn_ready [OF this read_chunks_written [OF assms(2)] assms(3)] show ?thesis
    by (auto simp: handler_result_def)
qed


section \<open>Setting up\<close>

lemma scheduler_Get_name:
  "scheduler_Get name schedulers = Inr s \<Longrightarrow> name \<in> {''roundrobin'', ''redundant'', ''rtt-aware''}"
  by (auto simp: scheduler_Get_def schedulers_def scheduler_Register_def split: if_splits)

lemma split_commas_neq_Nil [simp]: "split_commas s \<noteq> []"
  by (induction s) (auto split: list.splits)

lemma client_setup_plan:
  assumes "client_setup f sid = Inr pl"
  shows "pl_locals pl \<noteq> []" and "length (pl_ccNames pl) = length (pl_locals pl)"
    and "length (ch_Scheduler (pl_ctrl pl)) < 2 ^ 16" and "ch_SessionID (pl_ctrl pl) = sid"
    and "ch_TotalSize (pl_ctrl pl) = (if fl_continuous f then 0 else fl_size f)"
    and "ch_NumPaths (pl_ctrl pl) = of_nat (length (pl_locals pl))"
    and "ch_ChunkSize (pl_ctrl pl) = ucast (fl_chunkSize f)"
  using assms scheduler_Get_name [of "fl_scheduler f"]
  by (auto simp: client_setup_def expandCC_def parseLocals_def Let_def split: if_splits sum.splits)

lemma preamble_sent:
  assumes "send_preamble ctrl k \<lparr>wout = [], wstat = Healthy\<rparr> = (None, w)"
  shows "w = \<lparr>wout = preamble_bytes (path_preamble ctrl k), wstat = Healthy\<rparr>"
  using assms by (auto simp: send_preamble_def path_preamble_def WriteControlHeader_healthy
      WritePathHello_healthy split: if_splits)

lemma path_preamble_facts:
  assumes "length (ch_Scheduler ctrl) < 2 ^ 16"
  shows "preamble_ok (path_preamble ctrl k)" and "preamble_session (path_preamble ctrl k) = ch_SessionID ctrl"
    and "start_ops env (path_preamble ctrl k) = (if k = 0 then [OpStart ctrl (ce_now env)] else [])"
  using assms by (simp_all add: path_preamble_def preamble_session_def start_ops_def)

section \<open>A whole transfer\<close>

text \<open>
  The operations of the handlers of all paths, when path \<open>k\<close> carried the chunks \<open>css ! k\<close>.
\<close>

definition handler_did ::
  "ControlHeader \<Rightarrow> (nat \<Rightarrow> conn_env) \<Rightarrow> nat \<Rightarrow> Chunk list \<Rightarrow> session_op list \<Rightarrow> bool" where
  "handler_did ctrl env k cs ops \<longleftrightarrow>
     (\<exists>p. report_of p cs \<and>
        ops = (if k = 0 then [OpStart ctrl (ce_now (env 0))] else []) @ OpReady #
          chunk_ops (preamble_path (path_preamble ctrl k)) (ce_tm (env k)) 0 cs @ [OpPathDone p])"

definition handlers_did ::
  "ControlHeader \<Rightarrow> (nat \<Rightarrow> conn_env) \<Rightarrow> Chunk list list \<Rightarrow> session_op list list \<Rightarrow> bool" where
  "handlers_did ctrl env css opss \<longleftrightarrow> length opss = length css \<and>
     (\<forall>k<length css. handler_did ctrl env k (css ! k) (opss ! k))"

text \<open>What a handler did with the complete stream of a path.\<close>

lemma path_handled:
  assumes "length (ch_Scheduler ctrl) < 2 ^ 16" and "list_all chunk_ok cs" and "ce_ready (env k)"
    and "handleConn (env k) \<lparr>rbuf = preamble_bytes (path_preamble ctrl k) @ concat (map chunk_bytes cs), rend = EOF\<rparr>
      = Some res"
  shows "handler_did ctrl env k cs (cr_ops res) \<and> cr_session res = ch_SessionID ctrl \<and>
    cr_ack res = ce_ackOk (env k)"
proof -
  note pre = path_preamble_facts [OF assms(1)]
  obtain p where p: "report_of p cs" "res = handler_result (env k) (path_preamble ctrl k) cs p"
    using handler_complete [OF pre(1) [of k] assms(2,3)] assms(4) by auto
  then show ?thesis
    by (auto simp: handler_did_def handler_result_def pre)
qed

lemma sum_corrupted_zero: "\<forall>p\<in>set ps. ps_ChunksCorrupted p = 0 \<Longrightarrow> sum_corrupted ps = 0"
  unfolding sum_corrupted_def by (induction ps) auto

lemma handlers_did_facts:
  assumes "handlers_did ctrl env css opss" and "\<forall>cs\<in>set css. list_all VerifyChecksum cs"
  shows "arrived (concat opss) = concat css"
    and "length (path_reports (concat opss)) = length css"
    and "\<forall>p\<in>set (path_reports (concat opss)). ps_ChunksCorrupted p = 0"
proof -
  have len: "length opss = length css"
    using assms(1) by (simp add: handlers_did_def)
  have each: "arrived (opss ! k) = css ! k \<and>
      (\<exists>p. path_reports (opss ! k) = [p] \<and> ps_ChunksCorrupted p = 0)" if "k < length css" for k
  proof -
    have "handler_did ctrl env k (css ! k) (opss ! k)"
      using assms(1) that by (simp add: handlers_did_def)
    then obtain p where p: "report_of p (css ! k)" and
      ops: "opss ! k = (if k = 0 then [OpStart ctrl (ce_now (env 0))] else []) @ OpReady #
          chunk_ops (preamble_path (path_preamble ctrl k)) (ce_tm (env k)) 0 (css ! k) @ [OpPathDone p]"
      unfolding handler_did_def by (elim exE conjE) (rule that)
    have "list_all VerifyChecksum (css ! k)"
      using assms(2) that by simp
    then have "filter (\<lambda>c. \<not> VerifyChecksum c) (css ! k) = []"
      by (simp add: list_all_iff filter_empty_conv)
    with p show ?thesis
      by (simp add: ops report_of_def)
  qed
  have "map arrived opss = css"
    using each len by (intro nth_equalityI) simp_all
  then show "arrived (concat opss) = concat css"
    by (simp add: arrived_concat)
  have one: "length (path_reports ops) = 1 \<and> (\<forall>p\<in>set (path_reports ops). ps_ChunksCorrupted p = 0)"
    if ops: "ops \<in> set opss" for ops
    using each len ops by (force simp: in_set_conv_nth)
  then have "map (\<lambda>ops. length (path_reports ops)) opss = map (\<lambda>_. 1) opss"
    by (intro map_cong) simp_all
  then have "sum_list (map (\<lambda>ops. length (path_reports ops)) opss) = sum_list (map (\<lambda>_. 1) opss)"
    by (rule arg_cong [where f = sum_list])
  then show "length (path_reports (concat opss)) = length css"
    by (simp add: path_reports_concat length_concat comp_def sum_list_triv len)
  show "\<forall>p\<in>set (path_reports (concat opss)). ps_ChunksCorrupted p = 0"
    using one by (auto simp: path_reports_concat)
qed

text \<open>Apart from the one start, all operations are about intact chunks of the payload.\<close>

lemma handlers_did_intact:
  assumes did: "handlers_did ctrl env css opss" and ne: "css \<noteq> []"
    and pay: "\<forall>cs\<in>set css. \<forall>c\<in>set cs. VerifyChecksum c \<and> payload_chunk data sz c"
    and mix: "mset (op # rest) = mset (concat opss)" and st: "is_start op"
  shows "op = OpStart ctrl (ce_now (env 0))" and "list_all (intact_op data sz) rest"
proof -
  have kinds: "x = OpStart ctrl (ce_now (env 0)) \<or> intact_op data sz x" if "x \<in> set (concat opss)" for x
  proof -
    obtain k where k: "k < length css" "x \<in> set (opss ! k)"
    proof -
      obtain ops where "ops \<in> set opss" "x \<in> set ops"
        using \<open>x \<in> set (concat opss)\<close> by auto
      then show thesis
        using that did by (auto simp: handlers_did_def in_set_conv_nth)
    qed
    then have "handler_did ctrl env k (css ! k) (opss ! k)" and "css ! k \<in> set css"
      using did by (simp_all add: handlers_did_def)
    then show ?thesis
      using k(2) pay by (auto simp: handler_did_def split: if_splits dest!: chunk_ops_set)
  qed
  have set: "set (op # rest) = set (concat opss)"
    using mix by (metis set_mset_mset)
  have "op \<in> set (concat opss)"
    using set by auto
  with kinds [of op] st show "op = OpStart ctrl (ce_now (env 0))"
    by (cases op) auto
  have starts: "length (filter is_start ops) = (if k = 0 then 1 else 0)" if "k < length css" "ops = opss ! k" for k ops
  proof -
    have "filter is_start (chunk_ops i tm j cs) = []" for i tm j cs
      by (auto simp: filter_empty_conv dest!: chunk_ops_set)
    moreover have "handler_did ctrl env k (css ! k) ops"
      using did that by (simp add: handlers_did_def)
    ultimately show ?thesis
      by (auto simp: handler_did_def)
  qed
  have "length (filter is_start (concat opss)) = sum_list (map (\<lambda>k. if k = 0 then 1 else 0) [0..<length css])"
  proof -
    have "map (\<lambda>ops. length (filter is_start ops)) opss = map (\<lambda>k. if k = 0 then 1 else 0) [0..<length css]"
      using starts did by (intro nth_equalityI) (auto simp: handlers_did_def)
    then show ?thesis
      by (simp add: filter_concat length_concat comp_def)
  qed
  also have "\<dots> = 1"
    using ne by (simp add: interv_sum_list_conv_sum_set_nat sum.delta)
  also have "length (filter is_start (concat opss)) = size (filter_mset is_start (mset (op # rest)))"
    unfolding mix by (simp only: mset_filter [symmetric] size_mset)
  finally have "filter is_start rest = []"
    using st by (simp flip: mset_filter)
  then have "\<not> is_start x" if "x \<in> set rest" for x
    using that by (auto simp: filter_empty_conv)
  moreover have "x \<in> set (concat opss)" if "x \<in> set rest" for x
    using set that by auto
  ultimately show "list_all (intact_op data sz) rest"
    using kinds by (fastforce simp: list_all_iff)
qed

text \<open>What the client stamps is intact and part of its payload.\<close>

lemma stamped_payload:
  assumes "Split data cs b bb = Some chunks" and "data \<noteq> []" and "length data \<le> max_alloc" and "c \<in> stamp ` set chunks"
  shows "VerifyChecksum c \<and> payload_chunk data (unat (effective_chunk_size data cs)) c"
proof -
  have "effective_chunk_size data cs \<noteq> 0"
    using assms(1,2) Split_None_iff [of data cs b bb] by auto
  then have pos: "0 < unat (effective_chunk_size data cs)"
    and chunks: "chunks = split_list data (unat (effective_chunk_size data cs)) b bb"
    using assms(1) by (simp_all add: Split_eq_split_list unat_gt_0)
  show ?thesis
    using payload_chunk_nth(1) [OF pos assms(3)] assms(4) by (auto simp: chunks split_list_def)
qed

text \<open>The session that runs these operations in any interleaving ends with a good verdict.\<close>

lemma handlers_verdict:
  assumes did: "handlers_did ctrl env css opss" and ne: "css \<noteq> []" and n: "uint (ch_NumPaths ctrl) = int (length css)"
    and ctrl: "ch_TotalSize ctrl = len_u64 data" "data \<noteq> []" "length data \<le> max_alloc"
    and split: "Split data (ch_ChunkSize ctrl) b bb = Some chunks"
    and all: "set (concat css) = stamp ` set chunks"
    and mix: "mset (op # rest) = mset (concat opss)" and st: "is_start op"
  shows "\<exists>s s' r. session_run (new_session sid every) (op # rest) s \<and> op_enabled (OpWait now order ps) s \<and>
    op_exec (OpWait now order ps) s = Inr s' \<and> ss_results s' = [r] \<and> rr_IntegrityOK r \<and>
    length (rr_Paths r) = length css \<and> map_option Reassembler_Bytes (ss_reassembler s') = Some data"
proof -
  let ?sz = "unat (effective_chunk_size data (ch_ChunkSize ctrl))"
  have pay: "\<forall>cs\<in>set css. \<forall>c\<in>set cs. VerifyChecksum c \<and> payload_chunk data ?sz c"
  proof (intro ballI)
    fix cs c
    assume "cs \<in> set css" "c \<in> set cs"
    then have "c \<in> stamp ` set chunks"
      using all by auto
    then show "VerifyChecksum c \<and> payload_chunk data ?sz c"
      by (rule stamped_payload [OF split ctrl(2,3)])
  qed
  then have ok: "\<forall>cs\<in>set css. list_all VerifyChecksum cs"
    by (simp add: list_all_iff)
  note facts = handlers_did_facts [OF did ok]
  note op = handlers_did_intact [OF did ne pay mix st]
  have reports: "mset (path_reports (op # rest)) = mset (path_reports (concat opss))"
    by (rule mset_path_reports [OF mix])
  have "set (arrived (op # rest)) = set (arrived (concat opss))"
    unfolding set_arrived mset_eq_setD [OF mix] ..
  then have arr: "set (arrived (op # rest)) = set (concat css)"
    by (simp only: facts(1))
  obtain s1 where s1: "session_start ctrl (ce_now (env 0)) (new_session sid every) = Inr s1" "ss_ctrl s1 = Some ctrl"
      "receiving data ?sz s1" "ss_waiting s1" "ss_wg s1 = int (length css)"
    using receiving_start [OF ctrl split, of "ce_now (env 0)" sid every] n by auto
  have "length (path_reports rest) = length css"
    using mset_eq_length [OF reports] facts(2) op(1) by simp
  then obtain s where s: "session_run s1 rest s" "receiving data ?sz s" "ss_waiting s" "ss_ctrl s = Some ctrl"
    using intact_run [OF s1(3) op(2)] s1 by auto
  have run: "session_run (new_session sid every) (op # rest) s"
    by (rule session_run_Cons [OF _ _ s(1)]) (use s1(1) op(1) in auto)
  have len: "length (path_reports (op # rest)) = length css"
    using mset_eq_length [OF reports] facts(2) by simp
  have "session_count s" and "ss_pathResults s = path_reports (op # rest)"
    using session_run_records [OF run] unfolding session_inv_def session_records_def by blast+
  then have "ss_wg s = 0"
    using s(4) n len by (simp only: session_count_def option.case) linarith
  then have en: "op_enabled (OpWait now order ps) s"
    using s by (simp add: receiving_def enumerates_bursts_def)
  have good: "set (good_arrivals (op # rest)) = stamp ` set chunks"
    using arr all by (auto simp: good_arrivals_def)
  have "\<forall>p\<in>set (path_reports (op # rest)). ps_ChunksCorrupted p = 0"
    using facts(3) mset_eq_setD [OF reports] by simp
  then have "sum_corrupted (path_reports (op # rest)) = 0"
    by (rule sum_corrupted_zero)
  note clean = this
  obtain s' r where v: "op_exec (OpWait now order ps) s = Inr s'" "ss_results s' = [r]"
    "rr_Paths r = path_reports (op # rest)"
    "rr_IntegrityOK r \<longleftrightarrow> sum_corrupted (path_reports (op # rest)) = 0
        \<and> set (good_arrivals (op # rest)) = stamp ` set chunks"
    "rr_IntegrityOK r \<longrightarrow> map_option Reassembler_Bytes (ss_reassembler s') = Some data"
    using session_verdict [OF run s(4) ctrl split equalityD1 [OF good] en] by (elim exE conjE) (rule that)
  have "rr_IntegrityOK r"
    unfolding v(4) using clean good by (rule conjI)
  with v run en len show ?thesis
    by (intro exI [of _ s] exI [of _ s'] exI [of _ r] conjI) simp_all
qed

text \<open>Every chunk was assigned to a path, so all of them were on the wire.\<close>

lemma assigned_cover:
  assumes "assignment_ok n full"
  shows "set (concat (map (\<lambda>k. map stamp (assigned_to k full)) [0..<n])) = stamp ` set (map fst full)"
proof -
  have "c \<in> (\<Union>k<n. set (assigned_to k full)) \<longleftrightarrow> c \<in> set (map fst full)" for c
  proof
    assume "c \<in> set (map fst full)"
    then obtain idxs where m: "(c, idxs) \<in> set full"
      by auto
    with assms have "idxs \<noteq> [] \<and> set idxs \<subseteq> int ` {..<n}"
      by (auto simp: assignment_ok_def)
    then obtain i where "i \<in> set idxs" "i \<in> int ` {..<n}"
      by (cases idxs) auto
    with m show "c \<in> (\<Union>k<n. set (assigned_to k full))"
      by (force simp: assigned_to_def)
  qed (auto simp: assigned_to_def)
  then have "(\<Union>k<n. set (assigned_to k full)) = set (map fst full)"
    by blast
  then show ?thesis
    by (simp add: atLeast0LessThan flip: image_UN)
qed

lemma chunks_fit:
  assumes "Split data cs b bb = Some chunks" and "data \<noteq> []" and "c \<in> set chunks"
  shows "chunk_ok (stamp c)"
proof -
  have "effective_chunk_size data cs \<noteq> 0"
    using assms(1,2) Split_None_iff [of data cs b bb] by auto
  moreover have "unat (effective_chunk_size data cs) < 2 ^ 32"
    using unsigned_less [of "effective_chunk_size data cs"] by simp
  ultimately show ?thesis
    using assms(1,3) by (auto simp: Split_eq_split_list split_list_def chunk_ok_def nth_chunk_def)
qed

section \<open>Properties\<close>

text \<open>
  C29: the client's flags decide the server's mode.  When the client accepts its flags it has
  at least one path, one congestion control name per path and a header that can be sent,
  which announces as many paths; and the session the server starts on that header is a
  continuous one exactly when continuous mode was asked for or a size of zero was given.
\<close>

theorem client_flags_decide_mode:
  assumes "client_setup f sid = Inr pl" and "length (pl_locals pl) < 2 ^ 32"
    and "session_start (pl_ctrl pl) now (new_session sid every) = Inr s"
  shows "0 < length (pl_locals pl) \<and> length (pl_ccNames pl) = length (pl_locals pl)
    \<and> ss_wg s = int (length (pl_locals pl))
    \<and> (\<forall>k. preamble_ok (path_preamble (pl_ctrl pl) k))
    \<and> (ss_burstTracker s \<noteq> None \<longleftrightarrow> fl_continuous f \<or> fl_size f = 0)"
proof -
  note plan = client_setup_plan [OF assms(1)]
  have "uint (ch_NumPaths (pl_ctrl pl)) = int (length (pl_locals pl))"
    using assms(2) by (simp add: plan(6) uint_nat unat_of_nat)
  then show ?thesis
    using plan path_preamble_facts(1) [OF plan(3)] assms(3)
    by (auto simp: session_start_def new_session_def Let_def split: if_splits sum.splits)
qed


theorem client_flags_decide_mode_witness:
  "\<exists>pl s. client_setup \<lparr>fl_server = ''h:1'', fl_local = ''a, b'', fl_size = 0, fl_chunkSize = 4,
        fl_scheduler = ''redundant'', fl_cc = ''cubic'', fl_continuous = False, fl_burstMinSize = 0,
        fl_burstMaxSize = 0, fl_burstInterval = 1, fl_progressInterval = 1\<rparr> 5 = Inr pl \<and>
     session_start (pl_ctrl pl) 0 (new_session 5 0) = Inr s \<and> ss_burstTracker s \<noteq> None"
proof -
  let ?f = "\<lparr>fl_server = ''h:1'', fl_local = ''a, b'', fl_size = 0, fl_chunkSize = 4,
        fl_scheduler = ''redundant'', fl_cc = ''cubic'', fl_continuous = False, fl_burstMinSize = 0,
        fl_burstMaxSize = 0, fl_burstInterval = 1, fl_progressInterval = 1\<rparr>"
  have cc: "split_commas ''cubic'' = [''cubic'']"
    by simp
  have sch: "scheduler_Get ''redundant'' schedulers = Inr Redundant"
    by (simp add: scheduler_Get_def schedulers_def scheduler_Register_def)
  obtain pl where pl: "client_setup ?f 5 = Inr pl"
    by (simp add: client_setup_def expandCC_def Let_def cc sch)
  have "split_commas ''a, b'' = [''a'', '' b'']"
    by simp
  moreover have "TrimSpace ''a, b'' \<noteq> []"
    by (simp add: TrimSpace_def trim_left.simps trim_right_rev.simps space_prefix_def space_suffix_def)
  ultimately have loc: "length (parseLocals ''a, b'') = 2"
    by (simp add: parseLocals_def)
  have len: "length (pl_locals pl) < 2 ^ 32" and tot: "ch_TotalSize (pl_ctrl pl) = 0"
    using pl by (auto simp: client_setup_def expandCC_def Let_def cc sch loc)
  then obtain s where s: "session_start (pl_ctrl pl) 0 (new_session 5 0) = Inr s"
    by (simp add: session_start_def new_session_def Let_def)
  from client_flags_decide_mode [OF pl len s] pl s show ?thesis
    by auto
qed

text \<open>What the handlers of all paths do with what the send loop wrote.\<close>

lemma transfer_handled:
  assumes accepted: "client_setup f sid = Inr pl"
    and data: "data \<noteq> []"
    and paths: "paths_wf paths" "length paths = length (pl_locals pl)" "length paths < 2 ^ 32"
    and preambles: "\<forall>k<length paths. send_preamble (pl_ctrl pl) k \<lparr>wout = [], wstat = Healthy\<rparr>
                      = (None, pc_stream (paths ! k))"
    and split: "Split data (ucast (fl_chunkSize f)) 0 (fl_size f) = Some chunks"
    and sent: "send_step\<^sup>*\<^sup>* (send_init chunks paths (pl_sched pl) progress) st" "send_final st"
    and received: "length results = length paths"
      "\<forall>k<length paths. ce_ready (env k) \<and>
         handleConn (env k) \<lparr>rbuf = wout (pc_stream (sd_paths st ! k)), rend = EOF\<rparr> = Some (results ! k)"
  shows "\<exists>css. length css = length paths \<and> set (concat css) = stamp ` set chunks \<and>
    handlers_did (pl_ctrl pl) env css (map cr_ops results) \<and>
    (\<forall>k<length paths. cr_session (results ! k) = sid \<and> cr_ack (results ! k) = ce_ackOk (env k))"
proof -
  let ?ctrl = "pl_ctrl pl" and ?n = "length paths"
  note plan = client_setup_plan [OF accepted]
  have stream: "pc_stream (paths ! k) = \<lparr>wout = preamble_bytes (path_preamble ?ctrl k), wstat = Healthy\<rparr>"
    if "k < ?n" for k
    using preambles that preamble_sent by blast
  have "\<forall>pc\<in>set paths. wstat (pc_stream pc) = Healthy"
    using stream by (auto simp: in_set_conv_nth)
  from send_delivered [OF paths(1) sent this] obtain full where full: "map fst full = chunks"
      "assignment_ok ?n full"
    and wire: "\<forall>k<?n. let cs = assigned_to k full; pc = paths ! k; pc' = sd_paths st ! k in
        pc_stream pc' = (pc_stream pc)\<lparr>wout := wout (pc_stream pc) @ concat (map (\<lambda>c. chunk_bytes (stamp c)) cs)\<rparr> \<and>
        pc_bytesSent pc' = pc_bytesSent pc + of_nat (sum_list (map (\<lambda>c. length (c_Data c)) cs)) \<and>
        pc_chunksSent pc' = pc_chunksSent pc + int (length cs)"
    by (elim exE conjE) (rule that)
  let ?css = "map (\<lambda>k. map stamp (assigned_to k full)) [0..<?n]"
  have cover: "set (concat ?css) = stamp ` set chunks"
    using assigned_cover [OF full(2)] full(1) by simp
  have handler: "handler_did ?ctrl env k (?css ! k) (cr_ops (results ! k)) \<and>
      cr_session (results ! k) = sid \<and> cr_ack (results ! k) = ce_ackOk (env k)"
    if k: "k < ?n" for k
  proof -
    have "list_all chunk_ok (map stamp (assigned_to k full))"
      using chunks_fit [OF split data] full(1) by (force simp: list_all_iff assigned_to_def)
    moreover have "wout (pc_stream (sd_paths st ! k))
        = preamble_bytes (path_preamble ?ctrl k) @ concat (map chunk_bytes (map stamp (assigned_to k full)))"
      using wire k stream [OF k] by (simp add: Let_def comp_def)
    ultimately have "handler_did ?ctrl env k (map stamp (assigned_to k full)) (cr_ops (results ! k)) \<and>
        cr_session (results ! k) = ch_SessionID ?ctrl \<and> cr_ack (results ! k) = ce_ackOk (env k)"
      using received(2) k by (intro path_handled plan(3)) auto
    with k plan(4) show ?thesis
      by simp
  qed
  have did: "handlers_did ?ctrl env ?css (map cr_ops results)"
    using handler received(1) by (simp add: handlers_did_def)
  show ?thesis
    using did cover handler by (intro exI [of _ ?css]) auto
qed

text \<open>The verdict on a payload whose paths were handed over with their preambles written.\<close>

lemma transfer_verdict:
  assumes accepted: "client_setup f sid = Inr pl" "\<not> fl_continuous f" "fl_size f = len_u64 data"
    and data: "data \<noteq> []" "length data \<le> max_alloc"
    and paths: "paths_wf paths" "length paths = length (pl_locals pl)" "length paths < 2 ^ 32"
    and preambles: "\<forall>k<length paths. send_preamble (pl_ctrl pl) k \<lparr>wout = [], wstat = Healthy\<rparr>
                      = (None, pc_stream (paths ! k))"
    and split: "Split data (ucast (fl_chunkSize f)) 0 (fl_size f) = Some chunks"
    and sent: "send_step\<^sup>*\<^sup>* (send_init chunks paths (pl_sched pl) progress) st" "send_final st"
    and received: "length results = length paths"
      "\<forall>k<length paths. ce_ready (env k) \<and>
         handleConn (env k) \<lparr>rbuf = wout (pc_stream (sd_paths st ! k)), rend = EOF\<rparr> = Some (results ! k)"
    and mixed: "interleave (map cr_ops results) (op # rest)" "is_start op"
  shows "(\<forall>k<length paths. cr_session (results ! k) = sid \<and> cr_ack (results ! k) = ce_ackOk (env k)) \<and>
    (\<exists>s s' r. session_run (new_session sid every) (op # rest) s \<and>
       op_enabled (OpWait now order ps) s \<and> op_exec (OpWait now order ps) s = Inr s' \<and>
       ss_results s' = [r] \<and> rr_IntegrityOK r \<and> length (rr_Paths r) = length paths \<and>
       map_option Reassembler_Bytes (ss_reassembler s') = Some data)"
proof -
  let ?ctrl = "pl_ctrl pl"
  note plan = client_setup_plan [OF accepted(1)]
  obtain css where css: "length css = length paths" "set (concat css) = stamp ` set chunks"
      "handlers_did ?ctrl env css (map cr_ops results)"
      "\<forall>k<length paths. cr_session (results ! k) = sid \<and> cr_ack (results ! k) = ce_ackOk (env k)"
    using transfer_handled [OF accepted(1) data(1) paths preambles split sent received] by blast
  have n: "uint (ch_NumPaths ?ctrl) = int (length css)"
    using paths(2,3) css(1) by (simp add: plan(6) uint_nat unat_of_nat)
  have "css \<noteq> []"
    using plan(1) paths(2) css(1) by auto
  from handlers_verdict [OF css(3) this n _ data _ css(2) interleave_mset [OF mixed(1)] mixed(2)]
    accepted plan split css show ?thesis
    by (auto simp: in_set_conv_nth)
qed


text \<open>One path suffices for the witness: its handler's operations are the only interleaving.\<close>

lemma interleave_one: "interleave [ops] ops"
proof (induction ops)
  case Nil
  show ?case by (rule il_nil) simp
next
  case (Cons x xs)
  then show ?case by (intro il_step [of 0 _ x xs]) simp_all
qed

definition sample_flags :: flags where
  "sample_flags = \<lparr>fl_server = ''h:1'', fl_local = [], fl_size = 2, fl_chunkSize = 1,
     fl_scheduler = ''roundrobin'', fl_cc = ''cubic'', fl_continuous = False, fl_burstMinSize = 0,
     fl_burstMaxSize = 0, fl_burstInterval = 1, fl_progressInterval = 1\<rparr>"

definition sample_env :: conn_env where
  "sample_env = \<lparr>ce_local = [], ce_remote = [], ce_wake = ReadyClosed, ce_now = 0, ce_start = 0, ce_end = 0,
     ce_tm = \<lambda>_. (0, 0, 0), ce_ackOk = True\<rparr>"

definition first_path :: "ControlHeader \<Rightarrow> pathConn" where
  "first_path ctrl = \<lparr>pc_index = 0,
     pc_stream = \<lparr>wout = preamble_bytes (path_preamble ctrl 0), wstat = Healthy\<rparr>,
     pc_ccName = ''cubic'', pc_bytesSent = 0, pc_chunksSent = 0\<rparr>"

lemma sample_setup: "\<exists>pl. client_setup sample_flags 5 = Inr pl \<and> length (pl_locals pl) = 1"
proof -
  have cc: "split_commas ''cubic'' = [''cubic'']"
    by simp
  have sch: "scheduler_Get ''roundrobin'' schedulers = Inr (RoundRobin \<lparr>rr_n = 0\<rparr>)"
    by (simp add: scheduler_Get_def schedulers_def scheduler_Register_def)
  have "parseLocals [] = [[]]"
    by (simp add: parseLocals_def TrimSpace_def trim_left.simps trim_right_rev.simps space_prefix_def space_suffix_def)
  then show ?thesis
    by (simp add: client_setup_def sample_flags_def expandCC_def Let_def cc sch)
qed

text \<open>What the one handler of a one-path transfer did.\<close>

lemma sample_handler:
  assumes pl: "client_setup sample_flags 5 = Inr pl"
    and split: "Split [7, 8] 1 0 2 = Some chunks"
    and st: "send_step\<^sup>*\<^sup>* (send_init chunks [first_path (pl_ctrl pl)] (pl_sched pl) None) st" "send_final st"
  shows "\<exists>res rest. handleConn sample_env \<lparr>rbuf = wout (pc_stream (sd_paths st ! 0)), rend = EOF\<rparr> = Some res \<and>
    cr_ops res = OpStart (pl_ctrl pl) 0 # rest"
proof -
  have wf: "paths_wf [first_path (pl_ctrl pl)]" and healthy: "\<forall>pc\<in>set [first_path (pl_ctrl pl)]. wstat (pc_stream pc) = Healthy"
    by (simp_all add: paths_wf_def first_path_def)
  from send_delivered [OF wf st healthy] obtain full where full: "map fst full = chunks" and
    wire: "wout (pc_stream (sd_paths st ! 0)) = preamble_bytes (path_preamble (pl_ctrl pl) 0)
       @ concat (map chunk_bytes (map stamp (assigned_to 0 full)))"
    by (auto simp: Let_def comp_def first_path_def)
  note pre = path_preamble_facts [OF client_setup_plan(3) [OF pl]]
  have "list_all chunk_ok (map stamp (assigned_to 0 full))"
    using chunks_fit [OF split] full by (force simp: list_all_iff assigned_to_def)
  from handler_complete [OF pre(1) this, of sample_env 0] obtain p where
    "handleConn sample_env \<lparr>rbuf = wout (pc_stream (sd_paths st ! 0)), rend = EOF\<rparr>
       = Some (handler_result sample_env (path_preamble (pl_ctrl pl) 0) (map stamp (assigned_to 0 full)) p)"
    unfolding wire by (auto simp: sample_env_def)
  then show ?thesis
    by (simp add: handler_result_def pre sample_env_def)
qed

end
