(* ===== verification/Mpq_Congestion.thy ===== *)
theory Mpq_Congestion
  imports Mpq_Float "HOL-Library.Signed_Division"
begin

text \<open>
  The congestion controllers the client selects with \<^verbatim>\<open>-cc\<close> drive the sender of the vendored
  QUIC library.  This theory models the parts of \<^verbatim>\<open>third_party/quic-go/congestion\<close> every
  controller is made of: hybrid slow start (\<^verbatim>\<open>hybrid_slow_start.go\<close>), the bandwidth estimate
  (\<^verbatim>\<open>bandwidth.go\<close>) and the token-bucket pacer (\<^verbatim>\<open>pacer.go\<close>), and the NewReno sender
  (\<^verbatim>\<open>cubic_sender.go\<close>, as \<^verbatim>\<open>internal/ccmodules/cubic.go\<close> builds it).
\<close>

section \<open>Integers of 64 bits\<close>

text \<open>
  \<^verbatim>\<open>ByteCount\<close>, \<^verbatim>\<open>PacketNumber\<close>, \<^verbatim>\<open>monotime.Time\<close> and \<^verbatim>\<open>time.Duration\<close> are \<^verbatim>\<open>int64\<close>.  They
  are \<open>int\<close> here; \<open>i64\<close> is the wrap-around of every sum, difference and product.
\<close>

definition i64 :: "int \<Rightarrow> int" where
  "i64 x = signed_take_bit 63 x"

lemma i64_id [simp]: "- (2 ^ 63) \<le> x \<Longrightarrow> x < 2 ^ 63 \<Longrightarrow> i64 x = x"
  by (simp add: i64_def signed_take_bit_int_eq_self)

lemma i64_range: "- (2 ^ 63) \<le> i64 x" "i64 x < 2 ^ 63"
  using signed_take_bit_int_greater_eq_minus_exp [of 63 x] signed_take_bit_int_less_exp [of 63 x]
  by (simp_all add: i64_def)

text \<open>Go's integer division truncates toward zero.\<close>

lemma sdiv_nonneg [simp]: "0 \<le> a \<Longrightarrow> 0 \<le> b \<Longrightarrow> a sdiv b = a div b" for a b :: int
  by (cases "a = 0"; cases "b = 0") (simp_all add: signed_divide_int_def sgn_if)

definition MaxByteCount :: int where "MaxByteCount = 2 ^ 62 - 1"
definition InvalidPacketNumber :: int where "InvalidPacketNumber = -1"
definition InitialPacketSize :: int where "InitialPacketSize = 1280"
definition MaxCongestionWindowPackets :: int where "MaxCongestionWindowPackets = 10000"
definition MinPacingDelay :: int where "MinPacingDelay = 1000000"
definition TimerGranularity :: int where "TimerGranularity = 1000000"

section \<open>Hybrid slow start\<close>

record HybridSlowStart =
  hs_endPacketNumber :: int
  hs_lastSentPacketNumber :: int
  hs_started :: bool
  hs_currentMinRTT :: int
  hs_rttSampleCount :: u32
  hs_hystartFound :: bool

definition new_hybridSlowStart :: HybridSlowStart where
  "new_hybridSlowStart =
     \<lparr>hs_endPacketNumber = 0, hs_lastSentPacketNumber = 0, hs_started = False,
      hs_currentMinRTT = 0, hs_rttSampleCount = 0, hs_hystartFound = False\<rparr>"

definition hybridStartLowWindow :: int where "hybridStartLowWindow = 16"
definition hybridStartMinSamples :: u32 where "hybridStartMinSamples = 8"
definition hybridStartDelayFactorExp :: nat where "hybridStartDelayFactorExp = 3"
definition hybridStartDelayMinThresholdUs :: int where "hybridStartDelayMinThresholdUs = 4000"
definition hybridStartDelayMaxThresholdUs :: int where "hybridStartDelayMaxThresholdUs = 16000"

definition StartReceiveRound :: "int \<Rightarrow> HybridSlowStart \<Rightarrow> HybridSlowStart" where
  "StartReceiveRound lastSent s =
     s\<lparr>hs_endPacketNumber := lastSent, hs_currentMinRTT := 0, hs_rttSampleCount := 0,
       hs_started := True\<rparr>"

definition IsEndOfRound :: "int \<Rightarrow> HybridSlowStart \<Rightarrow> bool" where
  "IsEndOfRound ack s = (hs_endPacketNumber s < ack)"

text \<open>The increase of the delay that ends slow start, for the session's lowest RTT.\<close>

definition minRTTincreaseThreshold :: "int \<Rightarrow> int" where
  "minRTTincreaseThreshold minRTT =
     (let us = drop_bit hybridStartDelayFactorExp (minRTT sdiv 1000);
          us' = min us hybridStartDelayMaxThresholdUs
      in max us' hybridStartDelayMinThresholdUs * 1000)"

definition ShouldExitSlowStart :: "int \<Rightarrow> int \<Rightarrow> int \<Rightarrow> HybridSlowStart \<Rightarrow> bool \<times> HybridSlowStart" where
  "ShouldExitSlowStart latestRTT minRTT congestionWindow s =
     (let s0 = (if hs_started s then s else StartReceiveRound (hs_lastSentPacketNumber s) s)
      in if hs_hystartFound s0 then (True, s0)
         else
           let s1 = s0\<lparr>hs_rttSampleCount := hs_rttSampleCount s0 + 1\<rparr>;
               s2 = (if hs_rttSampleCount s1 \<le> hybridStartMinSamples
                        \<and> (hs_currentMinRTT s1 = 0 \<or> hs_currentMinRTT s1 > latestRTT)
                     then s1\<lparr>hs_currentMinRTT := latestRTT\<rparr> else s1);
               s3 = (if hs_rttSampleCount s2 = hybridStartMinSamples
                        \<and> hs_currentMinRTT s2 > i64 (minRTT + minRTTincreaseThreshold minRTT)
                     then s2\<lparr>hs_hystartFound := True\<rparr> else s2)
           in (congestionWindow \<ge> hybridStartLowWindow \<and> hs_hystartFound s3, s3))"

definition HybridSlowStart_OnPacketSent :: "int \<Rightarrow> HybridSlowStart \<Rightarrow> HybridSlowStart" where
  "HybridSlowStart_OnPacketSent packetNumber s = s\<lparr>hs_lastSentPacketNumber := packetNumber\<rparr>"

definition HybridSlowStart_OnPacketAcked :: "int \<Rightarrow> HybridSlowStart \<Rightarrow> HybridSlowStart" where
  "HybridSlowStart_OnPacketAcked ackedPacketNumber s =
     (if IsEndOfRound ackedPacketNumber s then s\<lparr>hs_started := False\<rparr> else s)"

definition HybridSlowStart_Restart :: "HybridSlowStart \<Rightarrow> HybridSlowStart" where
  "HybridSlowStart_Restart s = s\<lparr>hs_started := False, hs_hystartFound := False\<rparr>"

section \<open>The bandwidth estimate\<close>

definition BandwidthFromDelta :: "int \<Rightarrow> int \<Rightarrow> go_panic + u64" where
  "BandwidthFromDelta bytes delta =
     (if (of_int delta :: u64) = 0 then Inl DivideByZero
      else Inr (of_int bytes * 1000000000 div of_int delta * 8))"

section \<open>The pacer\<close>

text \<open>
  The pacer's \<^verbatim>\<open>adjustedBandwidth\<close> closure reads the sender's bandwidth estimate; its value
  is the argument \<open>bw\<close>, in bytes per second.
\<close>

record pacer =
  pa_budgetAtLastSent :: int
  pa_maxDatagramSize :: int
  pa_lastSentTime :: int

definition maxBurstSizePackets :: int where "maxBurstSizePackets = 10"

definition adjustedBandwidth :: "u64 \<Rightarrow> u64" where
  "adjustedBandwidth bandwidth = (let bw = bandwidth div 8 in bw * 5 div 4)"

definition timeScaledBandwidth :: "u64 \<Rightarrow> u64 \<Rightarrow> pacer \<Rightarrow> int" where
  "timeScaledBandwidth bw ns p =
     (if bw = 0 then 0
      else if ns > - 1 div bw then i64 (maxBurstSizePackets * pa_maxDatagramSize p)
      else go_int (bw * ns div 1000000000))"

definition maxBurstSize :: "u64 \<Rightarrow> pacer \<Rightarrow> int" where
  "maxBurstSize bw p =
     max (timeScaledBandwidth bw (of_int (MinPacingDelay + TimerGranularity)) p)
         (i64 (maxBurstSizePackets * pa_maxDatagramSize p))"

definition newPacer :: "u64 \<Rightarrow> pacer" where
  "newPacer bw =
     (let p = \<lparr>pa_budgetAtLastSent = 0, pa_maxDatagramSize = InitialPacketSize, pa_lastSentTime = 0\<rparr>
      in p\<lparr>pa_budgetAtLastSent := maxBurstSize bw p\<rparr>)"

definition Budget :: "u64 \<Rightarrow> int \<Rightarrow> pacer \<Rightarrow> int" where
  "Budget bw now p =
     (if pa_lastSentTime p = 0 then maxBurstSize bw p
      else
        let delta = i64 (now - pa_lastSentTime p);
            added = (if delta > 0 then timeScaledBandwidth bw (of_int delta) p else 0);
            budget = i64 (pa_budgetAtLastSent p + added);
            budget' = (if added > 0 \<and> budget < pa_budgetAtLastSent p then MaxByteCount else budget)
        in min (maxBurstSize bw p) budget')"

definition SentPacket :: "u64 \<Rightarrow> int \<Rightarrow> int \<Rightarrow> pacer \<Rightarrow> pacer" where
  "SentPacket bw sendTime size0 p =
     (let budget = Budget bw sendTime p
      in p\<lparr>pa_budgetAtLastSent := (if size0 \<ge> budget then 0 else i64 (budget - size0)),
           pa_lastSentTime := sendTime\<rparr>)"

definition pacer_TimeUntilSend :: "u64 \<Rightarrow> pacer \<Rightarrow> go_panic + int" where
  "pacer_TimeUntilSend bw p =
     (if pa_budgetAtLastSent p \<ge> pa_maxDatagramSize p then Inr 0
      else
        let diff = 1000000000 * (of_int (i64 (pa_maxDatagramSize p - pa_budgetAtLastSent p)) :: u64)
        in if bw = 0 then Inl DivideByZero
           else let d = diff div bw;
                    d' = (if diff mod bw > 0 then d + 1 else d)
                in Inr (i64 (pa_lastSentTime p + max MinPacingDelay (go_int d'))))"

definition pacer_SetMaxDatagramSize :: "int \<Rightarrow> pacer \<Rightarrow> pacer" where
  "pacer_SetMaxDatagramSize s p = p\<lparr>pa_maxDatagramSize := s\<rparr>"

section \<open>The pacer's budget\<close>

text \<open>
  A pacer as the sender keeps it: a non-negative budget and a datagram size no larger than a
  UDP payload, so that nothing below overflows.
\<close>

definition pacer_inv :: "pacer \<Rightarrow> bool" where
  "pacer_inv p \<longleftrightarrow> 0 \<le> pa_budgetAtLastSent p \<and> pa_budgetAtLastSent p < 2 ^ 62 \<and>
     0 < pa_maxDatagramSize p \<and> pa_maxDatagramSize p \<le> 65535"

lemma burst_packets [simp]:
  "pacer_inv p \<Longrightarrow> i64 (maxBurstSizePackets * pa_maxDatagramSize p) = 10 * pa_maxDatagramSize p"
  by (simp add: pacer_inv_def maxBurstSizePackets_def)

lemma word_product_fits:
  fixes bw ns :: u64
  assumes "bw \<noteq> 0" and "\<not> ns > - 1 div bw"
  shows "unat bw * unat ns < 2 ^ 64" and "unat (bw * ns) = unat bw * unat ns"
proof -
  have "unat ns \<le> (2 ^ 64 - 1) div unat bw"
    using assms(2) by (simp add: word_le_nat_alt unat_div unsigned_minus_1_eq_mask mask_eq_exp_minus_1 not_less)
  then have "unat bw * unat ns \<le> unat bw * ((2 ^ 64 - 1) div unat bw)"
    by (rule mult_le_mono2)
  also have "\<dots> \<le> 2 ^ 64 - 1"
    by simp
  finally show lt: "unat bw * unat ns < 2 ^ 64"
    by simp
  then show "unat (bw * ns) = unat bw * unat ns"
    by (simp add: unat_word_ariths)
qed

lemma word_product_overflows:
  fixes bw ns :: u64
  assumes "bw \<noteq> 0" and "ns > - 1 div bw"
  shows "2 ^ 64 \<le> unat bw * unat ns"
proof -
  have "0 < unat bw"
    using assms(1) by (simp add: unat_gt_0)
  have "(2 ^ 64 - 1) div unat bw < unat ns"
    using assms(2) by (simp add: word_less_nat_alt unat_div unsigned_minus_1_eq_mask mask_eq_exp_minus_1)
  then have "2 ^ 64 - 1 < unat ns * unat bw"
    using \<open>0 < unat bw\<close> by (simp add: div_less_iff_less_mult)
  then show ?thesis
    by (simp add: mult.commute)
qed

text \<open>What \<open>timeScaledBandwidth\<close> adds is never more than the bandwidth allows.\<close>

lemma timeScaledBandwidth_bounds:
  assumes "pacer_inv p"
  shows "0 \<le> timeScaledBandwidth bw ns p"
    and "timeScaledBandwidth bw ns p < 2 ^ 62"
    and "10 ^ 9 * timeScaledBandwidth bw ns p \<le> uint bw * uint ns"
proof -
  have "0 \<le> timeScaledBandwidth bw ns p \<and> timeScaledBandwidth bw ns p < 2 ^ 62 \<and>
    10 ^ 9 * timeScaledBandwidth bw ns p \<le> uint bw * uint ns"
  proof (cases "bw = 0 \<or> ns > - 1 div bw")
    case True
    have "2 ^ 64 \<le> int (unat bw * unat ns)" if "bw \<noteq> 0"
    proof -
      have "int (2 ^ 64) \<le> int (unat bw * unat ns)"
        unfolding of_nat_le_iff by (rule word_product_overflows) (use True that in auto)
      then show ?thesis by simp
    qed
    with True assms show ?thesis
      by (auto simp: timeScaledBandwidth_def pacer_inv_def)
  next
    case False
    then have "unat (bw * ns) = unat bw * unat ns"
      by (simp add: word_product_fits(2))
    then have "int (unat (bw * ns)) = int (unat bw) * int (unat ns)"
      by simp
    then have prod: "uint (bw * ns) = uint bw * uint ns"
      by simp
    define n where "n = unat (bw * ns) div 10 ^ 9"
    have small: "n < 2 ^ 62"
      using unsigned_less [where w = "bw * ns" and 'a = nat]
      by (simp add: n_def div_less_iff_less_mult)
    have "unat (bw * ns div 1000000000) = n"
      by (simp add: n_def unat_div)
    with small False have val: "timeScaledBandwidth bw ns p = int n"
      by (simp add: timeScaledBandwidth_def go_int_small)
    have "10 ^ 9 * n \<le> unat (bw * ns)"
      by (simp add: n_def)
    then have "int (10 ^ 9 * n) \<le> int (unat (bw * ns))"
      by (simp only: of_nat_le_iff)
    then have "10 ^ 9 * int n \<le> uint bw * uint ns"
      by (simp add: prod)
    moreover have "int n < int (2 ^ 62)"
      using small by (simp only: of_nat_less_iff)
    ultimately show ?thesis
      using val by simp
  qed
  then show "0 \<le> timeScaledBandwidth bw ns p"
    and "timeScaledBandwidth bw ns p < 2 ^ 62"
    and "10 ^ 9 * timeScaledBandwidth bw ns p \<le> uint bw * uint ns"
    by simp_all
qed

lemma maxBurstSize_bounds:
  assumes "pacer_inv p"
  shows "10 * pa_maxDatagramSize p \<le> maxBurstSize bw p" and "maxBurstSize bw p < 2 ^ 62"
  using assms timeScaledBandwidth_bounds(2) [OF assms, of bw]
  by (auto simp: maxBurstSize_def pacer_inv_def)

lemma Budget_bounds:
  assumes "pacer_inv p"
  shows "0 \<le> Budget bw now p" and "Budget bw now p \<le> maxBurstSize bw p" and "Budget bw now p < 2 ^ 62"
proof -
  have burst: "0 \<le> maxBurstSize bw p" "maxBurstSize bw p < 2 ^ 62"
    using maxBurstSize_bounds [OF assms, of bw] assms by (auto simp: pacer_inv_def)
  have "0 \<le> timeScaledBandwidth bw ns p" "timeScaledBandwidth bw ns p < 2 ^ 62" for ns
    using timeScaledBandwidth_bounds [OF assms] by blast+
  moreover have "0 \<le> i64 (pa_budgetAtLastSent p + timeScaledBandwidth bw ns p)" for ns
    using assms timeScaledBandwidth_bounds(1,2) [OF assms, of bw ns] by (simp add: pacer_inv_def)
  ultimately show "0 \<le> Budget bw now p" "Budget bw now p \<le> maxBurstSize bw p"
      "Budget bw now p < 2 ^ 62"
    using burst assms by (auto simp: Budget_def Let_def pacer_inv_def MaxByteCount_def min_def)
qed

lemma Budget_gain:
  assumes "pacer_inv p" and "0 < pa_lastSentTime p" and "pa_lastSentTime p \<le> now" and "now < 2 ^ 63"
  shows "10 ^ 9 * Budget bw now p \<le>
     10 ^ 9 * pa_budgetAtLastSent p + uint bw * (now - pa_lastSentTime p)"
proof -
  define delta where "delta = now - pa_lastSentTime p"
  define added where "added = timeScaledBandwidth bw (of_int delta) p"
  have delta: "0 \<le> delta" "delta < 2 ^ 63" "i64 delta = delta"
    using assms by (auto simp: delta_def)
  have "uint (of_int delta :: u64) = delta"
    using delta by (simp add: uint_word_of_int_eq take_bit_int_eq_self)
  then have gain: "10 ^ 9 * added \<le> uint bw * delta" and added: "0 \<le> added" "added < 2 ^ 62"
    using timeScaledBandwidth_bounds [OF assms(1), of bw "of_int delta"] by (simp_all add: added_def)
  have "Budget bw now p \<le> pa_budgetAtLastSent p + (if 0 < delta then added else 0)"
    using assms added delta
    by (auto simp: Budget_def Let_def pacer_inv_def delta_def [symmetric] added_def [symmetric])
  then have "10 ^ 9 * Budget bw now p \<le> 10 ^ 9 * pa_budgetAtLastSent p + 10 ^ 9 * added"
    using added by (auto split: if_splits)
  with gain show ?thesis
    by (simp add: delta_def)
qed

lemma SentPacket_inv [inv_intros]:
  "pacer_inv p \<Longrightarrow> 0 \<le> sz \<Longrightarrow> pacer_inv (SentPacket bw now sz p)"
  using Budget_bounds [of p bw now]
  by (auto simp: SentPacket_def Let_def pacer_inv_def)

lemma SentPacket_account:
  assumes "pacer_inv p" and "0 \<le> sz" and "sz \<le> Budget bw now p"
  shows "sz + pa_budgetAtLastSent (SentPacket bw now sz p) = Budget bw now p"
    and "pa_lastSentTime (SentPacket bw now sz p) = now"
  using assms Budget_bounds [of p bw now] by (auto simp: SentPacket_def Let_def)

section \<open>The pacing rate\<close>

text \<open>
  A run of sends, each a bandwidth, a time and a size, in which every packet fits the budget
  it finds, as \<^verbatim>\<open>HasPacingBudget\<close> demands of the packets it lets through.
\<close>

fun paced :: "(u64 \<times> int \<times> int) list \<Rightarrow> pacer \<Rightarrow> bool" where
  "paced [] p = True"
| "paced ((bw, t, sz) # sends) p =
     (0 < t \<and> t < 2 ^ 63 \<and> pa_lastSentTime p \<le> t \<and> 0 \<le> sz \<and> sz \<le> Budget bw t p \<and>
      paced sends (SentPacket bw t sz p))"

definition sent_bytes :: "(u64 \<times> int \<times> int) list \<Rightarrow> int" where
  "sent_bytes sends = sum_list (map (\<lambda>(bw, t, sz). sz) sends)"

definition last_send :: "int \<Rightarrow> (u64 \<times> int \<times> int) list \<Rightarrow> int" where
  "last_send t0 sends = (if sends = [] then t0 else fst (snd (last sends)))"

lemma paced_last_send: "paced sends p \<Longrightarrow> pa_lastSentTime p \<le> last_send (pa_lastSentTime p) sends"
proof (induction sends arbitrary: p)
  case (Cons e sends)
  obtain bw t sz where [simp]: "e = (bw, t, sz)" by (cases e)
  have "pa_lastSentTime (SentPacket bw t sz p) = t"
    by (simp add: SentPacket_def Let_def)
  with Cons.IH [of "SentPacket bw t sz p"] Cons.prems show ?case
    by (auto simp: last_send_def)
qed (simp add: last_send_def)

lemma paced_run_bounded:
  assumes "paced sends p" and "pacer_inv p" and "0 < pa_lastSentTime p"
    and "\<forall>e\<in>set sends. fst e \<le> B"
  shows "10 ^ 9 * sent_bytes sends \<le>
     10 ^ 9 * pa_budgetAtLastSent p + uint B * (last_send (pa_lastSentTime p) sends - pa_lastSentTime p)"
  using assms
proof (induction sends arbitrary: p)
  case Nil
  then show ?case by (simp add: sent_bytes_def last_send_def pacer_inv_def)
next
  case (Cons e sends)
  obtain bw t sz where [simp]: "e = (bw, t, sz)" by (cases e)
  let ?p = "SentPacket bw t sz p" and ?last = "last_send t sends"
  from Cons.prems have sz: "0 \<le> sz" "sz \<le> Budget bw t p" and t: "0 < t" "t < 2 ^ 63" "pa_lastSentTime p \<le> t"
    and rest: "paced sends ?p" by auto
  note acc = SentPacket_account [OF Cons.prems(2) sz]
  have IH: "10 ^ 9 * sent_bytes sends \<le> 10 ^ 9 * pa_budgetAtLastSent ?p + uint B * (?last - t)"
    using Cons.IH [OF rest SentPacket_inv [OF Cons.prems(2) sz(1)]] Cons.prems(4) t acc by simp
  have "uint bw * (t - pa_lastSentTime p) \<le> uint B * (t - pa_lastSentTime p)"
    using Cons.prems(4) t by (intro mult_right_mono) (auto simp: word_le_def)
  moreover have "10 ^ 9 * Budget bw t p = 10 ^ 9 * sz + 10 ^ 9 * pa_budgetAtLastSent ?p"
    by (simp flip: acc(1))
  ultimately have "10 ^ 9 * (sz + sent_bytes sends) \<le>
      10 ^ 9 * pa_budgetAtLastSent p + uint B * (t - pa_lastSentTime p) + uint B * (?last - t)"
    using Budget_gain [OF Cons.prems(2,3) t(3,2), of bw] IH unfolding distrib_left by linarith
  moreover have "last_send (pa_lastSentTime p) (e # sends) = ?last"
    by (simp add: last_send_def)
  ultimately show ?case
    by (simp add: sent_bytes_def algebra_simps)
qed

text \<open>
  C37: However the packets are spread over time, the pacer lets at most one burst plus the
  paced rate through: if no send finds an adjusted bandwidth above \<open>B\<close> bytes per second, the
  bytes sent between the first send and the last exceed the initial burst by at most \<open>B\<close>
  times the time between them.
\<close>

theorem pacer_rate_bounded:
  assumes "pacer_inv p" and "pa_lastSentTime p = 0" and "paced ((bw0, t0, sz0) # sends) p"
    and "\<forall>e\<in>set sends. fst e \<le> B"
  shows "10 ^ 9 * sent_bytes ((bw0, t0, sz0) # sends) \<le>
     10 ^ 9 * maxBurstSize bw0 p + uint B * (last_send t0 sends - t0)"
proof -
  let ?p = "SentPacket bw0 t0 sz0 p"
  from assms have sz: "0 \<le> sz0" "sz0 \<le> Budget bw0 t0 p" and "0 < t0" and rest: "paced sends ?p"
    by auto
  note acc = SentPacket_account [OF assms(1) sz]
  have "10 ^ 9 * sent_bytes sends \<le> 10 ^ 9 * pa_budgetAtLastSent ?p + uint B * (last_send t0 sends - t0)"
    using paced_run_bounded [OF rest SentPacket_inv [OF assms(1) sz(1)] _ assms(4)] acc \<open>0 < t0\<close> by simp
  with acc(1) Budget_bounds(2) [OF assms(1), of bw0 t0] show ?thesis
    by (simp add: sent_bytes_def)
qed

theorem pacer_rate_bounded_witness:
  "10 ^ 9 * sent_bytes [(1000000, 1000, 1280), (1000000, 2001000, 1280), (1000000, 5001000, 1280)] \<le>
     10 ^ 9 * maxBurstSize 1000000 (newPacer 1000000) + 1000000 * (5001000 - 1000)"
proof -
  have "pacer_inv (newPacer 1000000)" and "pa_lastSentTime (newPacer 1000000) = 0"
    and "paced [(1000000, 1000, 1280), (1000000, 2001000, 1280), (1000000, 5001000, 1280)]
          (newPacer 1000000)"
    by code_simp+
  from pacer_rate_bounded [OF this, of 1000000] show ?thesis
    by (simp add: last_send_def)
qed

end
