(* ===== verification/Mpq_Reno.thy ===== *)
theory Mpq_Reno
  imports Mpq_Congestion
begin

text \<open>
  The sender behind the module name \<^verbatim>\<open>cubic\<close>: \<^verbatim>\<open>internal/ccmodules/cubic.go\<close> calls
  \<^verbatim>\<open>NewCubicSender\<close> of \<^verbatim>\<open>third_party/quic-go/congestion/cubic_sender.go\<close> with \<^verbatim>\<open>reno = true\<close>,
  and nothing ever writes that field, so the sender modelled here is the NewReno one: the
  branches for \<^verbatim>\<open>reno = false\<close> are dead code in this program, and the \<^verbatim>\<open>Cubic\<close> object is reset
  but never read.  The program sets no tracer, so \<^verbatim>\<open>qlogger\<close> is nil and the state changes
  are not logged.

  The shared \<^verbatim>\<open>RTTStats\<close> are written by the ack handler; an operation that reads them has the
  values it reads as an argument.  \<^verbatim>\<open>lastCutbackExitedSlowstart\<close> and the two loss counters of
  \<^verbatim>\<open>ConnectionStats\<close> are only written.
\<close>

section \<open>The sender\<close>

record RTTStats =
  rtt_min :: int
  rtt_latest :: int
  rtt_smoothed :: int

record cubicSender =
  cu_hybridSlowStart :: HybridSlowStart
  cu_packetsLost :: u64
  cu_bytesLost :: u64
  cu_pacer :: pacer
  cu_largestSent :: int
  cu_largestAcked :: int
  cu_largestSentAtLastCutback :: int
  cu_lastCutbackExitedSlowstart :: bool
  cu_congestionWindow :: int
  cu_slowStartThreshold :: int
  cu_numAckedPackets :: u64
  cu_initialCongestionWindow :: int
  cu_initialMaxCongestionWindow :: int
  cu_maxDatagramSize :: int

definition maxBurstPackets :: int where "maxBurstPackets = 3"
definition renoBeta :: rat where "renoBeta = fl (7 / 10)"
definition minCongestionWindowPackets :: int where "minCongestionWindowPackets = 2"
definition initialCongestionWindow :: int where "initialCongestionWindow = 32"

definition maxCongestionWindow :: "cubicSender \<Rightarrow> int" where
  "maxCongestionWindow c = i64 (cu_maxDatagramSize c * MaxCongestionWindowPackets)"

definition minCongestionWindow :: "cubicSender \<Rightarrow> int" where
  "minCongestionWindow c = i64 (cu_maxDatagramSize c * minCongestionWindowPackets)"

definition cubic_GetCongestionWindow :: "cubicSender \<Rightarrow> int" where
  "cubic_GetCongestionWindow c = cu_congestionWindow c"

definition cubic_CanSend :: "int \<Rightarrow> cubicSender \<Rightarrow> bool" where
  "cubic_CanSend bytesInFlight c = (bytesInFlight < cubic_GetCongestionWindow c)"

definition cubic_InRecovery :: "cubicSender \<Rightarrow> bool" where
  "cubic_InRecovery c =
     (cu_largestAcked c \<noteq> InvalidPacketNumber \<and> cu_largestAcked c \<le> cu_largestSentAtLastCutback c)"

definition cubic_InSlowStart :: "cubicSender \<Rightarrow> bool" where
  "cubic_InSlowStart c = (cubic_GetCongestionWindow c < cu_slowStartThreshold c)"

definition BandwidthEstimate :: "RTTStats \<Rightarrow> cubicSender \<Rightarrow> go_panic + u64" where
  "BandwidthEstimate rtt c =
     (let srtt = (if rtt_smoothed rtt = 0 then TimerGranularity else rtt_smoothed rtt)
      in BandwidthFromDelta (cubic_GetCongestionWindow c) srtt)"

text \<open>What the pacer's closure returns for this sender.\<close>

definition pacing_bandwidth :: "RTTStats \<Rightarrow> cubicSender \<Rightarrow> go_panic + u64" where
  "pacing_bandwidth rtt c = map_sum id adjustedBandwidth (BandwidthEstimate rtt c)"

definition newCubicSender ::
  "RTTStats \<Rightarrow> int \<Rightarrow> int \<Rightarrow> int \<Rightarrow> go_panic + cubicSender" where
  "newCubicSender rtt initialMaxDatagramSize initialWindow initialMaxWindow =
     (let c = \<lparr>cu_hybridSlowStart = new_hybridSlowStart, cu_packetsLost = 0, cu_bytesLost = 0,
               cu_pacer = \<lparr>pa_budgetAtLastSent = 0, pa_maxDatagramSize = 0, pa_lastSentTime = 0\<rparr>,
               cu_largestSent = InvalidPacketNumber, cu_largestAcked = InvalidPacketNumber,
               cu_largestSentAtLastCutback = InvalidPacketNumber,
               cu_lastCutbackExitedSlowstart = False, cu_congestionWindow = initialWindow,
               cu_slowStartThreshold = MaxByteCount, cu_numAckedPackets = 0,
               cu_initialCongestionWindow = initialWindow,
               cu_initialMaxCongestionWindow = initialMaxWindow,
               cu_maxDatagramSize = initialMaxDatagramSize\<rparr>
      in map_sum id (\<lambda>bw. c\<lparr>cu_pacer := newPacer bw\<rparr>) (pacing_bandwidth rtt c))"

definition NewCubicSender :: "RTTStats \<Rightarrow> int \<Rightarrow> go_panic + cubicSender" where
  "NewCubicSender rtt initialMaxDatagramSize =
     newCubicSender rtt initialMaxDatagramSize
       (i64 (initialCongestionWindow * initialMaxDatagramSize))
       (i64 (MaxCongestionWindowPackets * initialMaxDatagramSize))"

definition cubic_TimeUntilSend :: "RTTStats \<Rightarrow> cubicSender \<Rightarrow> go_panic + int" where
  "cubic_TimeUntilSend rtt c =
     (if pa_budgetAtLastSent (cu_pacer c) \<ge> pa_maxDatagramSize (cu_pacer c) then Inr 0
      else case pacing_bandwidth rtt c of
             Inl e \<Rightarrow> Inl e
           | Inr bw \<Rightarrow> pacer_TimeUntilSend bw (cu_pacer c))"

definition cubic_HasPacingBudget :: "RTTStats \<Rightarrow> int \<Rightarrow> cubicSender \<Rightarrow> go_panic + bool" where
  "cubic_HasPacingBudget rtt now c =
     map_sum id (\<lambda>bw. Budget bw now (cu_pacer c) \<ge> cu_maxDatagramSize c) (pacing_bandwidth rtt c)"

definition cubic_OnPacketSent ::
  "RTTStats \<Rightarrow> int \<Rightarrow> int \<Rightarrow> int \<Rightarrow> bool \<Rightarrow> cubicSender \<Rightarrow> go_panic + cubicSender" where
  "cubic_OnPacketSent rtt sentTime packetNumber bytes isRetransmittable c =
     map_sum id (\<lambda>bw.
       let c1 = c\<lparr>cu_pacer := SentPacket bw sentTime bytes (cu_pacer c)\<rparr>
       in if \<not> isRetransmittable then c1
          else c1\<lparr>cu_largestSent := packetNumber,
                  cu_hybridSlowStart :=
                    HybridSlowStart_OnPacketSent packetNumber (cu_hybridSlowStart c1)\<rparr>)
       (pacing_bandwidth rtt c)"

definition cubic_MaybeExitSlowStart :: "RTTStats \<Rightarrow> cubicSender \<Rightarrow> go_panic + cubicSender" where
  "cubic_MaybeExitSlowStart rtt c =
     (if \<not> cubic_InSlowStart c then Inr c
      else if cu_maxDatagramSize c = 0 then Inl DivideByZero
      else
        let (exit, h) = ShouldExitSlowStart (rtt_latest rtt) (rtt_min rtt)
               (cubic_GetCongestionWindow c sdiv cu_maxDatagramSize c) (cu_hybridSlowStart c);
            c1 = c\<lparr>cu_hybridSlowStart := h\<rparr>
        in Inr (if exit then c1\<lparr>cu_slowStartThreshold := cu_congestionWindow c1\<rparr> else c1))"

definition isCwndLimited :: "int \<Rightarrow> cubicSender \<Rightarrow> bool" where
  "isCwndLimited bytesInFlight c =
     (let congestionWindow = cubic_GetCongestionWindow c
      in if bytesInFlight \<ge> congestionWindow then True
         else
           let availableBytes = i64 (congestionWindow - bytesInFlight);
               slowStartLimited = (cubic_InSlowStart c \<and> bytesInFlight > congestionWindow sdiv 2)
           in slowStartLimited \<or> availableBytes \<le> i64 (maxBurstPackets * cu_maxDatagramSize c))"

definition maybeIncreaseCwnd :: "int \<Rightarrow> cubicSender \<Rightarrow> go_panic + cubicSender" where
  "maybeIncreaseCwnd priorInFlight c =
     (if \<not> isCwndLimited priorInFlight c then Inr c
      else if cu_congestionWindow c \<ge> maxCongestionWindow c then Inr c
      else if cubic_InSlowStart c
      then Inr (c\<lparr>cu_congestionWindow := i64 (cu_congestionWindow c + cu_maxDatagramSize c)\<rparr>)
      else
        let c1 = c\<lparr>cu_numAckedPackets := cu_numAckedPackets c + 1\<rparr>
        in if cu_maxDatagramSize c = 0 then Inl DivideByZero
           else if cu_numAckedPackets c1 \<ge> of_int (cu_congestionWindow c1 sdiv cu_maxDatagramSize c1)
           then Inr (c1\<lparr>cu_congestionWindow := i64 (cu_congestionWindow c1 + cu_maxDatagramSize c1),
                        cu_numAckedPackets := 0\<rparr>)
           else Inr c1)"

definition cubic_OnPacketAcked :: "int \<Rightarrow> int \<Rightarrow> cubicSender \<Rightarrow> go_panic + cubicSender" where
  "cubic_OnPacketAcked ackedPacketNumber priorInFlight c =
     (let c1 = c\<lparr>cu_largestAcked := max ackedPacketNumber (cu_largestAcked c)\<rparr>
      in if cubic_InRecovery c1 then Inr c1
         else map_sum id (\<lambda>c2.
                if cubic_InSlowStart c2
                then c2\<lparr>cu_hybridSlowStart :=
                          HybridSlowStart_OnPacketAcked ackedPacketNumber (cu_hybridSlowStart c2)\<rparr>
                else c2)
                (maybeIncreaseCwnd priorInFlight c1))"

text \<open>
  The window after a loss is the float64 product with \<open>0.7\<close>, truncated: seven tenths of the
  window rounded down, or (when \<open>0.7\<close> is a little below seven tenths) one byte less.
\<close>

definition reno_backoff :: "int \<Rightarrow> int" where
  "reno_backoff w = int_of_float (fmult (float_of_int w) renoBeta)"

definition cubic_OnCongestionEvent :: "int \<Rightarrow> int \<Rightarrow> cubicSender \<Rightarrow> cubicSender" where
  "cubic_OnCongestionEvent packetNumber lostBytes c =
     (let c1 = c\<lparr>cu_packetsLost := cu_packetsLost c + 1,
                 cu_bytesLost := cu_bytesLost c + of_int lostBytes\<rparr>
      in if packetNumber \<le> cu_largestSentAtLastCutback c1 then c1
         else
           let c2 = c1\<lparr>cu_lastCutbackExitedSlowstart := cubic_InSlowStart c1\<rparr>;
               cwnd = reno_backoff (cu_congestionWindow c2);
               cwnd' = (if cwnd < minCongestionWindow c2 then minCongestionWindow c2 else cwnd)
           in c2\<lparr>cu_congestionWindow := cwnd', cu_slowStartThreshold := cwnd',
                 cu_largestSentAtLastCutback := cu_largestSent c2, cu_numAckedPackets := 0\<rparr>)"

definition cubic_OnRetransmissionTimeout :: "bool \<Rightarrow> cubicSender \<Rightarrow> cubicSender" where
  "cubic_OnRetransmissionTimeout packetsRetransmitted c =
     (let c1 = c\<lparr>cu_largestSentAtLastCutback := InvalidPacketNumber\<rparr>
      in if \<not> packetsRetransmitted then c1
         else c1\<lparr>cu_hybridSlowStart := HybridSlowStart_Restart (cu_hybridSlowStart c1),
                 cu_slowStartThreshold := cu_congestionWindow c1 sdiv 2,
                 cu_congestionWindow := minCongestionWindow c1\<rparr>)"

definition cubic_OnConnectionMigration :: "cubicSender \<Rightarrow> cubicSender" where
  "cubic_OnConnectionMigration c =
     c\<lparr>cu_hybridSlowStart := HybridSlowStart_Restart (cu_hybridSlowStart c),
       cu_largestSent := InvalidPacketNumber, cu_largestAcked := InvalidPacketNumber,
       cu_largestSentAtLastCutback := InvalidPacketNumber,
       cu_lastCutbackExitedSlowstart := False, cu_numAckedPackets := 0,
       cu_congestionWindow := cu_initialCongestionWindow c,
       cu_slowStartThreshold := cu_initialMaxCongestionWindow c\<rparr>"

definition cubic_SetMaxDatagramSize :: "int \<Rightarrow> cubicSender \<Rightarrow> go_panic + cubicSender" where
  "cubic_SetMaxDatagramSize s c =
     (if s < cu_maxDatagramSize c then Inl DatagramSizeDecreased
      else
        let cwndIsMinCwnd = (cu_congestionWindow c = minCongestionWindow c);
            c1 = c\<lparr>cu_maxDatagramSize := s\<rparr>;
            c2 = (if cwndIsMinCwnd then c1\<lparr>cu_congestionWindow := minCongestionWindow c1\<rparr> else c1)
        in Inr (c2\<lparr>cu_pacer := pacer_SetMaxDatagramSize s (cu_pacer c2)\<rparr>))"

section \<open>The backoff factor\<close>

lemma renoBeta_bounds:
  "7 / 10 * (1 - 1 / 2 ^ 53) \<le> renoBeta" "renoBeta \<le> 7 / 10 * (1 + 1 / 2 ^ 53)"
  using fl_bounds [of "7 / 10"] by (simp_all add: renoBeta_def pow2_def)

lemma reno_backoff_bounds:
  assumes "0 < w" and "w < 2 ^ 40"
  shows "0 \<le> reno_backoff w" and "10 * reno_backoff w \<le> 7 * w" and "7 * w - 10 \<le> 10 * reno_backoff w"
proof -
  define x where "x = fl (of_int w * renoBeta)"
  have w: "(0::rat) < of_int w" "of_int w < (2 ^ 40 :: rat)"
    using assms of_int_less_iff [of w "2 ^ 40", where 'a = rat] by simp_all
  have pos: "0 \<le> of_int w * renoBeta"
    using w renoBeta_bounds by (intro mult_nonneg_nonneg) auto
  have "of_int w * renoBeta \<le> of_int w * (7 / 10 * (1 + 1 / 2 ^ 53))"
    and "of_int w * (7 / 10 * (1 - 1 / 2 ^ 53)) \<le> of_int w * renoBeta"
    using w renoBeta_bounds by (auto intro!: mult_left_mono)
  then have "x \<le> of_int w * (7 / 10 * (1 + 1 / 2 ^ 53)) * (1 + 1 / 2 ^ 53)"
    and "of_int w * (7 / 10 * (1 - 1 / 2 ^ 53)) * (1 - 1 / 2 ^ 53) \<le> x"
    using fl_bounds [OF pos] unfolding x_def
    by (auto simp: pow2_def intro: order_trans [OF _ mult_right_mono] order_trans [OF mult_right_mono])
  then have x: "10 * x < 7 * of_int w + 1" "7 * of_int w - 1 < 10 * x"
    using w by (simp_all add: algebra_simps)
  have "0 \<le> x"
    using pos by (simp add: x_def fl_nonneg)
  moreover have "float_of_int w = of_int w"
    using assms by (simp add: float_of_int_def fl_of_int)
  ultimately have val: "reno_backoff w = \<lfloor>x\<rfloor>"
    by (simp add: reno_backoff_def fmult_def int_of_float_def x_def)
  with \<open>0 \<le> x\<close> show "0 \<le> reno_backoff w" by simp
  have "of_int (reno_backoff w) \<le> x" and "x < of_int (reno_backoff w) + 1"
    using floor_correct [of x] by (simp_all add: val)
  with x have "(of_int (10 * reno_backoff w) :: rat) < of_int (7 * w + 1)"
    and "(of_int (7 * w - 1) :: rat) < of_int (10 * reno_backoff w + 10)"
    by simp_all
  then show "10 * reno_backoff w \<le> 7 * w" and "7 * w - 10 \<le> 10 * reno_backoff w"
    by (simp_all only: of_int_less_iff)
qed

section \<open>The invariant of the sender\<close>

text \<open>
  \<open>m\<close> is the datagram size of the path.  The window never leaves the range from one byte to
  one datagram above ten thousand datagrams.
\<close>

definition reno_inv :: "int \<Rightarrow> cubicSender \<Rightarrow> bool" where
  "reno_inv m c \<longleftrightarrow> 0 < m \<and> m \<le> 65535 \<and> cu_maxDatagramSize c = m \<and>
     0 < cu_congestionWindow c \<and> cu_congestionWindow c < 10001 * m \<and>
     0 < cu_initialCongestionWindow c \<and> cu_initialCongestionWindow c < 10001 * m \<and>
     pacer_inv (cu_pacer c)"

lemma window_limits:
  assumes "reno_inv m c"
  shows "maxCongestionWindow c = 10000 * m" and "minCongestionWindow c = 2 * m"
  using assms
  by (auto simp: reno_inv_def maxCongestionWindow_def minCongestionWindow_def
      MaxCongestionWindowPackets_def minCongestionWindowPackets_def)

definition rtt_ok :: "RTTStats \<Rightarrow> bool" where
  "rtt_ok rtt \<longleftrightarrow> 0 \<le> rtt_smoothed rtt \<and> rtt_smoothed rtt < 2 ^ 63"

lemma pacing_bandwidth_ok:
  assumes "rtt_ok rtt"
  shows "\<exists>bw. pacing_bandwidth rtt c = Inr bw"
proof -
  define srtt where "srtt = (if rtt_smoothed rtt = 0 then TimerGranularity else rtt_smoothed rtt)"
  have "0 < srtt" "srtt < 2 ^ 63"
    using assms by (auto simp: srtt_def rtt_ok_def TimerGranularity_def)
  then have "uint (of_int srtt :: u64) \<noteq> 0"
    by (simp add: uint_word_of_int_eq take_bit_int_eq_self)
  then have "(of_int srtt :: u64) \<noteq> 0"
    by (metis unsigned_0)
  then show ?thesis
    by (simp add: pacing_bandwidth_def BandwidthEstimate_def BandwidthFromDelta_def
        srtt_def [symmetric])
qed

subsection \<open>Every operation keeps it\<close>

lemma NewCubicSender_inv:
  assumes "rtt_ok rtt" and "0 < m" and "m \<le> 65535"
  shows "\<exists>c. NewCubicSender rtt m = Inr c \<and> reno_inv m c \<and> cu_congestionWindow c = 32 * m"
proof -
  obtain bw where bw: "pacing_bandwidth rtt c = Inr bw" if "cu_congestionWindow c = 32 * m" for c
    using pacing_bandwidth_ok [OF assms(1)]
    by (metis (no_types, lifting) BandwidthEstimate_def cubic_GetCongestionWindow_def pacing_bandwidth_def)
  have "pacer_inv (newPacer bw)"
  proof -
    let ?p = "\<lparr>pa_budgetAtLastSent = 0, pa_maxDatagramSize = InitialPacketSize, pa_lastSentTime = 0\<rparr>"
    have "pacer_inv ?p" by (simp add: pacer_inv_def InitialPacketSize_def)
    from maxBurstSize_bounds [OF this, of bw] show ?thesis
      by (simp add: newPacer_def Let_def pacer_inv_def InitialPacketSize_def)
  qed
  with assms show ?thesis
    by (simp add: NewCubicSender_def newCubicSender_def bw reno_inv_def Let_def
        initialCongestionWindow_def MaxCongestionWindowPackets_def)
qed

lemma cubic_OnPacketSent_inv:
  assumes "rtt_ok rtt" and "reno_inv m c" and "0 \<le> bytes"
  shows "\<exists>c'. cubic_OnPacketSent rtt t pn bytes retr c = Inr c' \<and> reno_inv m c' \<and>
     cu_congestionWindow c' = cu_congestionWindow c \<and>
     cu_largestSentAtLastCutback c' = cu_largestSentAtLastCutback c"
proof -
  obtain bw where "pacing_bandwidth rtt c = Inr bw"
    using pacing_bandwidth_ok [OF assms(1)] by blast
  moreover have "pacer_inv (SentPacket bw t bytes (cu_pacer c))"
    using assms(2,3) by (simp add: reno_inv_def SentPacket_inv)
  ultimately show ?thesis
    using assms(2) by (simp add: cubic_OnPacketSent_def Let_def reno_inv_def)
qed

lemma cubic_MaybeExitSlowStart_inv:
  assumes "reno_inv m c"
  shows "\<exists>c'. cubic_MaybeExitSlowStart rtt c = Inr c' \<and> reno_inv m c' \<and>
     cu_congestionWindow c' = cu_congestionWindow c \<and>
     cu_largestSentAtLastCutback c' = cu_largestSentAtLastCutback c"
  using assms by (auto simp: cubic_MaybeExitSlowStart_def reno_inv_def Let_def split: prod.splits)

text \<open>An acknowledgement lets the window grow by at most one datagram.\<close>

lemma maybeIncreaseCwnd_inv:
  assumes "reno_inv m c"
  shows "\<exists>c'. maybeIncreaseCwnd prior c = Inr c' \<and> reno_inv m c' \<and>
     cu_congestionWindow c' \<in> {cu_congestionWindow c, cu_congestionWindow c + m} \<and>
     cu_largestSentAtLastCutback c' = cu_largestSentAtLastCutback c"
proof -
  from assms have m: "cu_maxDatagramSize c = m" "m \<noteq> 0"
    and grow: "i64 (cu_congestionWindow c + m) = cu_congestionWindow c + m"
    by (auto simp: reno_inv_def)
  show ?thesis
  proof (cases "isCwndLimited prior c \<and> cu_congestionWindow c < 10000 * m")
    case True
    then have "reno_inv m (c\<lparr>cu_congestionWindow := cu_congestionWindow c + m, cu_numAckedPackets := n\<rparr>)"
      and "reno_inv m (c\<lparr>cu_congestionWindow := cu_congestionWindow c + m\<rparr>)"
      and "reno_inv m (c\<lparr>cu_numAckedPackets := n\<rparr>)" for n
      using assms by (auto simp: reno_inv_def)
    with True m grow window_limits(1) [OF assms] show ?thesis
      by (auto simp: maybeIncreaseCwnd_def Let_def)
  next
    case False
    with assms window_limits(1) [OF assms] show ?thesis
      by (auto simp: maybeIncreaseCwnd_def)
  qed
qed

lemma cubic_OnPacketAcked_inv:
  assumes "reno_inv m c"
  shows "\<exists>c'. cubic_OnPacketAcked pn prior c = Inr c' \<and> reno_inv m c' \<and>
     cu_congestionWindow c' \<in> {cu_congestionWindow c, cu_congestionWindow c + m} \<and>
     cu_largestSentAtLastCutback c' = cu_largestSentAtLastCutback c"
proof -
  let ?c = "c\<lparr>cu_largestAcked := max pn (cu_largestAcked c)\<rparr>"
  have "reno_inv m ?c"
    using assms by (simp add: reno_inv_def)
  from maybeIncreaseCwnd_inv [OF this, of prior] obtain c2 where
    "maybeIncreaseCwnd prior ?c = Inr c2" "reno_inv m c2"
    "cu_congestionWindow c2 \<in> {cu_congestionWindow c, cu_congestionWindow c + m}"
    "cu_largestSentAtLastCutback c2 = cu_largestSentAtLastCutback c"
    by auto
  with \<open>reno_inv m ?c\<close> show ?thesis
    by (auto simp: cubic_OnPacketAcked_def Let_def reno_inv_def)
qed

lemma cubic_OnCongestionEvent_old:
  assumes "reno_inv m c" and "pn \<le> cu_largestSentAtLastCutback c"
  shows "reno_inv m (cubic_OnCongestionEvent pn lost c)"
    and "cu_congestionWindow (cubic_OnCongestionEvent pn lost c) = cu_congestionWindow c"
    and "cu_largestSentAtLastCutback (cubic_OnCongestionEvent pn lost c) = cu_largestSentAtLastCutback c"
  using assms by (auto simp: cubic_OnCongestionEvent_def Let_def reno_inv_def)

lemma cubic_OnCongestionEvent_new:
  fixes lost :: int
  assumes "reno_inv m c" and "cu_largestSentAtLastCutback c < pn"
  defines "c' \<equiv> cubic_OnCongestionEvent pn lost c"
  shows "cu_congestionWindow c' = max (2 * m) (reno_backoff (cu_congestionWindow c))"
    and "cu_slowStartThreshold c' = cu_congestionWindow c'"
    and "cu_largestSentAtLastCutback c' = cu_largestSent c"
    and "reno_inv m c'"
proof -
  let ?w = "cu_congestionWindow c"
  have w: "0 < ?w" "?w < 2 ^ 40" and b: "?w < 10001 * m"
    using assms(1) by (auto simp: reno_inv_def)
  have "minCongestionWindow (c\<lparr>cu_packetsLost := x, cu_bytesLost := y,
      cu_lastCutbackExitedSlowstart := z\<rparr>) = 2 * m" for x y z
    using window_limits(2) [OF assms(1)] by (simp add: minCongestionWindow_def)
  with assms(2) show win: "cu_congestionWindow c' = max (2 * m) (reno_backoff ?w)"
    and "cu_slowStartThreshold c' = cu_congestionWindow c'"
    and "cu_largestSentAtLastCutback c' = cu_largestSent c"
    by (auto simp: c'_def cubic_OnCongestionEvent_def Let_def max_def)
  have "cu_maxDatagramSize c' = m" "cu_pacer c' = cu_pacer c"
    "cu_initialCongestionWindow c' = cu_initialCongestionWindow c"
    using assms(1) by (auto simp: c'_def cubic_OnCongestionEvent_def Let_def reno_inv_def)
  with assms(1) win reno_backoff_bounds(2) [OF w] b show "reno_inv m c'"
    by (auto simp: reno_inv_def)
qed

lemma cubic_OnRetransmissionTimeout_inv:
  assumes "reno_inv m c"
  shows "reno_inv m (cubic_OnRetransmissionTimeout r c)"
proof -
  have win: "minCongestionWindow (c\<lparr>cu_largestSentAtLastCutback := n\<rparr>) = 2 * m" for n
    using window_limits(2) [OF assms] by (simp add: minCongestionWindow_def)
  show ?thesis
    using assms by (simp add: cubic_OnRetransmissionTimeout_def Let_def reno_inv_def win)
qed

lemma cubic_OnConnectionMigration_inv:
  "reno_inv m c \<Longrightarrow> reno_inv m (cubic_OnConnectionMigration c)"
  by (simp add: cubic_OnConnectionMigration_def reno_inv_def)

lemma cubic_SetMaxDatagramSize_inv:
  assumes "reno_inv m c" and "m \<le> s" and "s \<le> 65535"
  shows "\<exists>c'. cubic_SetMaxDatagramSize s c = Inr c' \<and> reno_inv s c' \<and>
     cu_congestionWindow c \<le> cu_congestionWindow c' \<and>
     cu_largestSentAtLastCutback c' = cu_largestSentAtLastCutback c"
proof -
  have win: "minCongestionWindow (c\<lparr>cu_maxDatagramSize := s\<rparr>) = 2 * s"
    using assms by (simp add: minCongestionWindow_def minCongestionWindowPackets_def reno_inv_def)
  have pacer: "pacer_inv (pacer_SetMaxDatagramSize s (cu_pacer c))"
    using assms by (simp add: reno_inv_def pacer_inv_def pacer_SetMaxDatagramSize_def)
  define c2 where "c2 = (if cu_congestionWindow c = 2 * m
    then c\<lparr>cu_maxDatagramSize := s, cu_congestionWindow := 2 * s\<rparr> else c\<lparr>cu_maxDatagramSize := s\<rparr>)"
  have eq: "cubic_SetMaxDatagramSize s c = Inr (c2\<lparr>cu_pacer := pacer_SetMaxDatagramSize s (cu_pacer c)\<rparr>)"
    using assms window_limits(2) [OF assms(1)]
    by (simp add: cubic_SetMaxDatagramSize_def Let_def win c2_def reno_inv_def)
  show ?thesis
    unfolding eq using assms pacer by (simp add: c2_def reno_inv_def)
qed

end
