(* ===== verification/Mpq_CCModules.thy ===== *)
theory Mpq_CCModules
  imports Mpq_Reno Mpq_Registry
begin

text \<open>
  The congestion control modules of \<^verbatim>\<open>internal/ccmodules\<close>: the fixed-window template
  (\<^verbatim>\<open>custom_template.go\<close>), the entry \<^verbatim>\<open>cubic\<close> (\<^verbatim>\<open>cubic.go\<close>) and the registry
  (\<^verbatim>\<open>registry.go\<close>), with the contract \<open>send_algorithm\<close> that the QUIC sender relies on.
\<close>

section \<open>The fixed window\<close>

record fixedWindowSender =
  fw_window :: int
  fw_inRecovery :: bool

definition fixed_TimeUntilSend :: "int \<Rightarrow> fixedWindowSender \<Rightarrow> int" where
  "fixed_TimeUntilSend bytesInFlight f = 0"

definition fixed_HasPacingBudget :: "int \<Rightarrow> fixedWindowSender \<Rightarrow> bool" where
  "fixed_HasPacingBudget now f = True"

definition fixed_OnPacketSent ::
  "int \<Rightarrow> int \<Rightarrow> int \<Rightarrow> int \<Rightarrow> bool \<Rightarrow> fixedWindowSender \<Rightarrow> fixedWindowSender" where
  "fixed_OnPacketSent sentTime bytesInFlight packetNumber bytes isRetransmittable f = f"

definition fixed_CanSend :: "int \<Rightarrow> fixedWindowSender \<Rightarrow> bool" where
  "fixed_CanSend bytesInFlight f = (bytesInFlight < fw_window f)"

definition fixed_MaybeExitSlowStart :: "fixedWindowSender \<Rightarrow> fixedWindowSender" where
  "fixed_MaybeExitSlowStart f = f"

definition fixed_OnPacketAcked ::
  "int \<Rightarrow> int \<Rightarrow> int \<Rightarrow> int \<Rightarrow> fixedWindowSender \<Rightarrow> fixedWindowSender" where
  "fixed_OnPacketAcked number ackedBytes priorInFlight eventTime f = f"

definition fixed_OnCongestionEvent ::
  "int \<Rightarrow> int \<Rightarrow> int \<Rightarrow> fixedWindowSender \<Rightarrow> fixedWindowSender" where
  "fixed_OnCongestionEvent number lostBytes priorInFlight f = f\<lparr>fw_inRecovery := True\<rparr>"

definition fixed_OnRetransmissionTimeout :: "bool \<Rightarrow> fixedWindowSender \<Rightarrow> fixedWindowSender" where
  "fixed_OnRetransmissionTimeout packetsRetransmitted f = f"

definition fixed_SetMaxDatagramSize :: "int \<Rightarrow> fixedWindowSender \<Rightarrow> fixedWindowSender" where
  "fixed_SetMaxDatagramSize s f = f"

definition fixed_InSlowStart :: "fixedWindowSender \<Rightarrow> bool" where
  "fixed_InSlowStart f = False"

definition fixed_InRecovery :: "fixedWindowSender \<Rightarrow> bool" where
  "fixed_InRecovery f = fw_inRecovery f"

definition fixed_GetCongestionWindow :: "fixedWindowSender \<Rightarrow> int" where
  "fixed_GetCongestionWindow f = fw_window f"

section \<open>The interface \<^verbatim>\<open>SendAlgorithmWithDebugInfos\<close>\<close>

text \<open>
  A value of the interface type is one of the implementations.  The calls that change its
  state are the constructors of \<open>cc_event\<close>, their arguments in the order of the interface.
\<close>

datatype SendAlgorithm = Fixed fixedWindowSender | Cubic cubicSender

datatype cc_event =
    OnPacketSent int int int int bool
  | MaybeExitSlowStart
  | OnPacketAcked int int int int
  | OnCongestionEvent int int int
  | OnRetransmissionTimeout bool
  | SetMaxDatagramSize int

fun fixed_exec :: "RTTStats \<Rightarrow> cc_event \<Rightarrow> fixedWindowSender \<Rightarrow> go_panic + fixedWindowSender" where
  "fixed_exec rtt (OnPacketSent t inFlight pn bytes retr) f = Inr (fixed_OnPacketSent t inFlight pn bytes retr f)"
| "fixed_exec rtt MaybeExitSlowStart f = Inr (fixed_MaybeExitSlowStart f)"
| "fixed_exec rtt (OnPacketAcked pn bytes prior t) f = Inr (fixed_OnPacketAcked pn bytes prior t f)"
| "fixed_exec rtt (OnCongestionEvent pn bytes prior) f = Inr (fixed_OnCongestionEvent pn bytes prior f)"
| "fixed_exec rtt (OnRetransmissionTimeout r) f = Inr (fixed_OnRetransmissionTimeout r f)"
| "fixed_exec rtt (SetMaxDatagramSize s) f = Inr (fixed_SetMaxDatagramSize s f)"

fun cubic_exec :: "RTTStats \<Rightarrow> cc_event \<Rightarrow> cubicSender \<Rightarrow> go_panic + cubicSender" where
  "cubic_exec rtt (OnPacketSent t inFlight pn bytes retr) c = cubic_OnPacketSent rtt t pn bytes retr c"
| "cubic_exec rtt MaybeExitSlowStart c = cubic_MaybeExitSlowStart rtt c"
| "cubic_exec rtt (OnPacketAcked pn bytes prior t) c = cubic_OnPacketAcked pn prior c"
| "cubic_exec rtt (OnCongestionEvent pn bytes prior) c = Inr (cubic_OnCongestionEvent pn bytes c)"
| "cubic_exec rtt (OnRetransmissionTimeout r) c = Inr (cubic_OnRetransmissionTimeout r c)"
| "cubic_exec rtt (SetMaxDatagramSize s) c = cubic_SetMaxDatagramSize s c"

fun cc_exec :: "RTTStats \<Rightarrow> cc_event \<Rightarrow> SendAlgorithm \<Rightarrow> go_panic + SendAlgorithm" where
  "cc_exec rtt e (Fixed f) = map_sum id Fixed (fixed_exec rtt e f)"
| "cc_exec rtt e (Cubic c) = map_sum id Cubic (cubic_exec rtt e c)"

fun cc_CanSend :: "int \<Rightarrow> SendAlgorithm \<Rightarrow> bool" where
  "cc_CanSend b (Fixed f) = fixed_CanSend b f"
| "cc_CanSend b (Cubic c) = cubic_CanSend b c"

fun cc_GetCongestionWindow :: "SendAlgorithm \<Rightarrow> int" where
  "cc_GetCongestionWindow (Fixed f) = fixed_GetCongestionWindow f"
| "cc_GetCongestionWindow (Cubic c) = cubic_GetCongestionWindow c"

fun cc_InSlowStart :: "SendAlgorithm \<Rightarrow> bool" where
  "cc_InSlowStart (Fixed f) = fixed_InSlowStart f"
| "cc_InSlowStart (Cubic c) = cubic_InSlowStart c"

fun cc_InRecovery :: "SendAlgorithm \<Rightarrow> bool" where
  "cc_InRecovery (Fixed f) = fixed_InRecovery f"
| "cc_InRecovery (Cubic c) = cubic_InRecovery c"

fun cc_HasPacingBudget :: "RTTStats \<Rightarrow> int \<Rightarrow> SendAlgorithm \<Rightarrow> go_panic + bool" where
  "cc_HasPacingBudget rtt now (Fixed f) = Inr (fixed_HasPacingBudget now f)"
| "cc_HasPacingBudget rtt now (Cubic c) = cubic_HasPacingBudget rtt now c"

fun cc_TimeUntilSend :: "RTTStats \<Rightarrow> int \<Rightarrow> SendAlgorithm \<Rightarrow> go_panic + int" where
  "cc_TimeUntilSend rtt b (Fixed f) = Inr (fixed_TimeUntilSend b f)"
| "cc_TimeUntilSend rtt b (Cubic c) = cubic_TimeUntilSend rtt c"

section \<open>The registry\<close>

text \<open>A factory gets the connection's RTT statistics and initial datagram size.\<close>

type_synonym Factory = "RTTStats \<Rightarrow> int \<Rightarrow> go_panic + SendAlgorithm"

definition cc_Register :: "string \<Rightarrow> Factory \<Rightarrow> Factory registry \<Rightarrow> Factory registry" where
  "cc_Register name f r = AList.update name f r"

definition cc_Names :: "Factory registry \<Rightarrow> string list" where
  "cc_Names r = sort (map fst r)"

definition cc_Get :: "string \<Rightarrow> Factory registry \<Rightarrow> registry_error + Factory" where
  "cc_Get name r =
     (case map_of r name of
        None \<Rightarrow> Inl (UnknownName name (cc_Names r))
      | Some f \<Rightarrow> Inr f)"

definition cubic_factory :: Factory where
  "cubic_factory rtt initialMaxDatagramSize = map_sum id Cubic (NewCubicSender rtt initialMaxDatagramSize)"

definition fixed_factory :: Factory where
  "fixed_factory rtt initialMaxDatagramSize =
     Inr (Fixed \<lparr>fw_window = i64 (64 * initialMaxDatagramSize), fw_inRecovery = False\<rparr>)"

text \<open>The registry after the package's \<^verbatim>\<open>init\<close> functions.\<close>

definition cc_modules :: "Factory registry" where
  "cc_modules = cc_Register ''fixed'' fixed_factory (cc_Register ''cubic'' cubic_factory [])"

interpretation cc_reg: name_registry cc_Register cc_Get cc_Names
proof unfold_locales
  fix r :: "Factory registry" and n f
  assume wf: "registry_wf r"
  show "registry_wf (cc_Register n f r)"
    using wf by (simp add: cc_Register_def inv_intros)
  show "map_of (cc_Register n f r) = (map_of r)(n \<mapsto> f)"
    by (simp add: cc_Register_def AList.update_conv')
  show "sorted (cc_Names r) \<and> distinct (cc_Names r) \<and> set (cc_Names r) = dom (map_of r)"
    using wf by (simp add: cc_Names_def registry_wf_def dom_map_of_conv_image_fst)
qed (simp_all add: cc_Get_def)

lemma cc_modules_wf: "registry_wf cc_modules"
  by (simp add: cc_modules_def cc_reg.wf_register)

lemma cc_Get_cases:
  "cc_Get name cc_modules = Inr f \<longleftrightarrow>
     name = ''cubic'' \<and> f = cubic_factory \<or> name = ''fixed'' \<and> f = fixed_factory"
  by (auto simp: cc_Get_def cc_modules_def cc_Register_def split: if_splits)

section \<open>The contract of a congestion controller\<close>

text \<open>
  The calls the ack handler makes on a path whose datagram size is \<open>m\<close>: sizes are not
  negative and the datagram size only grows (path MTU discovery).
\<close>

fun event_ok :: "int \<Rightarrow> cc_event \<Rightarrow> bool" where
  "event_ok m (OnPacketSent t inFlight pn bytes retr) = (0 \<le> bytes)"
| "event_ok m (SetMaxDatagramSize s) = (m \<le> s \<and> s \<le> 65535)"
| "event_ok m e = True"

fun datagram_size :: "int \<Rightarrow> cc_event \<Rightarrow> int" where
  "datagram_size m (SetMaxDatagramSize s) = s"
| "datagram_size m e = m"

text \<open>The calls that may shrink the window of a sender that cut back at packet \<open>k\<close>.\<close>

fun cuts_back :: "int \<Rightarrow> cc_event \<Rightarrow> bool" where
  "cuts_back k (OnCongestionEvent pn bytes prior) = (k < pn)"
| "cuts_back k (OnRetransmissionTimeout r) = True"
| "cuts_back k e = False"

fun events_ok :: "int \<Rightarrow> (RTTStats \<times> cc_event) list \<Rightarrow> bool" where
  "events_ok m [] = True"
| "events_ok m ((rtt, e) # es) = (rtt_ok rtt \<and> event_ok m e \<and> events_ok (datagram_size m e) es)"

fun run_events ::
  "(RTTStats \<Rightarrow> cc_event \<Rightarrow> 's \<Rightarrow> go_panic + 's) \<Rightarrow> (RTTStats \<times> cc_event) list \<Rightarrow> 's \<Rightarrow> go_panic + 's" where
  "run_events exec [] s = Inr s"
| "run_events exec ((rtt, e) # es) s =
     (case exec rtt e s of Inl p \<Rightarrow> Inl p | Inr s' \<Rightarrow> run_events exec es s')"

locale send_algorithm =
  fixes exec :: "RTTStats \<Rightarrow> cc_event \<Rightarrow> 's \<Rightarrow> go_panic + 's"
    and can_send :: "int \<Rightarrow> 's \<Rightarrow> bool"
    and window :: "'s \<Rightarrow> int"
    and inv :: "int \<Rightarrow> 's \<Rightarrow> bool"
  assumes can_send_iff: "can_send b s \<longleftrightarrow> b < window s"
    and window_range: "inv m s \<Longrightarrow> 0 < window s \<and> window s < 10001 * m"
    and exec_inv: "inv m s \<Longrightarrow> rtt_ok rtt \<Longrightarrow> event_ok m e \<Longrightarrow>
          \<exists>s'. exec rtt e s = Inr s' \<and> inv (datagram_size m e) s'"
begin

lemma idle_can_send: "inv m s \<Longrightarrow> can_send 0 s"
  using window_range by (simp add: can_send_iff)

lemma send_bounded: "inv m s \<Longrightarrow> can_send b s \<Longrightarrow> sz \<le> m \<Longrightarrow> b + sz \<le> 10002 * m"
  using window_range [of m s] by (simp add: can_send_iff)

lemma no_panic: "inv m s \<Longrightarrow> rtt_ok rtt \<Longrightarrow> event_ok m e \<Longrightarrow> exec rtt e s \<noteq> Inl p"
  using exec_inv by fastforce

lemma exec_Inr: "inv m s \<Longrightarrow> rtt_ok rtt \<Longrightarrow> event_ok m e \<Longrightarrow> exec rtt e s = Inr s' \<Longrightarrow>
    inv (datagram_size m e) s'"
  using exec_inv by fastforce

lemma run_total:
  "inv m s \<Longrightarrow> events_ok m es \<Longrightarrow> \<exists>m' s'. run_events exec es s = Inr s' \<and> inv m' s'"
proof (induction es arbitrary: m s)
  case (Cons x es)
  then obtain rtt e where x: "x = (rtt, e)" "rtt_ok rtt" "event_ok m e" "events_ok (datagram_size m e) es"
    by (cases x) auto
  from exec_inv [OF Cons.prems(1) x(2,3)] obtain s' where
    "exec rtt e s = Inr s'" "inv (datagram_size m e) s'" by blast
  with Cons.IH [of "datagram_size m e" s'] x show ?case by auto
qed auto

end

text \<open>A controller that reacts to loss, once per window of packets.\<close>

locale loss_responsive = send_algorithm +
  fixes cutback :: "'a \<Rightarrow> int"
  assumes grows: "inv m s \<Longrightarrow> rtt_ok rtt \<Longrightarrow> event_ok m e \<Longrightarrow> \<not> cuts_back (cutback s) e \<Longrightarrow>
      exec rtt e s = Inr s' \<Longrightarrow> window s \<le> window s' \<and> cutback s' = cutback s"
begin

lemma window_kept:
  "inv m s \<Longrightarrow> events_ok m es \<Longrightarrow> \<forall>x\<in>set es. \<not> cuts_back (cutback s) (snd x) \<Longrightarrow>
     \<exists>s'. run_events exec es s = Inr s' \<and> window s \<le> window s'"
proof (induction es arbitrary: m s)
  case (Cons x es)
  then obtain rtt e where x: "x = (rtt, e)" "rtt_ok rtt" "event_ok m e" "events_ok (datagram_size m e) es"
    and e: "\<not> cuts_back (cutback s) e"
    by (cases x) auto
  from exec_inv [OF Cons.prems(1) x(2,3)] obtain s' where
    s': "exec rtt e s = Inr s'" "inv (datagram_size m e) s'" by blast
  with grows [OF Cons.prems(1) x(2,3) e] have g: "window s \<le> window s'" "cutback s' = cutback s"
    by auto
  with Cons.IH [OF s'(2) x(4)] Cons.prems(3) obtain s'' where
    "run_events exec es s' = Inr s''" "window s' \<le> window s''" by auto
  with s' g x show ?case by auto
qed auto

end

section \<open>The modules keep the contract\<close>

definition fixed_inv :: "int \<Rightarrow> fixedWindowSender \<Rightarrow> bool" where
  "fixed_inv m f \<longleftrightarrow> 0 < m \<and> m \<le> 65535 \<and> 0 < fw_window f \<and> fw_window f \<le> 64 * m"

fun cc_inv :: "int \<Rightarrow> SendAlgorithm \<Rightarrow> bool" where
  "cc_inv m (Fixed f) = fixed_inv m f"
| "cc_inv m (Cubic c) = reno_inv m c"

interpretation fixed_window: send_algorithm fixed_exec fixed_CanSend fixed_GetCongestionWindow fixed_inv
proof unfold_locales
  fix m :: int and s :: fixedWindowSender and rtt e
  assume "fixed_inv m s" and "event_ok m e"
  then show "\<exists>s'. fixed_exec rtt e s = Inr s' \<and> fixed_inv (datagram_size m e) s'"
    by (cases e) (auto simp: fixed_inv_def fixed_OnPacketSent_def fixed_MaybeExitSlowStart_def
        fixed_OnPacketAcked_def fixed_OnCongestionEvent_def fixed_OnRetransmissionTimeout_def
        fixed_SetMaxDatagramSize_def)
qed (auto simp: fixed_CanSend_def fixed_GetCongestionWindow_def fixed_inv_def)

lemma cubic_exec_inv:
  assumes "reno_inv m c" and "rtt_ok rtt" and "event_ok m e"
  shows "\<exists>c'. cubic_exec rtt e c = Inr c' \<and> reno_inv (datagram_size m e) c' \<and>
    (\<not> cuts_back (cu_largestSentAtLastCutback c) e \<longrightarrow>
       cu_congestionWindow c \<le> cu_congestionWindow c' \<and>
       cu_largestSentAtLastCutback c' = cu_largestSentAtLastCutback c)"
proof (cases e)
  case (OnPacketSent t inFlight pn bytes retr)
  with cubic_OnPacketSent_inv [OF assms(2,1)] assms(3) show ?thesis by fastforce
next
  case MaybeExitSlowStart
  with cubic_MaybeExitSlowStart_inv [OF assms(1)] show ?thesis by fastforce
next
  case (OnPacketAcked pn bytes prior t)
  with cubic_OnPacketAcked_inv [OF assms(1), of pn prior] assms(1) show ?thesis
    by (auto simp: reno_inv_def)
next
  case (OnCongestionEvent pn bytes prior)
  then show ?thesis
    using cubic_OnCongestionEvent_old [OF assms(1), of pn bytes]
      cubic_OnCongestionEvent_new(4) [OF assms(1), of pn bytes]
    by (cases "pn \<le> cu_largestSentAtLastCutback c") auto
next
  case (OnRetransmissionTimeout r)
  with cubic_OnRetransmissionTimeout_inv [OF assms(1)] show ?thesis by auto
next
  case (SetMaxDatagramSize s)
  with cubic_SetMaxDatagramSize_inv [OF assms(1), of s] assms(3) show ?thesis by auto
qed

interpretation reno: loss_responsive cubic_exec cubic_CanSend cubic_GetCongestionWindow reno_inv
  cu_largestSentAtLastCutback
proof unfold_locales
  fix m :: int and s s' :: cubicSender and rtt e
  assume *: "reno_inv m s" "rtt_ok rtt" "event_ok m e"
  show "\<exists>s'. cubic_exec rtt e s = Inr s' \<and> reno_inv (datagram_size m e) s'"
    using cubic_exec_inv [OF *] by blast
  assume "\<not> cuts_back (cu_largestSentAtLastCutback s) e" and "cubic_exec rtt e s = Inr s'"
  with cubic_exec_inv [OF *] show "cubic_GetCongestionWindow s \<le> cubic_GetCongestionWindow s' \<and>
      cu_largestSentAtLastCutback s' = cu_largestSentAtLastCutback s"
    by (auto simp: cubic_GetCongestionWindow_def)
qed (auto simp: cubic_CanSend_def cubic_GetCongestionWindow_def reno_inv_def)

interpretation cc: send_algorithm cc_exec cc_CanSend cc_GetCongestionWindow cc_inv
proof unfold_locales
  fix m :: int and s :: SendAlgorithm and rtt e
  assume *: "cc_inv m s" "rtt_ok rtt" "event_ok m e"
  show "\<exists>s'. cc_exec rtt e s = Inr s' \<and> cc_inv (datagram_size m e) s'"
  proof (cases s)
    case (Fixed f)
    with fixed_window.exec_inv [of m f rtt e] * show ?thesis by auto
  next
    case (Cubic c)
    with reno.exec_inv [of m c rtt e] * show ?thesis by auto
  qed
next
  fix b s
  show "cc_CanSend b s \<longleftrightarrow> b < cc_GetCongestionWindow s"
    by (cases s) (simp_all add: fixed_window.can_send_iff reno.can_send_iff)
next
  fix m s
  assume "cc_inv m s"
  then show "0 < cc_GetCongestionWindow s \<and> cc_GetCongestionWindow s < 10001 * m"
    using fixed_window.window_range reno.window_range by (cases s) auto
qed

section \<open>A path under a congestion controller\<close>

text \<open>
  The part of \<^verbatim>\<open>third_party/quic-go/internal/ackhandler/sent_packet_handler.go\<close> that talks to
  the controller: \<^verbatim>\<open>SendMode\<close> lets a packet out when the window and the pacer allow it,
  \<^verbatim>\<open>SentPacket\<close> counts it in \<^verbatim>\<open>bytesInFlight\<close>, and acknowledged and lost packets are taken off
  by \<^verbatim>\<open>removeFromBytesInFlight\<close>.  Probe packets after a timeout, which bypass the window, and
  the drop of a packet number space are left out.
\<close>

record packet_flow =
  pf_alg :: SendAlgorithm
  pf_datagram :: int
  pf_inFlight :: int

text \<open>\<open>flow_call rtt s e b\<close>: the handler may make the call \<open>e\<close>, leaving \<open>b\<close> bytes in flight.\<close>

inductive flow_call :: "RTTStats \<Rightarrow> packet_flow \<Rightarrow> cc_event \<Rightarrow> int \<Rightarrow> bool" for rtt s where
  send: "cc_CanSend (pf_inFlight s) (pf_alg s) \<Longrightarrow> cc_HasPacingBudget rtt t (pf_alg s) = Inr True \<Longrightarrow>
     0 < sz \<Longrightarrow> sz \<le> pf_datagram s \<Longrightarrow>
     flow_call rtt s (OnPacketSent t (pf_inFlight s + sz) pn sz True) (pf_inFlight s + sz)"
| send_ack: "0 < sz \<Longrightarrow> flow_call rtt s (OnPacketSent t (pf_inFlight s) pn sz False) (pf_inFlight s)"
| acked: "0 < sz \<Longrightarrow> sz \<le> pf_inFlight s \<Longrightarrow>
     flow_call rtt s (OnPacketAcked pn sz prior t) (pf_inFlight s - sz)"
| lost: "0 < sz \<Longrightarrow> sz \<le> pf_inFlight s \<Longrightarrow>
     flow_call rtt s (OnCongestionEvent pn sz prior) (pf_inFlight s - sz)"
| ecn: "flow_call rtt s (OnCongestionEvent pn 0 prior) (pf_inFlight s)"
| rtt_sample: "flow_call rtt s MaybeExitSlowStart (pf_inFlight s)"
| mtu: "pf_datagram s \<le> sz \<Longrightarrow> sz \<le> 65535 \<Longrightarrow> flow_call rtt s (SetMaxDatagramSize sz) (pf_inFlight s)"

definition flow_exec :: "RTTStats \<Rightarrow> cc_event \<Rightarrow> int \<Rightarrow> packet_flow \<Rightarrow> go_panic + packet_flow" where
  "flow_exec rtt e b s =
     map_sum id (\<lambda>a. \<lparr>pf_alg = a, pf_datagram = datagram_size (pf_datagram s) e, pf_inFlight = b\<rparr>)
       (cc_exec rtt e (pf_alg s))"

inductive flow_reachable :: "packet_flow \<Rightarrow> packet_flow \<Rightarrow> bool" for s0 where
  start: "flow_reachable s0 s0"
| step: "flow_reachable s0 s \<Longrightarrow> rtt_ok rtt \<Longrightarrow> flow_call rtt s e b \<Longrightarrow> flow_exec rtt e b s = Inr s' \<Longrightarrow>
     flow_reachable s0 s'"

definition flow_inv :: "packet_flow \<Rightarrow> bool" where
  "flow_inv s \<longleftrightarrow> cc_inv (pf_datagram s) (pf_alg s) \<and>
     0 \<le> pf_inFlight s \<and> pf_inFlight s \<le> 10002 * pf_datagram s"

lemma flow_call_ok:
  assumes "flow_call rtt s e b" and "flow_inv s"
  shows "event_ok (pf_datagram s) e" and "0 \<le> b" and "b \<le> 10002 * datagram_size (pf_datagram s) e"
proof -
  have "event_ok (pf_datagram s) e \<and> 0 \<le> b \<and> b \<le> 10002 * datagram_size (pf_datagram s) e"
    using assms
  proof cases
    case (send t sz pn)
    with assms(2) cc.send_bounded [of "pf_datagram s" "pf_alg s" "pf_inFlight s" sz] show ?thesis
      by (simp add: flow_inv_def)
  qed (use assms(2) in \<open>auto simp: flow_inv_def\<close>)
  then show "event_ok (pf_datagram s) e" and "0 \<le> b" and "b \<le> 10002 * datagram_size (pf_datagram s) e"
    by auto
qed

lemma flow_exec_inv:
  assumes "flow_inv s" and "rtt_ok rtt" and "flow_call rtt s e b"
  shows "\<exists>s'. flow_exec rtt e b s = Inr s' \<and> flow_inv s'"
proof -
  have "cc_inv (pf_datagram s) (pf_alg s)"
    using assms(1) by (simp add: flow_inv_def)
  from cc.exec_inv [OF this assms(2) flow_call_ok(1) [OF assms(3,1)]] obtain a where
    "cc_exec rtt e (pf_alg s) = Inr a" "cc_inv (datagram_size (pf_datagram s) e) a" by blast
  with flow_call_ok(2,3) [OF assms(3,1)] show ?thesis
    by (simp add: flow_exec_def flow_inv_def)
qed

lemma flow_reachable_inv: "flow_reachable s0 s \<Longrightarrow> flow_inv s0 \<Longrightarrow> flow_inv s"
proof (induction rule: flow_reachable.induct)
  case (step s rtt e b s')
  then show ?case using flow_exec_inv [of s rtt e b] by auto
qed

lemma factory_inv:
  assumes "cc_Get name cc_modules = Inr f" and "rtt_ok rtt" and "0 < m" and "m \<le> 65535"
  shows "\<exists>a. f rtt m = Inr a \<and> cc_inv m a"
  using assms NewCubicSender_inv [OF assms(2-4)]
  by (auto simp: cc_Get_cases cubic_factory_def fixed_factory_def fixed_inv_def)

definition sample_rtt :: RTTStats where
  "sample_rtt = \<lparr>rtt_min = 20000000, rtt_latest = 25000000, rtt_smoothed = 22000000\<rparr>"



text \<open>
  C23: A loss of a packet sent after the last cutback takes the window of the module \<^verbatim>\<open>cubic\<close>
  to seven tenths (rounded down, or one byte less where float64 rounds below), but never
  under two datagrams, ends slow start, and is answered once: until the sender transmits a
  packet beyond those already sent, no further loss, in whatever order it is reported among
  acknowledgements and other calls, shrinks the window again.
\<close>

theorem reno_loss_answered_once:
  assumes "reno_inv m c" and "cu_largestSentAtLastCutback c < pn" and "events_ok m es"
    and "\<forall>x\<in>set es. \<not> cuts_back (cu_largestSent c) (snd x)"
  shows "let w = cubic_GetCongestionWindow c; c' = cubic_OnCongestionEvent pn lost c;
             w' = cubic_GetCongestionWindow c'
         in (w' = 2 * m \<or> 2 * m < w' \<and> 10 * w' \<le> 7 * w \<and> 7 * w - 10 \<le> 10 * w') \<and>
            7 * w - 10 \<le> 10 * w' \<and> \<not> cubic_InSlowStart c' \<and>
            (\<exists>c''. run_events cubic_exec es c' = Inr c'' \<and> w' \<le> cubic_GetCongestionWindow c'')"
proof -
  let ?c = "cubic_OnCongestionEvent pn lost c"
  note new = cubic_OnCongestionEvent_new [OF assms(1,2), of lost]
  have "0 < cu_congestionWindow c" "cu_congestionWindow c < 2 ^ 40"
    using assms(1) by (auto simp: reno_inv_def)
  note b = reno_backoff_bounds [OF this]
  have "\<exists>c''. run_events cubic_exec es ?c = Inr c'' \<and>
      cubic_GetCongestionWindow ?c \<le> cubic_GetCongestionWindow c''"
    by (rule reno.window_kept [OF new(4) assms(3)]) (use assms(4) new(3) in auto)
  with new(1,2) b show ?thesis
    by (auto simp: Let_def cubic_GetCongestionWindow_def cubic_InSlowStart_def max_def)
qed

definition sample_sender :: cubicSender where
  "sample_sender = projr (cubic_OnPacketSent sample_rtt 1000 5 1280 True (projr (NewCubicSender sample_rtt 1280)))"

theorem reno_loss_answered_once_witness:
  "cubic_GetCongestionWindow (cubic_OnCongestionEvent 3 1280 sample_sender) = 28672 \<and>
   (\<exists>c''. run_events cubic_exec
        [(sample_rtt, OnCongestionEvent 4 1280 40960), (sample_rtt, OnPacketAcked 5 1280 40960 2000)]
        (cubic_OnCongestionEvent 3 1280 sample_sender) = Inr c'' \<and> 28672 \<le> cubic_GetCongestionWindow c'')"
proof -
  have "reno_inv 1280 sample_sender" and "cu_largestSentAtLastCutback sample_sender < 3"
    and "cu_largestSent sample_sender = 5"
    by code_simp+
  moreover have "events_ok 1280
      [(sample_rtt, OnCongestionEvent 4 1280 40960), (sample_rtt, OnPacketAcked 5 1280 40960 2000)]"
    by code_simp
  moreover have "cubic_GetCongestionWindow (cubic_OnCongestionEvent 3 1280 sample_sender) = 28672"
    by code_simp
  ultimately show ?thesis
    using reno_loss_answered_once [of 1280 sample_sender 3
      "[(sample_rtt, OnCongestionEvent 4 1280 40960), (sample_rtt, OnPacketAcked 5 1280 40960 2000)]" 1280]
    by (simp add: Let_def)
qed

end
