(* ===== verification/Mpq_Connect.thy ===== *)
theory Mpq_Connect
  imports Mpq_Client Mpq_Reassembler Mpq_CCModules
begin

text \<open>
  How the client gets its paths and lets go of them: the TLS configurations of
  \<^verbatim>\<open>internal/tlsconfig\<close>, the random session number and payload, dialing and preambles
  (\<^verbatim>\<open>dialPath\<close> and the loops of \<^verbatim>\<open>main\<close> in \<^verbatim>\<open>cmd/client/main.go\<close>), and the drain handshake
  that ends a path (\<^verbatim>\<open>drainPath\<close>).  The operating system, the QUIC connection and the crypto
  library are parameters: each call is a function from its arguments to an error or a value.
\<close>

section \<open>TLS configurations\<close>

definition ALPN :: string where "ALPN = ''mpquic-exp/1''"

record cert_template =
  ct_SerialNumber :: int
  ct_Organization :: "string list"
  ct_NotBefore :: int
  ct_NotAfter :: int
  ct_DigitalSignature :: bool
  ct_CertSign :: bool
  ct_ServerAuth :: bool
  ct_IsCA :: bool

record 'key tls_config =
  tc_Certificates :: "(byte list list \<times> 'key) list"
  tc_InsecureSkipVerify :: bool
  tc_NextProtos :: "string list"

datatype tls_error = GeneratingKey io_err | CreatingCertificate io_err

definition Hour :: int where "Hour = 3600000000000"

text \<open>
  \<open>gen\<close> is \<^verbatim>\<open>ecdsa.GenerateKey\<close>, \<open>create\<close> is \<^verbatim>\<open>x509.CreateCertificate\<close>; \<open>t1\<close> and \<open>t2\<close> are the
  two clock readings, in nanoseconds.
\<close>

definition ServerConfig ::
  "io_err + 'key \<Rightarrow> (cert_template \<Rightarrow> 'key \<Rightarrow> io_err + byte list) \<Rightarrow> int \<Rightarrow> int \<Rightarrow> tls_error + 'key tls_config" where
  "ServerConfig gen create t1 t2 =
     (case gen of
        Inl e \<Rightarrow> Inl (GeneratingKey e)
      | Inr key \<Rightarrow>
          (let tmpl = \<lparr>ct_SerialNumber = 1, ct_Organization = [''mpquic-experiment''],
                       ct_NotBefore = t1 - Hour, ct_NotAfter = t2 + 365 * 24 * Hour,
                       ct_DigitalSignature = True, ct_CertSign = True, ct_ServerAuth = True,
                       ct_IsCA = True\<rparr>
           in case create tmpl key of
                Inl e \<Rightarrow> Inl (CreatingCertificate e)
              | Inr der \<Rightarrow> Inr \<lparr>tc_Certificates = [([der], key)], tc_InsecureSkipVerify = False,
                               tc_NextProtos = [ALPN]\<rparr>))"

definition ClientConfig :: "'key tls_config" where
  "ClientConfig = \<lparr>tc_Certificates = [], tc_InsecureSkipVerify = True, tc_NextProtos = [ALPN]\<rparr>"

text \<open>The two sides offer the same, single application protocol.\<close>

lemma tls_protocols_agree:
  "ServerConfig gen create t1 t2 = Inr cfg \<Longrightarrow>
     tc_NextProtos cfg = tc_NextProtos ClientConfig \<and> tc_NextProtos cfg = [ALPN] \<and>
     length (tc_Certificates cfg) = 1"
  by (auto simp: ServerConfig_def ClientConfig_def Let_def split: sum.splits)

section \<open>Random data\<close>

text \<open>\<open>rnd n\<close> is what \<^verbatim>\<open>crypto/rand\<close> delivers for \<open>n\<close> bytes.\<close>

definition NewSessionID :: "(nat \<Rightarrow> io_err + byte list) \<Rightarrow> go_panic + SessionID" where
  "NewSessionID rnd =
     (case rnd 16 of
        Inl e \<Rightarrow> Inl RandomnessFailed
      | Inr bs \<Rightarrow> Inr (be_word bs))"

definition GenerateRandomPayload ::
  "(nat \<Rightarrow> io_err + byte list) \<Rightarrow> u64 \<Rightarrow> go_panic + (io_err + byte list)" where
  "GenerateRandomPayload rnd n =
     (if unat n > max_alloc then Inl MakeSliceLen
      else Inr (rnd (unat n)))"

section \<open>Dialing a path\<close>

record ('ip, 'sock, 'addr, 'conn) net_env =
  ne_ParseIP :: "string \<Rightarrow> 'ip option"
  ne_ListenUDP :: "'ip option \<Rightarrow> io_err + 'sock"
  ne_ResolveUDPAddr :: "string \<Rightarrow> io_err + 'addr"
  ne_Dial :: "'sock \<Rightarrow> 'addr \<Rightarrow> Factory \<Rightarrow> io_err + 'conn"
  ne_OpenStream :: "'conn \<Rightarrow> io_err + wstream"

datatype dial_error =
    BindingLocal io_err
  | ResolvingServer io_err
  | UnknownModule registry_error
  | QuicDial io_err
  | OpeningStream io_err

definition local2IP :: "(string \<Rightarrow> 'ip option) \<Rightarrow> string \<Rightarrow> 'ip option" where
  "local2IP ParseIP s = (if s = [] then None else ParseIP s)"

definition dialPath ::
  "('ip, 'sock, 'addr, 'conn) net_env \<Rightarrow> nat \<Rightarrow> string \<Rightarrow> string \<Rightarrow> string \<Rightarrow> dial_error + pathConn" where
  "dialPath env index local server ccName =
     (case ne_ListenUDP env (local2IP (ne_ParseIP env) local) of
        Inl e \<Rightarrow> Inl (BindingLocal e)
      | Inr udpConn \<Rightarrow>
     (case ne_ResolveUDPAddr env server of
        Inl e \<Rightarrow> Inl (ResolvingServer e)
      | Inr serverUDPAddr \<Rightarrow>
     (case cc_Get ccName cc_modules of
        Inl e \<Rightarrow> Inl (UnknownModule e)
      | Inr ccFactory \<Rightarrow>
     (case ne_Dial env udpConn serverUDPAddr ccFactory of
        Inl e \<Rightarrow> Inl (QuicDial e)
      | Inr conn \<Rightarrow>
     (case ne_OpenStream env conn of
        Inl e \<Rightarrow> Inl (OpeningStream e)
      | Inr stream \<Rightarrow>
          Inr \<lparr>pc_index = int index, pc_stream = stream, pc_ccName = ccName,
               pc_bytesSent = 0, pc_chunksSent = 0\<rparr>)))))"

section \<open>Connecting\<close>

datatype connect_error = DialingPath nat dial_error | SendingPreamble nat io_err

text \<open>The dialing loop of \<^verbatim>\<open>main\<close>: paths in order, the first error ends the program.\<close>

fun dial_paths ::
  "('ip, 'sock, 'addr, 'conn) net_env \<Rightarrow> string \<Rightarrow> nat \<Rightarrow> (string \<times> string) list \<Rightarrow>
     connect_error + pathConn list" where
  "dial_paths env server i [] = Inr []"
| "dial_paths env server i ((local, cc) # ps) =
     (case dialPath env i local server cc of
        Inl e \<Rightarrow> Inl (DialingPath i e)
      | Inr pc \<Rightarrow> map_sum id (Cons pc) (dial_paths env server (i + 1) ps))"

text \<open>The preamble loop.\<close>

fun send_preambles :: "ControlHeader \<Rightarrow> nat \<Rightarrow> pathConn list \<Rightarrow> connect_error + pathConn list" where
  "send_preambles ctrl i [] = Inr []"
| "send_preambles ctrl i (pc # pcs) =
     (case send_preamble ctrl i (pc_stream pc) of
        (Some e, w) \<Rightarrow> Inl (SendingPreamble i e)
      | (None, w) \<Rightarrow> map_sum id (Cons (pc\<lparr>pc_stream := w\<rparr>)) (send_preambles ctrl (i + 1) pcs))"

definition client_connect ::
  "('ip, 'sock, 'addr, 'conn) net_env \<Rightarrow> flags \<Rightarrow> plan \<Rightarrow> connect_error + pathConn list" where
  "client_connect env f pl =
     (case dial_paths env (fl_server f) 0 (zip (pl_locals pl) (pl_ccNames pl)) of
        Inl e \<Rightarrow> Inl e
      | Inr paths \<Rightarrow> send_preambles (pl_ctrl pl) 0 paths)"

section \<open>Draining a path\<close>

text \<open>
  \<open>close\<close> is the result of \<^verbatim>\<open>stream.Close\<close>, \<open>rs\<close> the receiving side of the stream up to the
  read deadline.  A failure to set the deadline is only logged.
\<close>

datatype drain_result = CloseFailed io_err | NoConfirmation io_err | Confirmed

definition drainPath :: "io_err option \<Rightarrow> rstream \<Rightarrow> drain_result" where
  "drainPath close rs =
     (case close of
        Some e \<Rightarrow> CloseFailed e
      | None \<Rightarrow>
          (case read_full 1 rs of
             Inl e \<Rightarrow> NoConfirmation e
           | Inr (ack, rs') \<Rightarrow> Confirmed))"

definition drainPaths :: "(io_err option \<times> rstream) list \<Rightarrow> drain_result list" where
  "drainPaths paths = map (\<lambda>(close, rs). drainPath close rs) paths"

section \<open>What a connected client has\<close>

text \<open>\<open>fresh_streams env\<close>: a stream the connection opens is writable and has nothing on it.\<close>

definition fresh_streams :: "('ip, 'sock, 'addr, 'conn) net_env \<Rightarrow> bool" where
  "fresh_streams env \<longleftrightarrow>
     (\<forall>conn w. ne_OpenStream env conn = Inr w \<longrightarrow> w = \<lparr>wout = [], wstat = Healthy\<rparr>)"

definition fresh_path :: "nat \<Rightarrow> string \<Rightarrow> pathConn" where
  "fresh_path i cc = \<lparr>pc_index = int i, pc_stream = \<lparr>wout = [], wstat = Healthy\<rparr>, pc_ccName = cc,
     pc_bytesSent = 0, pc_chunksSent = 0\<rparr>"

lemma dialPath_Inr:
  assumes "dialPath env i local server cc = Inr pc" and "fresh_streams env"
  shows "pc = fresh_path i cc" and "cc \<in> {''cubic'', ''fixed''}"
  using assms by (auto simp: dialPath_def fresh_streams_def fresh_path_def cc_Get_cases split: sum.splits)

lemma dial_paths_Inr:
  assumes "dial_paths env server i ps = Inr pcs" and "fresh_streams env"
  shows "length pcs = length ps" and "\<forall>k<length ps. pcs ! k = fresh_path (i + k) (snd (ps ! k))"
    and "snd ` set ps \<subseteq> {''cubic'', ''fixed''}"
proof -
  have "length pcs = length ps \<and> (\<forall>k<length ps. pcs ! k = fresh_path (i + k) (snd (ps ! k))) \<and>
      snd ` set ps \<subseteq> {''cubic'', ''fixed''}"
    using assms(1)
  proof (induction ps arbitrary: i pcs)
    case (Cons x ps)
    obtain local cc where x: "x = (local, cc)" by (cases x)
    from Cons.prems obtain pc pcs' where "dialPath env i local server cc = Inr pc"
        "dial_paths env server (i + 1) ps = Inr pcs'" "pcs = pc # pcs'"
      by (auto simp: x split: sum.splits simp: map_sum_def)
    with Cons.IH [of "i + 1" pcs'] dialPath_Inr [OF _ assms(2)] show ?case
      by (auto simp: x nth_Cons split: nat.splits)
  qed simp
  then show "length pcs = length ps" and "\<forall>k<length ps. pcs ! k = fresh_path (i + k) (snd (ps ! k))"
    and "snd ` set ps \<subseteq> {''cubic'', ''fixed''}" by blast+
qed

lemma send_preambles_Inr:
  assumes "send_preambles ctrl i pcs = Inr pcs'"
  shows "length pcs' = length pcs \<and> (\<forall>k<length pcs. \<exists>w.
     send_preamble ctrl (i + k) (pc_stream (pcs ! k)) = (None, w) \<and> pcs' ! k = (pcs ! k)\<lparr>pc_stream := w\<rparr>)"
  using assms
proof (induction pcs arbitrary: i pcs')
  case (Cons pc pcs)
  from Cons.prems obtain w rest where "send_preamble ctrl i (pc_stream pc) = (None, w)"
      "send_preambles ctrl (i + 1) pcs = Inr rest" "pcs' = pc\<lparr>pc_stream := w\<rparr> # rest"
    by (auto split: prod.splits option.splits sum.splits simp: map_sum_def)
  with Cons.IH [of "i + 1" rest] show ?case
    by (auto simp: nth_Cons split: nat.splits)
qed simp

end
