(* ===== verification/Mpq_Transfer.thy ===== *)
theory Mpq_Transfer
  imports Mpq_EndToEnd Mpq_Connect
begin

text \<open>
  Whole runs of the two programs: a one-shot transfer from the client's flags to the server's
  verdict, with dialing, preambles, send loop, connection handlers and session composed as the
  programs compose them, and what the drain handshake at the end of a path proves.
\<close>

section \<open>Connecting\<close>

lemma client_connect_Inr:
  assumes "client_setup f sid = Inr pl" and "fresh_streams env" and "client_connect env f pl = Inr paths"
  shows "length paths = length (pl_locals pl)"
    and "\<forall>k<length paths. pc_index (paths ! k) = int k \<and> pc_ccName (paths ! k) = pl_ccNames pl ! k \<and>
           send_preamble (pl_ctrl pl) k \<lparr>wout = [], wstat = Healthy\<rparr> = (None, pc_stream (paths ! k))"
    and "set (pl_ccNames pl) \<subseteq> {''cubic'', ''fixed''}"
proof -
  let ?ps = "zip (pl_locals pl) (pl_ccNames pl)"
  note lens = client_setup_plan(2) [OF assms(1)]
  obtain pcs where pcs: "dial_paths env (fl_server f) 0 ?ps = Inr pcs"
      "send_preambles (pl_ctrl pl) 0 pcs = Inr paths"
    using assms(3) by (auto simp: client_connect_def split: sum.splits)
  note dialed = dial_paths_Inr [OF pcs(1) assms(2)]
  note sent = send_preambles_Inr [OF pcs(2)]
  show len: "length paths = length (pl_locals pl)"
    using dialed(1) sent lens by simp
  show "\<forall>k<length paths. pc_index (paths ! k) = int k \<and> pc_ccName (paths ! k) = pl_ccNames pl ! k \<and>
      send_preamble (pl_ctrl pl) k \<lparr>wout = [], wstat = Healthy\<rparr> = (None, pc_stream (paths ! k))"
  proof (intro allI impI)
    fix k assume "k < length paths"
    with len lens have k: "k < length ?ps" "k < length pcs" using dialed(1) by simp_all
    from sent k(2) obtain w where "send_preamble (pl_ctrl pl) k (pc_stream (pcs ! k)) = (None, w)"
        "paths ! k = (pcs ! k)\<lparr>pc_stream := w\<rparr>" by auto
    with dialed(2) k(1) show "pc_index (paths ! k) = int k \<and> pc_ccName (paths ! k) = pl_ccNames pl ! k \<and>
        send_preamble (pl_ctrl pl) k \<lparr>wout = [], wstat = Healthy\<rparr> = (None, pc_stream (paths ! k))"
      by (auto simp: fresh_path_def)
  qed
  show "set (pl_ccNames pl) \<subseteq> {''cubic'', ''fixed''}"
    using dialed(3) lens by (metis map_snd_zip set_map)
qed

lemma client_connect_paths_wf:
  assumes "client_setup f sid = Inr pl" and "fresh_streams env" and "client_connect env f pl = Inr paths"
    and "length paths < 2 ^ 32"
  shows "paths_wf paths"
proof -
  have "map pc_index paths = map int [0..<length paths]"
    by (rule nth_equalityI) (use client_connect_Inr(2) [OF assms(1-3)] in simp_all)
  moreover have "paths \<noteq> []"
    using client_connect_Inr(1) [OF assms(1-3)] client_setup_plan(1) [OF assms(1)] by auto
  ultimately show ?thesis
    using assms(4) by (simp add: paths_wf_def)
qed

section \<open>A one-shot run\<close>

text \<open>
  C1: a complete one-shot run.  The flags are accepted, the client dials its paths (under
  any congestion control module, over streams that start empty), writes the preambles,
  draws the payload, splits it and sends it, under any scheduler and any interleaving of
  dispatcher and workers, until the send loop ends.  Every path is read by a server handler
  from its first byte to its end of stream, and the handlers act on the session in any
  order that starts with the control header.  Then every handler serves this client's
  session and acknowledges its path (if the acknowledgement can be written), no step of the
  server panics, the session comes to its single verdict: integrity confirmed, one report
  per path, and the reassembled file is the payload, byte for byte.
\<close>

theorem transfer_end_to_end:
  assumes accepted: "client_setup f sid = Inr pl" "\<not> fl_continuous f"
    and connected: "fresh_streams net" "client_connect net f pl = Inr paths" "length paths < 2 ^ 32"
    and payload: "GenerateRandomPayload rnd (fl_size f) = Inr (Inr data)" "length data = unat (fl_size f)"
      "fl_size f \<noteq> 0"
    and split: "Split data (ucast (fl_chunkSize f)) 0 (fl_size f) = Some chunks"
    and sent: "send_step\<^sup>*\<^sup>* (send_init chunks paths (pl_sched pl) progress) st" "send_final st"
    and received: "length results = length paths"
      "\<forall>k<length paths. ce_ready (env k) \<and>
         handleConn (env k) \<lparr>rbuf = wout (pc_stream (sd_paths st ! k)), rend = EOF\<rparr> = Some (results ! k)"
    and mixed: "interleave (map cr_ops results) (op # rest)" "is_start op"
  shows "(\<forall>k<length paths. cr_session (results ! k) = sid \<and> cr_ack (results ! k) = ce_ackOk (env k)) \<and>
    (\<exists>s s' r. session_run (new_session sid every) (op # rest) s \<and>
       op_enabled (OpWait now order ps) s \<and> op_exec (OpWait now order ps) s = Inr s' \<and>
       ss_results s' = [r] \<and> rr_IntegrityOK r \<and> length (rr_Paths r) = length paths \<and>
       map_option Reassembler_Bytes (ss_reassembler s') = Some data)"
proof -
  note conn = client_connect_Inr [OF accepted(1) connected(1,2)]
  have small: "length data \<le> max_alloc"
    using payload by (simp add: GenerateRandomPayload_def split: if_splits)
  have size: "fl_size f = len_u64 data"
    using payload(2) by (simp add: len_u64_def)
  have "data \<noteq> []"
    using payload(2,3) by (metis list.size(3) unat_eq_zero)
  from transfer_verdict [OF accepted size this small client_connect_paths_wf [OF accepted(1) connected]
      conn(1) connected(3) _ split sent received mixed] conn(2)
  show ?thesis by blast
qed

text \<open>The witness: one path, two bytes, a network whose calls all succeed.\<close>

definition sample_net :: "(nat, nat, nat, nat) net_env" where
  "sample_net = \<lparr>ne_ParseIP = \<lambda>_. None, ne_ListenUDP = \<lambda>_. Inr 0, ne_ResolveUDPAddr = \<lambda>_. Inr 0,
     ne_Dial = \<lambda>_ _ _. Inr 0, ne_OpenStream = \<lambda>_. Inr \<lparr>wout = [], wstat = Healthy\<rparr>\<rparr>"

lemma sample_connect:
  assumes "client_setup f sid = Inr pl" and "length (pl_locals pl) = 1" and "fl_cc f = ''cubic''"
  shows "client_connect sample_net f pl = Inr [first_path (pl_ctrl pl)]"
proof -
  have "pl_ccNames pl = [''cubic'']"
    using assms by (auto simp: client_setup_def expandCC_def Let_def TrimSpace_def
        trim_left.simps trim_right_rev.simps space_prefix_def space_suffix_def split: sum.splits if_splits)
  moreover obtain l where "pl_locals pl = [l]"
    using assms(2) by (auto simp: length_Suc_conv)
  moreover have "cc_Get ''cubic'' cc_modules = Inr cubic_factory"
    by (simp add: cc_Get_cases)
  ultimately show ?thesis
    by (simp add: client_connect_def dialPath_def sample_net_def send_preamble_def path_preamble_def
        WriteControlHeader_healthy first_path_def)
qed

theorem transfer_end_to_end_witness:
  "\<exists>pl op rest s s' r. client_setup sample_flags 5 = Inr pl \<and>
     client_connect sample_net sample_flags pl = Inr [first_path (pl_ctrl pl)] \<and>
     session_run (new_session 5 1) (op # rest) s \<and> op_exec (OpWait 9 [] (\<lambda>_. [])) s = Inr s' \<and>
     ss_results s' = [r] \<and> rr_IntegrityOK r \<and> map_option Reassembler_Bytes (ss_reassembler s') = Some [7, 8]"
proof -
  let ?D = "[7, 8] :: byte list"
  obtain pl where pl: "client_setup sample_flags 5 = Inr pl" and n: "length (pl_locals pl) = 1"
    using sample_setup by blast
  let ?pc = "first_path (pl_ctrl pl)"
  have conn: "client_connect sample_net sample_flags pl = Inr [?pc]"
    using sample_connect [OF pl n] by (simp add: sample_flags_def)
  have wf: "paths_wf [?pc]"
    by (simp add: paths_wf_def first_path_def)
  obtain chunks where split: "Split ?D 1 0 2 = Some chunks"
    by (simp add: Split_eq_split_list effective_chunk_size_def)
  obtain st where st: "send_step\<^sup>*\<^sup>* (send_init chunks [?pc] (pl_sched pl) None) st" "send_final st"
    using send_run_exists [OF wf] by blast
  from sample_handler [OF pl split st] obtain res rest where
    res: "handleConn sample_env \<lparr>rbuf = wout (pc_stream (sd_paths st ! 0)), rend = EOF\<rparr> = Some res"
      "cr_ops res = OpStart (pl_ctrl pl) 0 # rest"
    by blast
  have got: "\<forall>k<length [?pc]. ce_ready sample_env \<and>
      handleConn sample_env \<lparr>rbuf = wout (pc_stream (sd_paths st ! k)), rend = EOF\<rparr> = Some ([res] ! k)"
    using res(1) by (simp add: sample_env_def)
  have mixed: "interleave (map cr_ops [res]) (OpStart (pl_ctrl pl) 0 # rest)"
    using interleave_one [of "cr_ops res"] res(2) by simp
  have "\<not> fl_continuous sample_flags" "fresh_streams sample_net" "length [?pc] < 2 ^ 32"
      "GenerateRandomPayload (\<lambda>n. Inr [7, 8]) (fl_size sample_flags) = Inr (Inr ?D)"
      "length ?D = unat (fl_size sample_flags)" "fl_size sample_flags \<noteq> 0" "length [res] = length [?pc]"
      "is_start (OpStart (pl_ctrl pl) 0)"
      "Split ?D (ucast (fl_chunkSize sample_flags)) 0 (fl_size sample_flags) = Some chunks"
    using split by (simp_all add: sample_flags_def fresh_streams_def sample_net_def
        GenerateRandomPayload_def max_alloc_def)
  from transfer_end_to_end [OF pl this(1,2) conn this(3-6,9) st this(7) got mixed this(8),
      of 1 9 "[]" "\<lambda>_. []"] pl conn
  show ?thesis by blast
qed

section \<open>Which paths can be dialed\<close>

text \<open>\<open>network_up env\<close>: every call of the operating system and of QUIC succeeds.\<close>

definition network_up :: "('ip, 'sock, 'addr, 'conn) net_env \<Rightarrow> bool" where
  "network_up env \<longleftrightarrow> (\<forall>ip. \<exists>sock. ne_ListenUDP env ip = Inr sock) \<and>
     (\<forall>srv. \<exists>addr. ne_ResolveUDPAddr env srv = Inr addr) \<and>
     (\<forall>sock addr cc. \<exists>conn. ne_Dial env sock addr cc = Inr conn) \<and>
     (\<forall>conn. \<exists>w. ne_OpenStream env conn = Inr w)"

lemma cc_Get_unknown:
  assumes "name \<notin> {''cubic'', ''fixed''}"
  shows "cc_Get name cc_modules = Inl (UnknownName name [''cubic'', ''fixed''])"
proof -
  have "cc_Names cc_modules = [''cubic'', ''fixed'']"
    by code_simp
  moreover have "map_of cc_modules name = None"
    using assms by (simp add: cc_modules_def cc_Register_def)
  ultimately show ?thesis
    by (simp add: cc_reg.lookup_unknown cc_modules_wf)
qed

lemma dialPath_up:
  assumes "network_up env"
  shows "cc \<in> {''cubic'', ''fixed''} \<Longrightarrow> \<exists>pc. dialPath env i local server cc = Inr pc"
    and "cc \<notin> {''cubic'', ''fixed''} \<Longrightarrow>
      dialPath env i local server cc = Inl (UnknownModule (UnknownName cc [''cubic'', ''fixed'']))"
proof -
  obtain sock addr where calls: "ne_ListenUDP env (local2IP (ne_ParseIP env) local) = Inr sock"
      "ne_ResolveUDPAddr env server = Inr addr"
    using assms unfolding network_up_def by blast
  have dial: "\<exists>conn w. ne_Dial env sock addr f = Inr conn \<and> ne_OpenStream env conn = Inr w" for f
    using assms unfolding network_up_def by blast
  show "\<exists>pc. dialPath env i local server cc = Inr pc" if known: "cc \<in> {''cubic'', ''fixed''}"
  proof -
    obtain f where "cc_Get cc cc_modules = Inr f"
      using known by (auto simp: cc_Get_cases)
    with calls dial [of f] show ?thesis
      by (auto simp: dialPath_def)
  qed
  show "dialPath env i local server cc = Inl (UnknownModule (UnknownName cc [''cubic'', ''fixed'']))"
    if "cc \<notin> {''cubic'', ''fixed''}"
    using calls cc_Get_unknown [OF that] by (simp add: dialPath_def)
qed

text \<open>On such a network the first name that is not registered is the one error.\<close>

lemma dial_paths_unknown:
  assumes "network_up env" and "k < length ps" and "snd (ps ! k) \<notin> {''cubic'', ''fixed''}"
    and "\<forall>j<k. snd (ps ! j) \<in> {''cubic'', ''fixed''}"
  shows "dial_paths env server i ps =
    Inl (DialingPath (i + k) (UnknownModule (UnknownName (snd (ps ! k)) [''cubic'', ''fixed''])))"
  using assms(2-4)
proof (induction ps arbitrary: i k)
  case (Cons x ps)
  obtain local cc where x: "x = (local, cc)" by (cases x)
  show ?case
  proof (cases k)
    case 0
    with Cons.prems dialPath_up(2) [OF assms(1)] show ?thesis
      by (simp add: x)
  next
    case (Suc k')
    then have "cc \<in> {''cubic'', ''fixed''}"
      using Cons.prems(3) by (auto simp: x)
    then obtain pc where "dialPath env i local server cc = Inr pc"
      using dialPath_up(1) [OF assms(1)] by blast
    have tail: "\<forall>j<k'. snd (ps ! j) \<in> {''cubic'', ''fixed''}"
    proof (intro allI impI)
      fix j assume "j < k'"
      with Cons.prems(3) Suc have "snd ((x # ps) ! Suc j) \<in> {''cubic'', ''fixed''}" by blast
      then show "snd (ps ! j) \<in> {''cubic'', ''fixed''}" by simp
    qed
    with Cons.IH [of k' "i + 1"] Cons.prems(1,2) Suc \<open>dialPath env i local server cc = Inr pc\<close>
    show ?thesis by (simp add: x)
  qed
qed simp

lemma unknown_module_reported:
  assumes "client_setup f sid = Inr pl" and "network_up env" and "k < length (pl_ccNames pl)"
    and "pl_ccNames pl ! k \<notin> {''cubic'', ''fixed''}"
    and "\<forall>j<k. pl_ccNames pl ! j \<in> {''cubic'', ''fixed''}"
  shows "client_connect env f pl =
    Inl (DialingPath k (UnknownModule (UnknownName (pl_ccNames pl ! k) [''cubic'', ''fixed''])))"
  using dial_paths_unknown [of env k "zip (pl_locals pl) (pl_ccNames pl)" "fl_server f" 0]
    client_setup_plan(2) [OF assms(1)] assms(2-5)
  by (simp add: client_connect_def)

section \<open>What the drain handshake proves\<close>

text \<open>
  What QUIC promises of one direction of a stream: the reader has a prefix of what was
  written, and sees the end of the stream only after all of it.
\<close>

definition carried :: "byte list \<Rightarrow> rstream \<Rightarrow> bool" where
  "carried sent rs \<longleftrightarrow> (\<exists>rest. sent = rbuf rs @ rest) \<and> (rend rs = EOF \<longrightarrow> rbuf rs = sent)"

definition ack_bytes :: "conn_result \<Rightarrow> byte list" where
  "ack_bytes res = (if cr_ack res then [1] else [])"

definition sample_chunk :: Chunk where
  "sample_chunk = \<lparr>c_Seq = 0, c_Offset = 0, c_BurstID = 0, c_BurstBytes = 2, c_Checksum = 0, c_Data = [7, 8]\<rparr>"

text \<open>
  C12: a drain confirmation is proof of delivery.  A client has written a preamble and chunks on
  a path; a server handler has read the path's stream, and the client's \<^verbatim>\<open>drainPath\<close> reports
  the confirmation.  Then the handler read the preamble and every one of these chunks, in
  order and unchanged, gave each to the session the preamble names, and reported the path with
  exactly these chunks and bytes and none corrupted.
\<close>

theorem drain_confirms_delivery:
  assumes "preamble_ok pre" and "list_all chunk_ok cs"
    and "carried (preamble_bytes pre @ concat (map (\<lambda>c. chunk_bytes (stamp c)) cs)) stream"
    and "handleConn env stream = Some res"
    and "carried (ack_bytes res) rs" and "drainPath close rs = Confirmed"
  shows "cr_session res = preamble_session pre \<and> arrived (cr_ops res) = map stamp cs \<and>
    (\<exists>p. path_reports (cr_ops res) = [p] \<and> ps_Chunks p = int (length cs) \<and>
       ps_Bytes p = of_nat (sum_list (map (\<lambda>c. length (c_Data c)) cs)) \<and> ps_ChunksCorrupted p = 0)"
proof -
  let ?sent = "preamble_bytes pre @ concat (map (\<lambda>c. chunk_bytes (stamp c)) cs)"
  have "rbuf rs \<noteq> []"
    using assms(6) by (auto simp: drainPath_def read_full_def split: option.splits sum.splits if_splits)
  then have ack: "cr_ack res"
    using assms(5) by (auto simp: carried_def ack_bytes_def split: if_splits)
  then have "ce_ready env"
    using assms(4) by (auto simp: handleConn_def Let_def split: sum.splits if_splits)
  have "rend stream = EOF"
    using acked_at_EOF [OF assms(4) ack] .
  then have stream: "stream = \<lparr>rbuf = preamble_bytes pre @ concat (map chunk_bytes (map stamp cs)), rend = EOF\<rparr>"
    using assms(3) by (cases stream) (simp add: carried_def comp_def)
  have "list_all chunk_ok (map stamp cs)"
    using assms(2) by (simp add: list_all_iff)
  from handler_complete [OF assms(1) this \<open>ce_ready env\<close>] assms(4) obtain p where
    p: "report_of p (map stamp cs)" "res = handler_result env pre (map stamp cs) p"
    unfolding stream by auto
  have "arrived (start_ops env pre) = []" "path_reports (start_ops env pre) = []"
    by (simp_all add: start_ops_def split: preamble.split)
  with p show ?thesis
    by (auto simp: handler_result_def report_of_def comp_def)
qed

theorem drain_confirms_delivery_witness:
  "\<exists>res p. handleConn sample_env
        \<lparr>rbuf = preamble_bytes (PreHello \<lparr>ph_SessionID = 7, ph_PathIndex = 1\<rparr>) @ chunk_bytes (stamp sample_chunk),
         rend = EOF\<rparr> = Some res \<and>
     drainPath None \<lparr>rbuf = ack_bytes res, rend = EOF\<rparr> = Confirmed \<and>
     arrived (cr_ops res) = [stamp sample_chunk] \<and> path_reports (cr_ops res) = [p] \<and> ps_Bytes p = 2"
proof -
  let ?pre = "PreHello \<lparr>ph_SessionID = 7, ph_PathIndex = 1\<rparr>"
  have ok: "preamble_ok ?pre" "list_all chunk_ok [sample_chunk]" "list_all chunk_ok [stamp sample_chunk]"
      "ce_ready sample_env" "ce_ackOk sample_env"
    by (simp_all add: sample_chunk_def chunk_ok_def sample_env_def stamp_def)
  from handler_complete [OF ok(1,3,4)] obtain p where
    h: "handleConn sample_env \<lparr>rbuf = preamble_bytes ?pre @ chunk_bytes (stamp sample_chunk), rend = EOF\<rparr>
      = Some (handler_result sample_env ?pre [stamp sample_chunk] p)"
    by auto
  let ?res = "handler_result sample_env ?pre [stamp sample_chunk] p"
  have ack: "ack_bytes ?res = [1]"
    using ok(5) by (simp add: ack_bytes_def handler_result_def)
  have drained: "drainPath None \<lparr>rbuf = ack_bytes ?res, rend = EOF\<rparr> = Confirmed"
    by (simp add: ack drainPath_def read_full_def)
  have "carried (preamble_bytes ?pre @ concat (map (\<lambda>c. chunk_bytes (stamp c)) [sample_chunk]))
      \<lparr>rbuf = preamble_bytes ?pre @ chunk_bytes (stamp sample_chunk), rend = EOF\<rparr>"
    and "carried (ack_bytes ?res) \<lparr>rbuf = ack_bytes ?res, rend = EOF\<rparr>"
    by (simp_all add: carried_def)
  from drain_confirms_delivery [OF ok(1,2) this(1) h this(2) drained] h drained
  show ?thesis by (auto simp: sample_chunk_def)
qed

end
