(* ===== verification/Mpq_Decimal.thy ===== *)
theory Mpq_Decimal
  imports Mpq_Csv
begin

text \<open>
  The shortest decimal representation of a float64 (\<^verbatim>\<open>strconv.AppendFloat\<close> with precision -1)
  as \<^verbatim>\<open>encoding/json\<close> writes it, a reader of number literals, and the proof that reading gives
  the float back, bit for bit.
\<close>

section \<open>Rounding to a given float\<close>

lemma rat_exponent_unique:
  assumes "pow2 e \<le> x" and "x < pow2 (e + 1)"
  shows "rat_exponent x = e"
proof -
  have "0 < x"
    using assms(1) pow2_pos [of e] by linarith
  note b = rat_exponent_bounds [OF this]
  have "pow2 e < pow2 (rat_exponent x + 1)" "pow2 (rat_exponent x) < pow2 (e + 1)"
    using assms b by linarith+
  then show ?thesis
    by (simp add: pow2_less_iff)
qed

lemma round_half_even_close:
  assumes "\<bar>z - of_int m\<bar> < 1 / 2"
  shows "round_half_even z = m"
proof -
  have "\<bar>of_int (round_half_even z) - (of_int m :: rat)\<bar> < 1"
    using round_half_even_error [of z] assms by linarith
  then have "\<bar>of_int (round_half_even z - m) :: rat\<bar> < of_int 1"
    by simp
  then have "\<bar>round_half_even z - m\<bar> < 1"
    by (simp only: of_int_abs [symmetric] of_int_less_iff)
  then show ?thesis by simp
qed

text \<open>A positive float is a 53-bit integer times a power of two.\<close>

lemma float_mantissa:
  assumes "0 < x" and "fl x = x"
  shows "\<exists>m. x = of_int m * pow2 (rat_exponent x - 52) \<and> 2 ^ 52 \<le> m \<and> m < 2 ^ 53"
proof -
  let ?E = "rat_exponent x - 52"
  let ?m = "round_half_even (x / pow2 ?E)"
  have eq: "x = of_int ?m * pow2 ?E"
    using assms by (simp add: fl_def Let_def)
  note b = rat_exponent_bounds [OF assms(1)]
  have "pow2 (rat_exponent x) = 2 ^ 52 * pow2 ?E" "pow2 (rat_exponent x + 1) = 2 ^ 53 * pow2 ?E"
    using pow2_add [of 52 ?E] pow2_add [of 53 ?E] by (simp_all add: pow2_def add.commute)
  with b have "2 ^ 52 * pow2 ?E \<le> of_int ?m * pow2 ?E" "of_int ?m * pow2 ?E < 2 ^ 53 * pow2 ?E"
    using eq by simp_all
  then have "(of_int (2 ^ 52) :: rat) \<le> of_int ?m" "(of_int ?m :: rat) < of_int (2 ^ 53)"
    by simp_all
  then have "2 ^ 52 \<le> ?m" "?m < 2 ^ 53"
    by (simp_all only: of_int_le_iff of_int_less_iff)
  with eq show ?thesis by blast
qed

lemma fl_close:
  assumes "0 < x" and "fl x = x" and "\<bar>y - x\<bar> < x / 2 ^ 54"
  shows "fl y = x"
proof -
  define P where "P = pow2 (rat_exponent x - 52)"
  obtain m where x: "x = of_int m * P" and m: "2 ^ 52 \<le> m" "m < 2 ^ 53"
    using float_mantissa [OF assms(1,2)] unfolding P_def by blast
  have P: "0 < P" by (simp add: P_def)
  have powers: "pow2 (rat_exponent x) = 2 ^ 52 * P" "pow2 (rat_exponent x + 1) = 2 ^ 53 * P"
      "pow2 (rat_exponent x - 1) = 2 ^ 51 * P" "pow2 (rat_exponent x - 1 - 52) = P / 2"
    using pow2_add [of 52 "rat_exponent x - 52"] pow2_add [of 53 "rat_exponent x - 52"]
      pow2_add [of 51 "rat_exponent x - 52"] pow2_add [of "-1" "rat_exponent x - 52"]
    by (simp_all add: pow2_def [of 52] pow2_def [of 53] pow2_def [of 51] pow2_def [of "-1"] P_def ac_simps)
  have mr: "(2 ^ 52 :: rat) \<le> of_int m" "(of_int m :: rat) \<le> 2 ^ 53 - 1"
  proof -
    have "(of_int (2 ^ 52) :: rat) \<le> of_int m" "(of_int m :: rat) \<le> of_int (2 ^ 53 - 1)"
      using m by (simp_all only: of_int_le_iff)
    then show "(2 ^ 52 :: rat) \<le> of_int m" "(of_int m :: rat) \<le> 2 ^ 53 - 1" by simp_all
  qed
  have xle: "x \<le> (2 ^ 53 - 1) * P"
    unfolding x using mr(2) P by (intro mult_right_mono) auto
  then have gap: "\<bar>y - x\<bar> < P / 2"
    using assms(3) P by (simp add: field_simps)
  have y0: "0 < y"
  proof -
    have "x / 2 ^ 54 < x"
      using assms(1) by simp
    with assms(3) show ?thesis by linarith
  qed
  show ?thesis
  proof (cases "2 ^ 52 * P \<le> y")
    case True
    have "y < 2 ^ 53 * P"
      using gap xle P by (auto simp: field_simps abs_if split: if_splits)
    then have e: "rat_exponent y = rat_exponent x"
      using True by (intro rat_exponent_unique) (simp_all add: powers)
    have "\<bar>y / P - of_int m\<bar> < 1 / 2"
      using gap P unfolding x by (auto simp: field_simps abs_if split: if_splits)
    then have "round_half_even (y / P) = m"
      by (rule round_half_even_close)
    moreover have "pow2 (rat_exponent y - 52) = P"
      by (simp add: e P_def)
    ultimately have "fl y = of_int m * P"
      using y0 by (simp add: fl_def Let_def)
    then show ?thesis
      by (simp only: x)
  next
    case False
    have "of_int m * P - y < P / 2"
      using gap unfolding x by linarith
    then have "of_int m * P < 2 ^ 52 * P + P / 2"
      using False by linarith
    also have "\<dots> = (2 ^ 52 + 1 / 2) * P"
      by (simp add: distrib_right)
    finally have "of_int m * P < (2 ^ 52 + 1 / 2) * P" .
    then have "of_int m < (2 ^ 52 + 1 / 2 :: rat)"
      using P by simp
    then have "(of_int m :: rat) < of_int (2 ^ 52 + 1)"
      by simp
    then have "m = 2 ^ 52"
      using m(1) by (simp only: of_int_less_iff)
    then have x': "x = 2 ^ 52 * P"
      by (simp add: x)
    then have gap': "x - y < P / 4"
      using assms(3) by (auto simp: field_simps abs_if split: if_splits)
    have "2 ^ 51 * P \<le> y"
      using gap' P unfolding x' by simp
    then have e: "rat_exponent y = rat_exponent x - 1"
      using False by (intro rat_exponent_unique) (simp_all add: powers)
    have "\<bar>y / (P / 2) - of_int (2 ^ 53)\<bar> < 1 / 2"
      using gap' False P unfolding x' by (auto simp: field_simps abs_if split: if_splits)
    then have "round_half_even (y / (P / 2)) = 2 ^ 53"
      by (rule round_half_even_close)
    moreover have "pow2 (rat_exponent y - 52) = P / 2"
      by (simp only: e powers)
    moreover have "fl y = of_int (round_half_even (y / pow2 (rat_exponent y - 52))) * pow2 (rat_exponent y - 52)"
      using y0 by (simp add: fl_def Let_def)
    ultimately have "fl y = of_int (2 ^ 53) * (P / 2)"
      by (simp only:)
    then show ?thesis
      by (simp add: x')
  qed
qed

text \<open>What the arithmetic returns is a float.\<close>

lemma fl_fl:
  assumes "0 \<le> x"
  shows "fl (fl x) = fl x"
proof (cases "x = 0")
  case False
  with assms have pos: "0 < x" by simp
  define P m where "P = pow2 (rat_exponent x - 52)" and "m = round_half_even (x / P)"
  have P: "0 < P" by (simp add: P_def)
  have y: "fl x = of_int m * P"
    using pos by (simp add: fl_def Let_def P_def m_def)
  note b = rat_exponent_bounds [OF pos]
  have powers: "pow2 (rat_exponent x) = 2 ^ 52 * P" "pow2 (rat_exponent x + 1) = 2 ^ 53 * P"
      "pow2 (2 + rat_exponent x) = 2 ^ 54 * P"
    using pow2_add [of 52 "rat_exponent x - 52"] pow2_add [of 53 "rat_exponent x - 52"]
      pow2_add [of 54 "rat_exponent x - 52"]
    by (simp_all add: pow2_def [of 52] pow2_def [of 53] pow2_def [of 54] P_def ac_simps)
  have "2 ^ 52 \<le> x / P" "x / P < 2 ^ 53"
    using b P unfolding powers by (simp_all add: field_simps)
  moreover have "\<bar>of_int m - x / P\<bar> \<le> 1 / 2"
    unfolding m_def by (rule round_half_even_error)
  ultimately have "(2 ^ 52 :: rat) - 1 < of_int m" "(of_int m :: rat) < 2 ^ 53 + 1"
    by linarith+
  then have "(of_int (2 ^ 52) :: rat) < of_int (m + 1)" "(of_int m :: rat) < of_int (2 ^ 53 + 1)"
    by simp_all
  then have m: "2 ^ 52 \<le> m" "m \<le> 2 ^ 53"
    by (simp_all only: of_int_less_iff)
  show ?thesis
  proof (cases "m = 2 ^ 53")
    case True
    have "rat_exponent (fl x) = rat_exponent x + 1"
      using P by (intro rat_exponent_unique) (simp_all add: powers y True)
    then have "pow2 (rat_exponent (fl x) - 52) = 2 * P"
      using pow2_add [of 1 "rat_exponent x - 52"] by (simp add: P_def pow2_def [of 1] add.commute)
    moreover have "fl x / (2 * P) = of_int (2 ^ 52)"
      using P by (simp add: y True)
    ultimately have "round_half_even (fl x / pow2 (rat_exponent (fl x) - 52)) * 2 = m"
      by (simp only: round_half_even_int) (simp add: True)
    then show ?thesis
      using P \<open>pow2 (rat_exponent (fl x) - 52) = 2 * P\<close> m
      by (subst fl_def) (simp add: Let_def y True)
  next
    case False
    with m have "(of_int (2 ^ 52) :: rat) \<le> of_int m" "(of_int m :: rat) < of_int (2 ^ 53)"
      by (simp_all only: of_int_less_iff of_int_le_iff)
    then have "rat_exponent (fl x) = rat_exponent x"
      using P by (intro rat_exponent_unique) (simp_all add: powers y)
    then have "pow2 (rat_exponent (fl x) - 52) = P" by (simp add: P_def)
    moreover have "0 < fl x"
      using P m y by simp
    moreover have "round_half_even (fl x / P) = m"
      using P by (simp add: y)
    ultimately show ?thesis
      by (subst fl_def) (simp add: Let_def y)
  qed
qed simp

section \<open>Powers of ten\<close>

definition pow10 :: "int \<Rightarrow> rat" where
  "pow10 e = (if 0 \<le> e then 10 ^ nat e else 1 / 10 ^ nat (- e))"

lemma pow10_powi: "pow10 e = 10 powi e"
  by (simp add: pow10_def power_int_def inverse_eq_divide power_one_over)

lemma pow10_pos [simp]: "0 < pow10 e"
  by (simp add: pow10_def)

lemma pow10_nonneg [simp]: "0 \<le> pow10 e" and pow10_neq [simp]: "pow10 e \<noteq> 0"
  using pow10_pos [of e] by linarith+

lemma pow10_add: "pow10 (a + b) = pow10 a * pow10 b"
  by (simp add: pow10_powi power_int_add)

lemma pow10_nat: "pow10 (int n) = 10 ^ n"
  by (simp add: pow10_def)

lemma pow10_cancel [simp]: "pow10 k * pow10 (- k) = 1" "pow10 (- k) * pow10 k = 1"
  by (simp_all flip: pow10_add) (simp_all add: pow10_def)

text \<open>The decimal exponent of a positive number: \<open>pow10 e \<le> x < pow10 (e + 1)\<close>.\<close>

definition exp10 :: "rat \<Rightarrow> int" where
  "exp10 x = (if 1 \<le> x then int (floorlog 10 (nat \<lfloor>x\<rfloor>)) - 1
              else - int (floorlog 10 (nat (\<lceil>1 / x\<rceil> - 1))))"

lemma exp10_bounds:
  assumes "0 < x"
  shows "pow10 (exp10 x) \<le> x" and "x < pow10 (exp10 x + 1)"
proof -
  have bound: "(10 :: rat) ^ (floorlog 10 m - 1) \<le> of_nat m" "of_nat m + 1 \<le> (10 :: rat) ^ floorlog 10 m"
      "0 < floorlog 10 m" if "0 < m" for m
  proof -
    have "10 ^ (floorlog 10 m - 1) \<le> m" "m + 1 \<le> 10 ^ floorlog 10 m"
      using floorlog_bounds [of m 10] that by simp_all
    then have "(of_nat (10 ^ (floorlog 10 m - 1)) :: rat) \<le> of_nat m"
        "(of_nat (m + 1) :: rat) \<le> of_nat (10 ^ floorlog 10 m)"
      by (simp_all only: of_nat_le_iff)
    then show "(10 :: rat) ^ (floorlog 10 m - 1) \<le> of_nat m" "of_nat m + 1 \<le> (10 :: rat) ^ floorlog 10 m"
      by simp_all
    show "0 < floorlog 10 m"
      using that by (simp add: floorlog_def)
  qed
  show "pow10 (exp10 x) \<le> x" and "x < pow10 (exp10 x + 1)"
  proof (atomize (full), cases "1 \<le> x")
    case True
    let ?m = "nat \<lfloor>x\<rfloor>"
    have m: "0 < ?m" "of_nat ?m \<le> x" "x < of_nat ?m + 1"
      using True floor_correct [of x] by (simp_all add: of_nat_nat)
    have "pow10 (exp10 x) = 10 ^ (floorlog 10 ?m - 1)" "pow10 (exp10 x + 1) = 10 ^ floorlog 10 ?m"
      using True bound(3) [OF m(1)] pow10_nat [of "floorlog 10 ?m - 1"] pow10_nat [of "floorlog 10 ?m"]
      by (simp_all add: exp10_def of_nat_diff)
    with m bound(1,2) [OF m(1)] show "pow10 (exp10 x) \<le> x \<and> x < pow10 (exp10 x + 1)"
      by linarith
  next
    case False
    let ?m = "nat (\<lceil>1 / x\<rceil> - 1)"
    have "1 < 1 / x"
      using assms False by simp
    then have "2 \<le> \<lceil>1 / x\<rceil>"
      by (simp add: le_ceiling_iff)
    then have m: "0 < ?m" "of_nat ?m < 1 / x" "1 / x \<le> of_nat ?m + 1"
      using ceiling_correct [of "1 / x"] assms by (simp_all add: of_nat_nat)
    let ?n = "floorlog 10 ?m"
    have "10 ^ (?n - 1) < 1 / x" "1 / x \<le> 10 ^ ?n"
      using m bound(1,2) [OF m(1)] by linarith+
    then have "x < 1 / 10 ^ (?n - 1)" "1 / 10 ^ ?n \<le> x"
      using assms by (simp_all add: field_simps)
    moreover have "pow10 (exp10 x) = 1 / 10 ^ ?n"
      using False pow10_def [of "- int ?n"] by (simp add: exp10_def)
    moreover have "pow10 (exp10 x + 1) = 1 / 10 ^ (?n - 1)"
      using False bound(3) [OF m(1)] pow10_def [of "- int (?n - 1)"]
      by (cases "?n = 1") (simp_all add: exp10_def of_nat_diff nat_diff_distrib)
    ultimately show "pow10 (exp10 x) \<le> x \<and> x < pow10 (exp10 x + 1)"
      by simp
  qed
qed

section \<open>The shortest digits\<close>

text \<open>
  At \<open>k\<close> digits after the point: the nearest decimal, or else the one on the other side, if
  it rounds to \<open>x\<close>.
\<close>

definition decimal_at :: "rat \<Rightarrow> int \<Rightarrow> int option" where
  "decimal_at x k =
     (let m = x * pow10 k; c = round_half_even m; c' = (if of_int c \<le> m then c + 1 else c - 1) in
      if fl (of_int c * pow10 (- k)) = x then Some c
      else if fl (of_int c' * pow10 (- k)) = x then Some c' else None)"

text \<open>One digit more each time; seventeen always suffice.\<close>

fun shortest_from :: "nat \<Rightarrow> rat \<Rightarrow> int \<Rightarrow> int \<times> int" where
  "shortest_from 0 x k = (round_half_even (x * pow10 k), - k)"
| "shortest_from (Suc n) x k =
     (case decimal_at x k of Some c \<Rightarrow> (c, - k) | None \<Rightarrow> shortest_from n x (k + 1))"

fun strip_zeros :: "nat \<Rightarrow> int \<Rightarrow> nat \<times> int" where
  "strip_zeros c k = (if c \<noteq> 0 \<and> c mod 10 = 0 then strip_zeros (c div 10) (k + 1) else (c, k))"

declare strip_zeros.simps [simp del]

definition shortest :: "rat \<Rightarrow> nat \<times> int" where
  "shortest x = (let (c, e) = shortest_from 16 x (- exp10 x) in strip_zeros (nat c) e)"

lemma decimal_at_Some:
  assumes "decimal_at x k = Some c" and "1 \<le> x * pow10 k"
  shows "0 < c" and "fl (of_int c * pow10 (- k)) = x"
proof -
  let ?m = "x * pow10 k"
  have "\<bar>of_int (round_half_even ?m) - ?m\<bar> \<le> 1 / 2"
    by (rule round_half_even_error)
  then have "(of_int 0 :: rat) < of_int (round_half_even ?m)"
    and up: "\<not> of_int (round_half_even ?m) \<le> ?m \<Longrightarrow> (of_int 1 :: rat) < of_int (round_half_even ?m)"
    using assms(2) by linarith+
  have "0 < round_half_even ?m"
    using \<open>of_int 0 < of_int (round_half_even ?m)\<close> by (simp only: of_int_less_iff)
  moreover have "1 < round_half_even ?m" if "\<not> of_int (round_half_even ?m) \<le> ?m"
    using up [OF that] by (simp only: of_int_less_iff)
  ultimately show "0 < c"
    using assms(1) by (auto simp: decimal_at_def Let_def split: if_splits)
  show "fl (of_int c * pow10 (- k)) = x"
    using assms(1) by (auto simp: decimal_at_def Let_def split: if_splits)
qed

lemma shortest_from_fl:
  assumes "0 < x" and "fl x = x" and "shortest_from n x k = (c, e)"
    and "1 \<le> x * pow10 k" and "10 ^ 16 \<le> x * pow10 (k + int n)"
  shows "0 < c \<and> fl (of_int c * pow10 e) = x"
  using assms(3-5)
proof (induction n arbitrary: k)
  case 0
  let ?m = "x * pow10 k"
  have err: "\<bar>of_int (round_half_even ?m) - ?m\<bar> \<le> 1 / 2"
    by (rule round_half_even_error)
  have "1 \<le> ?m"
    using 0 by simp
  with err have "(of_int 0 :: rat) < of_int (round_half_even ?m)"
    by linarith
  then have pos: "0 < round_half_even ?m"
    by (simp only: of_int_less_iff)
  let ?y = "of_int (round_half_even ?m) * pow10 (- k)"
  have "x = ?m * pow10 (- k)"
    by (simp add: mult.assoc)
  then have "?y - x = (of_int (round_half_even ?m) - ?m) * pow10 (- k)"
    by (simp only: left_diff_distrib)
  then have "\<bar>?y - x\<bar> = \<bar>of_int (round_half_even ?m) - ?m\<bar> * pow10 (- k)"
    by (simp add: abs_mult abs_of_pos [OF pow10_pos])
  also have "\<dots> \<le> 1 / 2 * pow10 (- k)"
    using err pow10_pos [of "- k"] by (intro mult_right_mono) auto
  also have "\<dots> < x / 2 ^ 54"
  proof -
    have "10 ^ 16 * pow10 (- k) \<le> x * pow10 k * pow10 (- k)"
      using 0 pow10_pos [of "- k"] by (intro mult_right_mono) auto
    then have "10 ^ 16 * pow10 (- k) \<le> x"
      by (simp add: mult.assoc)
    moreover have "1 / 2 * pow10 (- k) * 2 ^ 54 < 10 ^ 16 * pow10 (- k)"
      by simp
    ultimately have "1 / 2 * pow10 (- k) * 2 ^ 54 < x"
      by (rule less_le_trans [rotated])
    then show ?thesis
      by (simp add: pos_less_divide_eq)
  qed
  finally have "fl ?y = x"
    by (rule fl_close [OF assms(1,2)])
  with 0 pos show ?case by auto
next
  case (Suc n)
  show ?case
  proof (cases "decimal_at x k")
    case None
    have "x * pow10 k * 1 \<le> x * pow10 k * 10"
      using Suc.prems(2) by (intro mult_left_mono) auto
    then have "1 \<le> x * pow10 (k + 1)"
      using Suc.prems(2) pow10_add [of k 1] by (simp add: pow10_def [of 1] ac_simps)
    with Suc None show ?thesis
      by (simp add: ac_simps)
  next
    case (Some c')
    with Suc.prems decimal_at_Some [OF Some] show ?thesis by auto
  qed
qed

lemma strip_zeros_value:
  "strip_zeros c k = (c', k') \<Longrightarrow> of_nat c' * pow10 k' = of_nat c * pow10 k \<and> (0 < c \<longrightarrow> 0 < c')"
proof (induction c k rule: strip_zeros.induct)
  case (1 c k)
  show ?case
  proof (cases "c \<noteq> 0 \<and> c mod 10 = 0")
    case True
    then have "c = 10 * (c div 10)" by presburger
    then have "of_nat c = (10 :: rat) * of_nat (c div 10)"
      by (metis of_nat_mult of_nat_numeral)
    moreover have "pow10 (k + 1) = 10 * pow10 k"
      by (simp add: pow10_add pow10_def [of 1])
    ultimately show ?thesis
      using 1 True by (auto simp: strip_zeros.simps [of c k])
  next
    case False
    with "1.prems" show ?thesis by (simp only: strip_zeros.simps [of c k] if_not_P) simp
  qed
qed

lemma shortest_fl:
  assumes "0 < x" and "fl x = x" and "shortest x = (c, e)"
  shows "0 < c" and "fl (of_nat c * pow10 e) = x"
proof -
  obtain i k where s: "shortest_from 16 x (- exp10 x) = (i, k)" "strip_zeros (nat i) k = (c, e)"
    using assms(3) by (auto simp: shortest_def split: prod.splits)
  have "pow10 (exp10 x) * pow10 (- exp10 x) \<le> x * pow10 (- exp10 x)"
    using exp10_bounds(1) [OF assms(1)] pow10_pos [of "- exp10 x"] by (intro mult_right_mono) auto
  then have one: "1 \<le> x * pow10 (- exp10 x)"
    by simp
  moreover have "10 ^ 16 \<le> x * pow10 (- exp10 x + int 16)"
    using mult_left_mono [OF one, of "10 ^ 16"] unfolding pow10_add pow10_nat by (simp add: ac_simps)
  ultimately have i: "0 < i" "fl (of_int i * pow10 k) = x"
    using shortest_from_fl [OF assms(1,2) s(1)] by blast+
  then have "(of_nat (nat i) :: rat) = of_int i" "0 < nat i"
    by simp_all
  with strip_zeros_value [OF s(2)] i(2) show "0 < c" and "fl (of_nat c * pow10 e) = x"
    by simp_all
qed

section \<open>Formatting\<close>

text \<open>
  \<^verbatim>\<open>fmtF\<close> and \<^verbatim>\<open>fmtE\<close> of \<^verbatim>\<open>strconv\<close> on the digits \<open>ds\<close> with the decimal point after \<open>dp\<close> of
  them; \<^verbatim>\<open>encoding/json\<close> removes the leading zero of a one-digit exponent.
\<close>

definition zeros :: "nat \<Rightarrow> string" where
  "zeros n = replicate n (CHR ''0'')"

definition fmtF :: "string \<Rightarrow> int \<Rightarrow> string" where
  "fmtF ds dp =
     (if dp \<le> 0 then ''0.'' @ zeros (nat (- dp)) @ ds
      else if length ds \<le> nat dp then ds @ zeros (nat dp - length ds)
      else take (nat dp) ds @ ''.'' @ drop (nat dp) ds)"

definition fmtE :: "string \<Rightarrow> int \<Rightarrow> string" where
  "fmtE ds dp =
     hd ds # (if tl ds = [] then [] else ''.'' @ tl ds) @ ''e'' @
     (if dp - 1 < 0 then ''-'' else ''+'') @ dec_nat (nat \<bar>dp - 1\<bar>)"

text \<open>The number literal of a non-negative float64.\<close>

definition json_float :: "rat \<Rightarrow> string" where
  "json_float x =
     (if x = 0 then ''0''
      else let (c, k) = shortest x; ds = dec_nat c; dp = int (length ds) + k
           in if x < fl (1 / 10 ^ 6) \<or> 10 ^ 21 \<le> x then fmtE ds dp else fmtF ds dp)"

section \<open>Reading a number\<close>

definition is_digit :: "char \<Rightarrow> bool" where
  "is_digit c \<longleftrightarrow> (of_char c :: nat) \<in> {48..<58}"

definition read_frac :: "string \<Rightarrow> string \<times> string" where
  "read_frac s = (case s of c # r \<Rightarrow> if c = CHR ''.'' then (takeWhile is_digit r, dropWhile is_digit r) else ([], s)
                   | [] \<Rightarrow> ([], []))"

definition read_exp :: "string \<Rightarrow> int" where
  "read_exp s = (case s of e # sign # ds \<Rightarrow> if sign = CHR ''-'' then - int (undec ds) else int (undec ds) | _ \<Rightarrow> 0)"

text \<open>The exact value of an unsigned literal with sign-marked exponent.\<close>

definition number_value :: "string \<Rightarrow> rat" where
  "number_value s =
     (let ip = takeWhile is_digit s; (fp, r) = read_frac (dropWhile is_digit s)
      in of_nat (undec (ip @ fp)) * pow10 (read_exp r - int (length fp)))"

lemma is_digit_dec_nat: "c \<in> set (dec_nat n) \<Longrightarrow> is_digit c"
  using dec_nat_digits by (simp add: is_digit_def)

lemma is_digit_zero [simp]: "is_digit (CHR ''0'')"
  by (simp add: is_digit_def)

lemma not_is_digit [simp]: "\<not> is_digit (CHR ''.'')" "\<not> is_digit (CHR ''e'')"
  by (simp_all add: is_digit_def)

lemma takeWhile_digits:
  assumes "\<forall>c\<in>set ds. is_digit c"
  shows "takeWhile is_digit (ds @ r) = ds @ takeWhile is_digit r" "dropWhile is_digit (ds @ r) = dropWhile is_digit r"
    "takeWhile is_digit ds = ds" "dropWhile is_digit ds = []"
  using assms by auto

lemma undec_append: "undec (xs @ ys) = undec xs * 10 ^ length ys + undec ys"
proof (induction ys rule: rev_induct)
  case (snoc y ys)
  have "undec (zs @ [c]) = undec zs * 10 + (of_char c - 48)" for zs c
    by (simp add: undec_def)
  with snoc [simplified] show ?case
    by (simp add: algebra_simps flip: append_assoc)
qed (simp add: undec_def)

lemma undec_Nil [simp]: "undec [] = 0"
  by (simp add: undec_def)

lemma undec_zeros [simp]: "undec (zeros n) = 0"
  by (induction n) (simp_all add: zeros_def undec_def)

lemma length_zeros [simp]: "length (zeros n) = n" "\<forall>c\<in>set (zeros n). is_digit c"
  by (simp_all add: zeros_def)

lemma number_value_fmtF:
  assumes ds: "\<forall>c\<in>set ds. is_digit c"
  shows "number_value (fmtF ds dp) = of_nat (undec ds) * pow10 (dp - int (length ds))"
proof -
  consider "dp \<le> 0" | "0 < dp" "length ds \<le> nat dp" | "0 < dp" "nat dp < length ds"
    by linarith
  then show ?thesis
  proof cases
    case 1
    have "takeWhile is_digit (fmtF ds dp) = ''0''"
        "dropWhile is_digit (fmtF ds dp) = CHR ''.'' # zeros (nat (- dp)) @ ds"
      using 1 by (simp_all add: fmtF_def)
    moreover have "undec (CHR ''0'' # zeros (nat (- dp)) @ ds) = undec ds"
      using undec_append [of "zeros (Suc (nat (- dp)))" ds] undec_zeros [of "Suc (nat (- dp))"]
      by (simp add: zeros_def del: undec_zeros)
    ultimately show ?thesis
      using 1 by (simp add: number_value_def read_frac_def read_exp_def takeWhile_digits [OF length_zeros(2)]
          takeWhile_digits [OF ds])
  next
    case 2
    then have "fmtF ds dp = ds @ zeros (nat dp - length ds)"
      by (simp add: fmtF_def)
    moreover have "\<forall>c\<in>set (ds @ zeros (nat dp - length ds)). is_digit c"
      using ds by auto
    moreover have "pow10 (dp - int (length ds)) = 10 ^ (nat dp - length ds)"
      using 2 pow10_nat [of "nat dp - length ds"] by (simp add: of_nat_diff)
    ultimately show ?thesis
      by (simp add: number_value_def read_frac_def read_exp_def takeWhile_digits undec_append pow10_def [of 0])
  next
    case 3
    have parts: "\<forall>c\<in>set (take (nat dp) ds). is_digit c" "\<forall>c\<in>set (drop (nat dp) ds). is_digit c"
      using ds by (auto dest: in_set_takeD in_set_dropD)
    have "fmtF ds dp = take (nat dp) ds @ CHR ''.'' # drop (nat dp) ds"
      using 3 by (simp add: fmtF_def)
    then have "takeWhile is_digit (fmtF ds dp) = take (nat dp) ds"
        "dropWhile is_digit (fmtF ds dp) = CHR ''.'' # drop (nat dp) ds"
      by (simp_all add: takeWhile_digits [OF parts(1)])
    then show ?thesis
      using 3 by (simp add: number_value_def read_frac_def read_exp_def takeWhile_digits [OF parts(2)] of_nat_diff)
  qed
qed

lemma number_value_fmtE:
  assumes ds: "\<forall>c\<in>set ds. is_digit c" and "ds \<noteq> []"
  shows "number_value (fmtE ds dp) = of_nat (undec ds) * pow10 (dp - int (length ds))"
proof -
  obtain d rest where d: "ds = d # rest"
    using assms(2) by (cases ds) auto
  have e: "read_exp (''e'' @ (if dp - 1 < 0 then ''-'' else ''+'') @ dec_nat (nat \<bar>dp - 1\<bar>)) = dp - 1"
    by (simp add: read_exp_def undec_dec_nat)
  let ?e = "''e'' @ (if dp - 1 < 0 then ''-'' else ''+'') @ dec_nat (nat \<bar>dp - 1\<bar>)"
  have ip: "takeWhile is_digit (fmtE ds dp) = [d]"
      "dropWhile is_digit (fmtE ds dp) = (if rest = [] then [] else CHR ''.'' # rest) @ ?e"
    using ds by (auto simp: fmtE_def d)
  have rest: "\<forall>c\<in>set rest. is_digit c" using ds d by simp
  have "read_frac ((if rest = [] then [] else CHR ''.'' # rest) @ ?e) = (rest, ?e)"
    by (auto simp: read_frac_def takeWhile_digits [OF rest])
  then show ?thesis
    using e by (simp add: number_value_def ip) (simp add: d algebra_simps)
qed

text \<open>Reading back what was written gives the float.\<close>

lemma json_float_read:
  assumes "0 \<le> x" and "fl x = x"
  shows "fl (number_value (json_float x)) = x"
proof (cases "x = 0")
  case True
  have "number_value ''0'' = 0"
    by (simp add: number_value_def read_frac_def read_exp_def undec_def)
  with True show ?thesis
    by (simp add: json_float_def)
next
  case False
  obtain c k where s: "shortest x = (c, k)" by fastforce
  have ds: "\<forall>ch\<in>set (dec_nat c). is_digit ch"
    using is_digit_dec_nat by blast
  have "number_value (json_float x) = of_nat c * pow10 k"
    using False number_value_fmtF [OF ds] number_value_fmtE [OF ds]
    by (simp add: json_float_def s Let_def undec_dec_nat)
  with shortest_fl(2) [OF _ assms(2) s] False assms(1) show ?thesis
    by simp
qed

text \<open>The characters of a literal.\<close>

definition number_char :: "char \<Rightarrow> bool" where
  "number_char c \<longleftrightarrow> is_digit c \<or> c \<in> {CHR ''-'', CHR ''+'', CHR ''.'', CHR ''e''}"

lemma number_char_simps [simp]:
  "number_char (CHR ''0'')" "number_char (CHR ''.'')" "number_char (CHR ''e'')"
  "number_char (CHR ''-'')" "number_char (CHR ''+'')"
  by (simp_all add: number_char_def)

lemma number_char_dec_nat: "list_all number_char (dec_nat n)"
  using is_digit_dec_nat by (auto simp: number_char_def list_all_iff)

lemma list_all_take_drop: "list_all P xs \<Longrightarrow> list_all P (take n xs) \<and> list_all P (drop n xs)"
  by (auto simp: list_all_iff dest: in_set_takeD in_set_dropD)

lemma fmt_chars:
  assumes "list_all number_char ds" and "ds \<noteq> []"
  shows "list_all number_char (fmtF ds dp)" and "list_all number_char (fmtE ds dp)"
    and "fmtF ds dp \<noteq> []" and "fmtE ds dp \<noteq> []"
proof -
  have z: "list_all number_char (zeros n)" for n
    by (simp add: zeros_def list_all_iff)
  obtain d rest where d: "ds = d # rest"
    using assms(2) by (cases ds) auto
  show "list_all number_char (fmtF ds dp)"
    using assms(1) z list_all_take_drop [OF assms(1)] by (simp add: fmtF_def)
  show "list_all number_char (fmtE ds dp)"
    using assms(1) number_char_dec_nat by (simp add: fmtE_def d)
  show "fmtF ds dp \<noteq> []" "fmtE ds dp \<noteq> []"
    using assms(2) by (simp_all add: fmtF_def fmtE_def)
qed

lemma json_float_chars: "list_all number_char (json_float x)" "json_float x \<noteq> []"
  using fmt_chars [OF number_char_dec_nat dec_nat_neq_Nil]
  by (simp_all add: json_float_def Let_def split: prod.split)

end
