(* ===== verification/Mpq_Time.thy ===== *)
theory Mpq_Time
  imports Mpq_Decimal
begin

text \<open>
  Times and durations as text: \<^verbatim>\<open>Time.MarshalJSON\<close> (RFC 3339 with nanoseconds) and
  \<^verbatim>\<open>Duration.String\<close> of Go's \<^verbatim>\<open>time\<close> package, which the results files and the console summary
  use.  A time is the number of nanoseconds since 1970-01-01 00:00 UTC; the local time zone
  is a parameter, the offset in seconds that it has at an instant.
\<close>

section \<open>The calendar\<close>

text \<open>
  The year and the day of the year of day \<open>n\<close>, day 0 being the first of January of the year
  1: cycles of 400, 100, 4 and 1 years, the last year of a cycle being the longer one.
\<close>

definition year_yday :: "int \<Rightarrow> int \<times> int" where
  "year_yday n =
     (let a = n div 146097; r = n mod 146097;
          b = min 3 (r div 36524); r = r - b * 36524;
          c = r div 1461; r = r mod 1461;
          d = min 3 (r div 365)
      in (400 * a + 100 * b + 4 * c + d + 1, r - d * 365))"

definition leap :: "int \<Rightarrow> bool" where
  "leap y \<longleftrightarrow> 4 dvd y \<and> (\<not> 100 dvd y \<or> 400 dvd y)"

text \<open>The days of a year before month \<open>m\<close>.\<close>

definition before_month :: "bool \<Rightarrow> nat \<Rightarrow> int" where
  "before_month lp m =
     [0, 31, 59, 90, 120, 151, 181, 212, 243, 273, 304, 334] ! (m - 1) + (if lp \<and> 2 < m then 1 else 0)"

fun month_from :: "nat \<Rightarrow> bool \<Rightarrow> int \<Rightarrow> nat \<Rightarrow> nat" where
  "month_from 0 lp yday m = m"
| "month_from (Suc left) lp yday m =
     (if yday < before_month lp (m + 1) then m else month_from left lp yday (m + 1))"

definition month_day :: "bool \<Rightarrow> int \<Rightarrow> nat \<times> int" where
  "month_day lp yday = (let m = month_from 11 lp yday 1 in (m, yday - before_month lp m + 1))"

text \<open>The way back.\<close>

definition day_number :: "int \<Rightarrow> nat \<Rightarrow> int \<Rightarrow> int" where
  "day_number y m d =
     365 * (y - 1) + (y - 1) div 4 - (y - 1) div 100 + (y - 1) div 400 + before_month (leap y) m + d - 1"

lemma year_yday_bounds:
  assumes "year_yday n = (y, yday)"
  shows "0 \<le> yday" and "yday < 366" and
    "365 * (y - 1) + (y - 1) div 4 - (y - 1) div 100 + (y - 1) div 400 + yday = n"
proof -
  define a r where "a = n div 146097" and "r = n mod 146097"
  define b where "b = min 3 (r div 36524)"
  define r1 where "r1 = r - b * 36524"
  define c r2 where "c = r1 div 1461" and "r2 = r1 mod 1461"
  define d where "d = min 3 (r2 div 365)"
  have n: "n = 146097 * a + r" "0 \<le> r" "r < 146097"
    by (simp_all add: a_def r_def)
  have b: "0 \<le> b" "b \<le> 3" "0 \<le> r1" "r1 < 36525" "r = 36524 * b + r1"
    using n by (auto simp: b_def r1_def min_def; linarith)+
  have c: "0 \<le> c" "c \<le> 24" "0 \<le> r2" "r2 < 1461" "r1 = 1461 * c + r2"
    using b by (auto simp: c_def r2_def)
  have d: "0 \<le> d" "d \<le> 3" "0 \<le> r2 - d * 365" "r2 - d * 365 < 366"
    using c by (auto simp: d_def min_def; linarith)+
  have "year_yday n = (400 * a + 100 * b + 4 * c + d + 1, r2 - d * 365)"
    by (simp only: year_yday_def Let_def a_def r_def b_def r1_def c_def r2_def d_def)
  with assms have res: "y = 400 * a + 100 * b + 4 * c + d + 1" "yday = r2 - d * 365"
    by simp_all
  then show "0 \<le> yday" "yday < 366"
    using d by simp_all
  have "(y - 1) div 4 = 100 * a + 25 * b + c" "(y - 1) div 100 = 4 * a + b" "(y - 1) div 400 = a"
    using b c d by (simp_all add: res(1))
  then show "365 * (y - 1) + (y - 1) div 4 - (y - 1) div 100 + (y - 1) div 400 + yday = n"
    using n b c res by simp
qed

lemma month_from_spec:
  "before_month lp m \<le> yday \<Longrightarrow> let m' = month_from left lp yday m in
     m \<le> m' \<and> m' \<le> m + left \<and> before_month lp m' \<le> yday \<and>
     (m' < m + left \<longrightarrow> yday < before_month lp (m' + 1))"
  by (induction left lp yday m rule: month_from.induct) (auto simp: Let_def not_less)

lemma month_day_bounds:
  assumes "month_day lp yday = (m, d)" and "0 \<le> yday" and "yday < 366"
  shows "1 \<le> m" and "m \<le> 12" and "1 \<le> d" and "d \<le> 32" and "before_month lp m + d - 1 = yday"
proof -
  have m: "m = month_from 11 lp yday 1" "d = yday - before_month lp m + 1"
    using assms(1) by (auto simp: month_day_def Let_def)
  have "before_month lp 1 \<le> yday"
    using assms(2) by (simp add: before_month_def)
  from month_from_spec [OF this, of 11] have s: "1 \<le> m" "m \<le> 12" "before_month lp m \<le> yday"
      "m < 12 \<Longrightarrow> yday < before_month lp (m + 1)"
    unfolding m(1) [symmetric] by (simp_all add: Let_def)
  have "m = 1 \<or> m = 2 \<or> m = 3 \<or> m = 4 \<or> m = 5 \<or> m = 6 \<or> m = 7 \<or> m = 8 \<or> m = 9 \<or> m = 10 \<or> m = 11 \<or> m = 12"
    using s(1,2) by presburger
  then have "yday < before_month lp m + 32"
    using s(4) assms(3) by (auto simp: before_month_def numeral_eq_Suc split: if_splits)
  with s m(2) show "1 \<le> m" "m \<le> 12" "1 \<le> d" "d \<le> 32" "before_month lp m + d - 1 = yday"
    by simp_all
qed

section \<open>RFC 3339\<close>

definition pad2 :: "nat \<Rightarrow> string" where
  "pad2 n = [dec_digit (n div 10 mod 10), dec_digit (n mod 10)]"

definition pad4 :: "nat \<Rightarrow> string" where
  "pad4 n = pad2 (n div 100) @ pad2 (n mod 100)"

text \<open>A fraction of \<open>10 ^ k\<close> parts: its \<open>k\<close> digits without the zeros at the end.\<close>

fun frac_digits :: "nat \<Rightarrow> nat \<Rightarrow> string" where
  "frac_digits 0 v = []"
| "frac_digits (Suc k) v = (if v = 0 then [] else dec_digit (v div 10 ^ k) # frac_digits k (v mod 10 ^ k))"

definition fraction :: "nat \<Rightarrow> nat \<Rightarrow> string" where
  "fraction k v = (if v = 0 then [] else CHR ''.'' # frac_digits k v)"

text \<open>\<open>off\<close> is the offset of the zone in seconds; a part of a minute is not shown.\<close>

definition zone_text :: "int \<Rightarrow> string" where
  "zone_text off =
     (if off = 0 then ''Z''
      else (let m = nat (\<bar>off\<bar> div 60)
            in (if off < 0 then CHR ''-'' else CHR ''+'') # pad2 (m div 60) @ '':'' @ pad2 (m mod 60)))"

text \<open>\<^verbatim>\<open>Time.MarshalJSON\<close> without the quotes; \<open>None\<close>: the year is outside of [0, 9999].\<close>

definition time_text :: "int \<Rightarrow> int \<Rightarrow> string option" where
  "time_text off t =
     (let l = t + off * 1000000000; secs = l div 1000000000; ns = nat (l mod 1000000000);
          (y, yday) = year_yday (secs div 86400 + 719162); (m, d) = month_day (leap y) yday;
          s = nat (secs mod 86400)
      in if y < 0 \<or> 10000 \<le> y then None
         else Some (pad4 (nat y) @ ''-'' @ pad2 m @ ''-'' @ pad2 (nat d) @ ''T'' @
                    pad2 (s div 3600) @ '':'' @ pad2 (s div 60 mod 60) @ '':'' @ pad2 (s mod 60) @
                    fraction 9 ns @ zone_text off))"

text \<open>Reading a time back.\<close>

definition read_fraction :: "nat \<Rightarrow> string \<Rightarrow> nat \<times> string" where
  "read_fraction k s =
     (case s of c # r \<Rightarrow>
        if c = CHR ''.'' then
          (let ds = takeWhile is_digit r
           in (undec ds * 10 ^ (k - length ds), drop (length ds) r))
        else (0, s)
      | [] \<Rightarrow> (0, []))"

definition read_zone :: "string \<Rightarrow> int" where
  "read_zone z =
     (if z = ''Z'' then 0
      else (if hd z = CHR ''-'' then -1 else 1) *
           (int (undec (take 2 (drop 1 z))) * 3600 + int (undec (take 2 (drop 4 z))) * 60))"

definition time_read :: "string \<Rightarrow> int" where
  "time_read s =
     (let num = (\<lambda>i n. int (undec (take n (drop i s))));
          (ns, z) = read_fraction 9 (drop 19 s);
          days = day_number (num 0 4) (nat (num 5 2)) (num 8 2) - 719162
      in (days * 86400 + num 11 2 * 3600 + num 14 2 * 60 + num 17 2 - read_zone z) * 1000000000 + int ns)"

lemma length_pad [simp]: "length (pad2 n) = 2" "length (pad4 n) = 4"
  by (simp_all add: pad2_def pad4_def)

lemma undec_pad2: "n < 100 \<Longrightarrow> undec (pad2 n) = n"
  by (simp add: pad2_def undec_def of_char_dec_digit)

lemma undec_pad4: "n < 10000 \<Longrightarrow> undec (pad4 n) = n"
  by (simp add: pad4_def pad2_def undec_def of_char_dec_digit)

lemma frac_digits_read:
  "v < 10 ^ k \<Longrightarrow> undec (frac_digits k v) * 10 ^ (k - length (frac_digits k v)) = v \<and>
     length (frac_digits k v) \<le> k \<and> (\<forall>c\<in>set (frac_digits k v). is_digit c)"
proof (induction k v rule: frac_digits.induct)
  case (2 k v)
  show ?case
  proof (cases "v = 0")
    case False
    let ?r = "frac_digits k (v mod 10 ^ k)" and ?q = "v div 10 ^ k"
    have IH: "undec ?r * 10 ^ (k - length ?r) = v mod 10 ^ k" "length ?r \<le> k"
        "\<forall>c\<in>set ?r. is_digit c"
      using "2.IH" [OF False] by simp_all
    have q: "?q < 10"
      using "2.prems" by (simp add: less_mult_imp_div_less)
    have cons: "undec (dec_digit ?q # ds) = ?q * 10 ^ length ds + undec ds" for ds
    proof (induction ds rule: rev_induct)
      case Nil
      then show ?case using q by (simp add: undec_def of_char_dec_digit)
    next
      case (snoc x xs)
      have "undec (ys @ [x]) = undec ys * 10 + (of_char x - 48)" for ys
        by (simp add: undec_def)
      from this [of "dec_digit ?q # xs"] this [of xs] snoc show ?case
        by (simp add: algebra_simps)
    qed
    have "10 ^ length ?r * 10 ^ (k - length ?r) = (10 ^ k :: nat)"
      using IH(2) by (simp flip: power_add)
    then have "undec (dec_digit ?q # ?r) * 10 ^ (k - length ?r) = ?q * 10 ^ k + v mod 10 ^ k"
      using IH(1) by (simp add: cons distrib_right mult.assoc)
    moreover have "is_digit (dec_digit ?q)"
      using q by (simp add: is_digit_def of_char_dec_digit)
    ultimately show ?thesis
      using False IH by (simp add: div_mult_mod_eq)
  qed (simp add: undec_def)
qed (simp add: undec_def)

lemma read_fraction_text:
  assumes "v < 10 ^ k" and "z \<noteq> []" and "\<not> is_digit (hd z)" and "hd z \<noteq> CHR ''.''"
  shows "read_fraction k (fraction k v @ z) = (v, z)"
proof -
  have tw: "takeWhile is_digit (frac_digits k v @ z) = frac_digits k v"
    using frac_digits_read [OF assms(1)] assms(2,3) by (cases z) (simp_all add: takeWhile_digits)
  show ?thesis
    using frac_digits_read [OF assms(1)] assms(2-4)
    by (cases z) (simp_all add: read_fraction_def fraction_def Let_def tw)
qed

lemma read_zone_text:
  assumes "\<bar>off\<bar> < 360000" and "60 dvd off"
  shows "read_zone (zone_text off) = off"
proof (cases "off = 0")
  case False
  define m where "m = nat (\<bar>off\<bar> div 60)"
  have m: "m < 6000" "int m * 60 = \<bar>off\<bar>"
    using assms by (auto simp: m_def)
  have "m div 60 < 100" "m mod 60 < 100"
    using m(1) by auto
  then have "undec (pad2 (m div 60)) = m div 60" "undec (pad2 (m mod 60)) = m mod 60"
    by (simp_all add: undec_pad2)
  moreover have "int (m div 60) * 3600 + int (m mod 60) * 60 = \<bar>off\<bar>"
  proof -
    have "m div 60 * 3600 + m mod 60 * 60 = m * 60"
      using div_mult_mod_eq [of m 60] by linarith
    from arg_cong [OF this, of int] m(2) show ?thesis
      by (simp only: of_nat_add of_nat_mult of_nat_numeral)
  qed
  ultimately show ?thesis
    using False by (auto simp: read_zone_def zone_text_def Let_def simp flip: m_def)
qed (simp add: read_zone_def zone_text_def)

text \<open>What is read is the instant, whatever the zone, as long as it is whole minutes off.\<close>

lemma time_read_text:
  assumes "time_text off t = Some s" and "\<bar>off\<bar> < 360000" and "60 dvd off"
  shows "time_read s = t"
proof -
  define l where "l = t + off * 1000000000"
  define secs ns where "secs = l div 1000000000" and "ns = nat (l mod 1000000000)"
  define sd where "sd = nat (secs mod 86400)"
  obtain y yday m d where ymd: "year_yday (secs div 86400 + 719162) = (y, yday)" "month_day (leap y) yday = (m, d)"
    by fastforce
  have s: "s = pad4 (nat y) @ ''-'' @ pad2 m @ ''-'' @ pad2 (nat d) @ ''T'' @
      pad2 (sd div 3600) @ '':'' @ pad2 (sd div 60 mod 60) @ '':'' @ pad2 (sd mod 60) @ fraction 9 ns @ zone_text off"
    and y: "0 \<le> y" "y < 10000"
    using assms(1) ymd
    by (auto simp: time_text_def Let_def l_def secs_def ns_def sd_def split: if_splits)
  note md = month_day_bounds [OF ymd(2) year_yday_bounds(1,2) [OF ymd(1)]]
  have bounds: "nat y < 10000" "m < 100" "nat d < 100" "sd < 86400"
    using y md by (simp_all add: sd_def nat_less_iff)
  have nums: "undec (pad4 (nat y)) = nat y" "undec (pad2 m) = m" "undec (pad2 (nat d)) = nat d"
      "undec (pad2 (sd div 3600)) = sd div 3600" "undec (pad2 (sd div 60 mod 60)) = sd div 60 mod 60"
      "undec (pad2 (sd mod 60)) = sd mod 60"
    using bounds by (auto intro!: undec_pad2 undec_pad4)
  have z: "zone_text off \<noteq> []" "\<not> is_digit (hd (zone_text off))" "hd (zone_text off) \<noteq> CHR ''.''"
    by (auto simp: zone_text_def is_digit_def Let_def)
  have "ns < 10 ^ 9"
    by (simp add: ns_def nat_less_iff)
  then have frac: "read_fraction 9 (fraction 9 ns @ zone_text off) = (ns, zone_text off)"
    using z by (rule read_fraction_text)
  have "day_number y m d = secs div 86400 + 719162"
    using year_yday_bounds(3) [OF ymd(1)] md(5) by (simp add: day_number_def)
  moreover have "int (sd div 3600) * 3600 + int (sd div 60 mod 60) * 60 + int (sd mod 60) = secs mod 86400"
  proof -
    have "sd div 3600 = sd div 60 div 60"
      by (simp flip: div_mult2_eq)
    with div_mult_mod_eq [of "sd div 60" 60] div_mult_mod_eq [of sd 60]
    have "sd div 3600 * 3600 + sd div 60 mod 60 * 60 + sd mod 60 = sd" by linarith
    from arg_cong [OF this, of int]
    have "int (sd div 3600) * 3600 + int (sd div 60 mod 60) * 60 + int (sd mod 60) = int sd"
      by (simp only: of_nat_add of_nat_mult of_nat_numeral)
    also have "int sd = secs mod 86400"
      by (simp add: sd_def)
    finally show ?thesis .
  qed
  moreover have "secs * 1000000000 + int ns = l"
    by (simp add: secs_def ns_def)
  moreover have "time_read s = ((day_number y m d - 719162) * 86400 + int (sd div 3600) * 3600 +
      int (sd div 60 mod 60) * 60 + int (sd mod 60) - off) * 1000000000 + int ns"
  proof -
    have "take 4 (drop 0 s) = pad4 (nat y)" "take 2 (drop 5 s) = pad2 m" "take 2 (drop 8 s) = pad2 (nat d)"
        "take 2 (drop 11 s) = pad2 (sd div 3600)" "take 2 (drop 14 s) = pad2 (sd div 60 mod 60)"
        "take 2 (drop 17 s) = pad2 (sd mod 60)" "drop 19 s = fraction 9 ns @ zone_text off"
      by (simp_all add: s)
    then show ?thesis
      using y(1) md(3)
      by (simp only: time_read_def Let_def nums frac prod.case read_zone_text [OF assms(2,3)] nat_int int_nat_eq) simp
  qed
  moreover have "((secs div 86400 + 719162 - 719162) * 86400 + secs mod 86400 - off) * 1000000000 + int ns
      = secs * 1000000000 + int ns - off * 1000000000"
    by (simp add: algebra_simps)
  ultimately show ?thesis
    by (simp add: l_def add.assoc)
qed

section \<open>Durations\<close>

text \<open>\<^verbatim>\<open>Duration.String\<close>; the micro sign is two bytes.\<close>

definition Duration_String :: "int \<Rightarrow> string" where
  "Duration_String d =
     (let u = nat \<bar>d\<bar>; secs = u div 1000000000
      in if u = 0 then ''0s''
         else (if d < 0 then ''-'' else []) @
           (if u < 1000 then dec_nat u @ ''ns''
            else if u < 1000000
            then dec_nat (u div 1000) @ fraction 3 (u mod 1000) @ [char_of (194::nat), char_of (181::nat), CHR ''s'']
            else if u < 1000000000 then dec_nat (u div 1000000) @ fraction 6 (u mod 1000000) @ ''ms''
            else (if 3600 \<le> secs then dec_nat (secs div 3600) @ ''h'' else []) @
                 (if 60 \<le> secs then dec_nat (secs div 60 mod 60) @ ''m'' else []) @
                 dec_nat (secs mod 60) @ fraction 9 (u mod 1000000000) @ ''s''))"

end
