(* ===== verification/Mpq_Json.thy ===== *)
theory Mpq_Json
  imports Mpq_Decimal
begin

text \<open>
  What \<^verbatim>\<open>encoding/json\<close> writes with an indentation of two spaces: strings with the escapes of
  its default mode (HTML characters included) and invalid UTF-8 replaced, numbers, arrays and
  objects; a reader of JSON text, and the proof that it reads back what was written.
\<close>

section \<open>UTF-8\<close>

definition is_cont :: "nat \<Rightarrow> bool" where "is_cont b \<longleftrightarrow> 128 \<le> b \<and> b < 192"

text \<open>The length of the rune a byte sequence starts with; zero when there is no valid one.\<close>

definition utf8_len :: "nat list \<Rightarrow> nat" where
  "utf8_len bs =
     (case bs of
        [] \<Rightarrow> 0
      | a # r \<Rightarrow>
          if a < 128 then 1
          else if a < 194 then 0
          else if a < 224 then (case r of b # _ \<Rightarrow> if is_cont b then 2 else 0 | [] \<Rightarrow> 0)
          else if a < 240 then
            (case r of b # c # _ \<Rightarrow>
               if is_cont b \<and> (a = 224 \<longrightarrow> 160 \<le> b) \<and> (a = 237 \<longrightarrow> b < 160) \<and> is_cont c then 3 else 0
             | _ \<Rightarrow> 0)
          else if a < 245 then
            (case r of b # c # d # _ \<Rightarrow>
               if is_cont b \<and> (a = 240 \<longrightarrow> 144 \<le> b) \<and> (a = 244 \<longrightarrow> b < 144) \<and> is_cont c \<and> is_cont d then 4 else 0
             | _ \<Rightarrow> 0)
          else 0)"

abbreviation rune_len :: "string \<Rightarrow> nat" where
  "rune_len s \<equiv> utf8_len (map of_char (take 4 s))"

text \<open>The bytes of a code point below \<open>2 ^ 16\<close>.\<close>

definition utf8_encode :: "nat \<Rightarrow> string" where
  "utf8_encode n =
     map char_of
       (if n < 128 then [n]
        else if n < 2048 then [192 + n div 64, 128 + n mod 64]
        else [224 + n div 4096, 128 + n div 64 mod 64, 128 + n mod 64])"

text \<open>Every byte that is not part of a valid rune becomes the replacement character.\<close>

fun to_valid :: "string \<Rightarrow> string" where
  "to_valid [] = []"
| "to_valid (c # cs) =
     (let n = rune_len (c # cs) in
      if n = 0 then utf8_encode 0xfffd @ to_valid cs
      else take n (c # cs) @ to_valid (drop (n - 1) cs))"

section \<open>Writing strings\<close>

definition hex_digit :: "nat \<Rightarrow> char" where
  "hex_digit n = (if n < 10 then char_of (48 + n) else char_of (87 + n))"

definition short_escapes :: "(char \<times> char) list" where
  "short_escapes =
     [(backslash, backslash), (dquote, dquote), (char_of (8::nat), CHR ''b''), (char_of (12::nat), CHR ''f''),
      (newline, CHR ''n''), (creturn, CHR ''r''), (char_of (9::nat), CHR ''t'')]"

definition json_escape :: "char \<Rightarrow> string" where
  "json_escape c =
     (case map_of short_escapes c of
        Some e \<Rightarrow> [backslash, e]
      | None \<Rightarrow>
          (let b = of_char c :: nat
           in if b < 32 \<or> c \<in> set ''<>&''
              then backslash # ''u00'' @ [hex_digit (b div 16), hex_digit (b mod 16)]
              else [c]))"

fun json_chars :: "string \<Rightarrow> string" where
  "json_chars [] = []"
| "json_chars (c # cs) =
     (let n = rune_len (c # cs); r = take n (c # cs) in
      if n = 0 then backslash # ''ufffd'' @ json_chars cs
      else (if n = 1 then json_escape c
            else if r = utf8_encode 0x2028 then backslash # ''u2028''
            else if r = utf8_encode 0x2029 then backslash # ''u2029''
            else r) @ json_chars (drop (n - 1) cs))"

definition json_string :: "string \<Rightarrow> string" where
  "json_string s = dquote # json_chars s @ [dquote]"

section \<open>Documents\<close>

datatype json =
    JNull
  | JBool bool
  | JNum string
  | JStr string
  | JArr "json list"
  | JObj "(string \<times> json) list"

definition json_line :: "nat \<Rightarrow> string" where
  "json_line d = newline # replicate (2 * d) (CHR '' '')"

fun json_items :: "nat \<Rightarrow> string list \<Rightarrow> string" where
  "json_items d [] = []"
| "json_items d [x] = json_line d @ x"
| "json_items d (x # xs) = json_line d @ x @ '','' @ json_items d xs"

fun json_text :: "nat \<Rightarrow> json \<Rightarrow> string" where
  "json_text d JNull = ''null''"
| "json_text d (JBool b) = FormatBool b"
| "json_text d (JNum s) = s"
| "json_text d (JStr s) = json_string s"
| "json_text d (JArr xs) =
     (if xs = [] then ''[]''
      else ''['' @ json_items (d + 1) (map (json_text (d + 1)) xs) @ json_line d @ '']'')"
| "json_text d (JObj kvs) =
     (if kvs = [] then ''{}''
      else ''{'' @ json_items (d + 1) (map (\<lambda>kv. json_string (fst kv) @ '': '' @ json_text (d + 1) (snd kv)) kvs) @
           json_line d @ ''}'')"

section \<open>Reading\<close>

definition hex_value :: "char \<Rightarrow> nat option" where
  "hex_value c =
     (let b = of_char c :: nat in
      if 48 \<le> b \<and> b < 58 then Some (b - 48)
      else if 97 \<le> b \<and> b < 103 then Some (b - 87)
      else if 65 \<le> b \<and> b < 71 then Some (b - 55) else None)"

definition read_escape :: "string \<Rightarrow> (string \<times> string) option" where
  "read_escape s =
     (case s of
        [] \<Rightarrow> None
      | e # r \<Rightarrow>
          if e \<in> {dquote, backslash, CHR ''/''} then Some ([e], r)
          else if e = CHR ''b'' then Some ([char_of (8::nat)], r)
          else if e = CHR ''f'' then Some ([char_of (12::nat)], r)
          else if e = CHR ''n'' then Some ([newline], r)
          else if e = CHR ''r'' then Some ([creturn], r)
          else if e = CHR ''t'' then Some ([char_of (9::nat)], r)
          else if e = CHR ''u'' then
            (case map hex_value (take 4 r) of
               [Some a, Some b, Some c, Some d] \<Rightarrow>
                 Some (utf8_encode (((a * 16 + b) * 16 + c) * 16 + d), drop 4 r)
             | _ \<Rightarrow> None)
          else None)"

lemma read_escape_length: "read_escape s = Some (t, r) \<Longrightarrow> length r < length s"
  by (auto simp: read_escape_def split: list.splits if_splits option.splits)

function read_chars :: "string \<Rightarrow> (string \<times> string) option" where
  "read_chars [] = None"
| "read_chars (c # r) =
     (if c = dquote then Some ([], r)
      else if c = backslash then
        (case read_escape r of
           None \<Rightarrow> None
         | Some (t, r') \<Rightarrow> map_option (\<lambda>(u, q). (t @ u, q)) (read_chars r'))
      else map_option (\<lambda>(u, q). (c # u, q)) (read_chars r))"
  by pat_completeness auto
termination
  by (relation "measure length") (auto dest!: read_escape_length)

definition is_ws :: "char \<Rightarrow> bool" where
  "is_ws c \<longleftrightarrow> c \<in> {CHR '' '', newline, creturn, char_of (9::nat)}"

abbreviation skip_ws :: "string \<Rightarrow> string" where "skip_ws \<equiv> dropWhile is_ws"

text \<open>The first argument bounds the nesting and the number of elements; the length of the text is enough.\<close>

fun read_value :: "nat \<Rightarrow> string \<Rightarrow> (json \<times> string) option"
  and read_elems :: "nat \<Rightarrow> string \<Rightarrow> (json list \<times> string) option"
  and read_members :: "nat \<Rightarrow> string \<Rightarrow> ((string \<times> json) list \<times> string) option" where
  "read_value 0 s = None"
| "read_value (Suc n) s =
     (case skip_ws s of
        [] \<Rightarrow> None
      | c # r \<Rightarrow>
          if c = dquote then map_option (\<lambda>(t, q). (JStr t, q)) (read_chars r)
          else if c = CHR ''['' then
            (case skip_ws r of
               x # q \<Rightarrow> if x = CHR '']'' then Some (JArr [], q)
                        else map_option (\<lambda>(vs, q). (JArr vs, q)) (read_elems n r)
             | [] \<Rightarrow> None)
          else if c = CHR ''{'' then
            (case skip_ws r of
               x # q \<Rightarrow> if x = CHR ''}'' then Some (JObj [], q)
                        else map_option (\<lambda>(kvs, q). (JObj kvs, q)) (read_members n r)
             | [] \<Rightarrow> None)
          else if take 4 (c # r) = ''true'' then Some (JBool True, drop 3 r)
          else if take 5 (c # r) = ''false'' then Some (JBool False, drop 4 r)
          else if take 4 (c # r) = ''null'' then Some (JNull, drop 3 r)
          else if number_char c then Some (JNum (takeWhile number_char (c # r)), dropWhile number_char r)
          else None)"
| "read_elems 0 s = None"
| "read_elems (Suc n) s =
     (case read_value n s of
        None \<Rightarrow> None
      | Some (v, r) \<Rightarrow>
          (case skip_ws r of
             x # q \<Rightarrow> if x = CHR '','' then map_option (\<lambda>(vs, q). (v # vs, q)) (read_elems n q)
                      else if x = CHR '']'' then Some ([v], q) else None
           | [] \<Rightarrow> None))"
| "read_members 0 s = None"
| "read_members (Suc n) s =
     (case skip_ws s of
        [] \<Rightarrow> None
      | x # r \<Rightarrow>
          if x \<noteq> dquote then None
          else (case read_chars r of
             None \<Rightarrow> None
           | Some (k, r) \<Rightarrow>
               (case skip_ws r of
                  [] \<Rightarrow> None
                | y # r \<Rightarrow>
                    if y \<noteq> CHR '':'' then None
                    else (case read_value n r of
                       None \<Rightarrow> None
                     | Some (v, r) \<Rightarrow>
                         (case skip_ws r of
                            z # q \<Rightarrow> if z = CHR '','' then map_option (\<lambda>(kvs, q). ((k, v) # kvs, q)) (read_members n q)
                                     else if z = CHR ''}'' then Some ([(k, v)], q) else None
                          | [] \<Rightarrow> None)))))"

definition json_read :: "string \<Rightarrow> json option" where
  "json_read s =
     (case read_value (length s) s of
        None \<Rightarrow> None
      | Some (v, r) \<Rightarrow> if skip_ws r = [] then Some v else None)"

section \<open>Strings read back\<close>

lemma utf8_len_le: "utf8_len bs \<le> length bs" "utf8_len bs \<le> 4"
  by (simp_all add: utf8_len_def split: list.split)

lemma utf8_len_bytes: "utf8_len bs \<noteq> 1 \<Longrightarrow> \<forall>b\<in>set (take (utf8_len bs) bs). 128 \<le> b"
  by (auto simp: utf8_len_def is_cont_def split: list.splits if_splits)

lemma utf8_len_single: "utf8_len bs = 1 \<Longrightarrow> hd bs < 128"
  by (auto simp: utf8_len_def split: list.splits if_splits)

lemma rune_bytes:
  assumes "rune_len s \<noteq> 1"
  shows "\<forall>c\<in>set (take (rune_len s) s). 128 \<le> (of_char c :: nat)"
proof -
  have "map of_char (take (rune_len s) s) = take (rune_len s) (map of_char (take 4 s) :: nat list)"
    using utf8_len_le(2) [of "map of_char (take 4 s)"] by (simp add: take_map min_def)
  with utf8_len_bytes [OF assms] have "\<forall>b\<in>set (map of_char (take (rune_len s) s)). (128 :: nat) \<le> b"
    by simp
  then show ?thesis by simp
qed

lemma read_chars_plain:
  assumes "\<forall>c\<in>set p. c \<noteq> dquote \<and> c \<noteq> backslash"
  shows "read_chars (p @ r) = map_option (\<lambda>(u, q). (p @ u, q)) (read_chars r)"
  using assms by (induction p) (auto simp: option.map_comp comp_def case_prod_unfold option.map_ident)

lemma hex_value_digit: "n < 16 \<Longrightarrow> hex_value (hex_digit n) = Some n"
  by (auto simp: hex_value_def hex_digit_def Let_def)

lemma control_chars [simp]:
  "char_of (34::nat) = CHR 0x22" "char_of (92::nat) = CHR 0x5C" "char_of (8::nat) = CHR 0x08"
  "char_of (9::nat) = CHR 0x09" "char_of (10::nat) = CHR 0x0A" "char_of (12::nat) = CHR 0x0C"
  "char_of (13::nat) = CHR 0x0D"
  by (simp_all add: char_of_def bit_Suc_0_iff)

lemma read_chars_esc:
  "read_escape (e @ r) = Some (t, r) \<Longrightarrow> read_chars (backslash # e @ r) = map_option (\<lambda>(u, q). (t @ u, q)) (read_chars r)"
  by simp

lemma hex_escape:
  assumes "b < 128"
  shows "read_escape (''u00'' @ [hex_digit (b div 16), hex_digit (b mod 16)] @ r) = Some ([char_of b], r)"
proof -
  have "b div 16 < 16" "b mod 16 < 16"
    using assms by auto
  then have "hex_value (hex_digit (b div 16)) = Some (b div 16)" "hex_value (hex_digit (b mod 16)) = Some (b mod 16)"
    by (simp_all add: hex_value_digit)
  moreover have "hex_value (CHR ''0'') = Some 0"
    by (simp add: hex_value_def)
  moreover have "b div 16 * 16 + b mod 16 = b"
    by (rule div_mult_mod_eq)
  ultimately show ?thesis
    using assms by (simp add: read_escape_def utf8_encode_def)
qed

lemma read_chars_escape:
  assumes "(of_char c :: nat) < 128"
  shows "read_chars (json_escape c @ r) = map_option (\<lambda>(u, q). (c # u, q)) (read_chars r)"
proof (cases "map_of short_escapes c")
  case (Some e)
  have "\<forall>(c, e)\<in>set short_escapes. read_escape ([e] @ r) = Some ([c], r)"
    by (simp add: short_escapes_def read_escape_def)
  with map_of_SomeD [OF Some] have "read_escape ([e] @ r) = Some ([c], r)" by blast
  from read_chars_esc [OF this] Some show ?thesis
    by (simp add: json_escape_def del: read_chars.simps)
next
  case None
  let ?b = "of_char c :: nat"
  show ?thesis
  proof (cases "?b < 32 \<or> c \<in> set ''<>&''")
    case True
    with None have "json_escape c = backslash # ''u00'' @ [hex_digit (?b div 16), hex_digit (?b mod 16)]"
      by (simp add: json_escape_def Let_def)
    moreover have "[char_of ?b] = [c]" by simp
    ultimately show ?thesis
      using read_chars_esc [of "''u00'' @ [hex_digit (?b div 16), hex_digit (?b mod 16)]" r "[c]"] hex_escape [OF assms, of r]
      by (simp del: read_chars.simps)
  next
    case False
    have "c \<noteq> backslash" "c \<noteq> dquote"
      using None by (auto simp: short_escapes_def split: if_splits)
    with None False show ?thesis
      by (simp add: json_escape_def Let_def)
  qed
qed

lemma code_point_escapes:
  "read_escape (''ufffd'' @ q) = Some (utf8_encode 0xfffd, q)"
  "read_escape (''u2028'' @ q) = Some (utf8_encode 0x2028, q)"
  "read_escape (''u2029'' @ q) = Some (utf8_encode 0x2029, q)"
  by (simp_all add: read_escape_def hex_value_def)

lemma read_chars_json:
  "read_chars (json_chars s @ dquote # r) = Some (to_valid s, r)"
proof (induction s rule: json_chars.induct)
  case 1
  then show ?case by simp
next
  case (2 c cs)
  let ?n = "rune_len (c # cs)"
  let ?r = "take ?n (c # cs)" and ?rest = "json_chars (drop (?n - 1) cs) @ dquote # r"
  consider "?n = 0" | "?n = 1" | "?n \<noteq> 0" "?n \<noteq> 1" by blast
  then show ?case
  proof cases
    case 1
    have "read_chars (json_chars cs @ dquote # r) = Some (to_valid cs, r)"
      by (rule "2.IH"(1) [OF refl refl 1])
    with 1 read_chars_esc [OF code_point_escapes(1), of "json_chars cs @ dquote # r"] show ?thesis
      by (simp del: read_chars.simps)
  next
    case 2
    then have IH: "read_chars ?rest = Some (to_valid (drop (?n - 1) cs), r)"
      by (intro "2.IH"(2) [OF refl refl]) simp
    have "(of_char c :: nat) < 128"
      using utf8_len_single [OF 2] by simp
    from read_chars_escape [OF this, of ?rest] IH 2 show ?thesis
      by (simp del: read_chars.simps)
  next
    case 3
    then have IH: "read_chars ?rest = Some (to_valid (drop (?n - 1) cs), r)"
      by (intro "2.IH"(2) [OF refl refl]) simp
    have "\<forall>x\<in>set ?r. 128 \<le> (of_char x :: nat)"
      using 3(2) by (rule rune_bytes)
    then have plain: "read_chars (?r @ ?rest) = map_option (\<lambda>(u, q). (?r @ u, q)) (read_chars ?rest)"
      by (intro read_chars_plain) fastforce
    consider "?r = utf8_encode 0x2028" | "?r = utf8_encode 0x2029" "?r \<noteq> utf8_encode 0x2028"
      | "?r \<noteq> utf8_encode 0x2028" "?r \<noteq> utf8_encode 0x2029" by blast
    then have "read_chars (json_chars (c # cs) @ dquote # r) = map_option (\<lambda>(u, q). (?r @ u, q)) (read_chars ?rest)"
    proof cases
      case 1
      then have "json_chars (c # cs) = backslash # ''u2028'' @ json_chars (drop (?n - 1) cs)"
        using 3 unfolding json_chars.simps(2) Let_def by (simp only: if_False if_True append_Cons append_Nil simp_thms)
      with 1 read_chars_esc [OF code_point_escapes(2), of ?rest] show ?thesis
        by (simp only: append_assoc append_Cons append_Nil)
    next
      case 2
      then have "json_chars (c # cs) = backslash # ''u2029'' @ json_chars (drop (?n - 1) cs)"
        using 3 unfolding json_chars.simps(2) Let_def by (simp only: if_False if_True append_Cons append_Nil simp_thms)
      with 2 read_chars_esc [OF code_point_escapes(3), of ?rest] show ?thesis
        by (simp only: append_assoc append_Cons append_Nil)
    next
      case 4: 3
      then have "json_chars (c # cs) = ?r @ json_chars (drop (?n - 1) cs)"
        using 3 unfolding json_chars.simps(2) Let_def by (simp only: if_False)
      with plain show ?thesis
        by (simp only: append_assoc)
    qed
    moreover have "to_valid (c # cs) = ?r @ to_valid (drop (?n - 1) cs)"
      using 3 unfolding to_valid.simps(2) Let_def by (simp only: if_False)
    ultimately show ?thesis
      using IH by simp
  qed
qed

section \<open>Documents read back\<close>

text \<open>What reading gives: strings are valid UTF-8 then.\<close>

fun json_valid :: "json \<Rightarrow> json" where
  "json_valid (JStr s) = JStr (to_valid s)"
| "json_valid (JArr xs) = JArr (map json_valid xs)"
| "json_valid (JObj kvs) = JObj (map (\<lambda>kv. (to_valid (fst kv), json_valid (snd kv))) kvs)"
| "json_valid v = v"

fun json_ok :: "json \<Rightarrow> bool" where
  "json_ok (JNum s) = (s \<noteq> [] \<and> list_all number_char s)"
| "json_ok (JArr xs) = (\<forall>x\<in>set xs. json_ok x)"
| "json_ok (JObj kvs) = (\<forall>kv\<in>set kvs. json_ok (snd kv))"
| "json_ok v = True"

text \<open>The fuel a document needs.\<close>

fun json_need :: "json \<Rightarrow> nat" where
  "json_need (JArr xs) = 1 + sum_list (map (\<lambda>x. 1 + json_need x) xs)"
| "json_need (JObj kvs) = 1 + sum_list (map (\<lambda>kv. 1 + json_need (snd kv)) kvs)"
| "json_need v = 1"

definition delim :: "string \<Rightarrow> bool" where
  "delim r \<longleftrightarrow> r = [] \<or> \<not> number_char (hd r)"

lemma delim_simps [simp]:
  "delim []" "delim (CHR '','' # r)" "delim (CHR '']'' # r)" "delim (CHR ''}'' # r)" "delim (json_line d @ r)"
  "delim (CHR 0x0A # r)"
  by (simp_all add: delim_def json_line_def number_char_def is_digit_def)

lemma skip_line [simp]: "skip_ws (json_line d @ s) = skip_ws s"
proof -
  have "\<forall>c\<in>set (json_line d). is_ws c"
    by (auto simp: json_line_def is_ws_def)
  then show ?thesis
    by (intro dropWhile_append2) blast
qed

lemma is_ws_simps [simp]:
  "is_ws (CHR '' '')" "is_ws (CHR 0x0A)" "\<not> is_ws (CHR 0x22)" "\<not> is_ws (CHR ''['')" "\<not> is_ws (CHR '']'')"
  "\<not> is_ws (CHR ''{'')" "\<not> is_ws (CHR ''}'')" "\<not> is_ws (CHR '','')" "\<not> is_ws (CHR '':'')"
  "\<not> is_ws (CHR ''n'')" "\<not> is_ws (CHR ''t'')" "\<not> is_ws (CHR ''f'')"
  by (simp_all add: is_ws_def)

lemma json_text_first:
  "json_ok v \<Longrightarrow> \<exists>c q. json_text d v = c # q \<and> \<not> is_ws c \<and> c \<noteq> CHR '']'' \<and> c \<noteq> CHR ''}''"
proof (cases v)
  case (JNum s)
  moreover assume "json_ok v"
  ultimately show ?thesis
    by (cases s) (auto simp: number_char_def is_digit_def is_ws_def)
qed (auto simp: json_string_def FormatBool_def is_ws_def)

lemma read_value_skip: "skip_ws s = skip_ws t \<Longrightarrow> read_value n s = read_value n t"
  by (cases n) simp_all

lemma read_value_line [simp]: "read_value n (json_line d @ s) = read_value n s"
  and read_value_space [simp]: "read_value n (CHR '' '' # s) = read_value n s"
  by (rule read_value_skip, simp)+

lemma read_number:
  assumes "s \<noteq> []" and "list_all number_char s" and "delim r"
  shows "read_value (Suc n) (s @ r) = Some (JNum s, r)"
proof -
  obtain c q where s: "s = c # q"
    using assms(1) by (cases s) auto
  have c: "number_char c" "\<not> is_ws c" "c \<notin> {CHR 0x22, CHR ''['', CHR ''{'', CHR ''t'', CHR ''f'', CHR ''n''}"
    using assms(2) s by (auto simp: number_char_def is_digit_def is_ws_def)
  have "takeWhile number_char (q @ r) = q" "dropWhile number_char (q @ r) = r"
    using assms(2,3) s by (cases r; simp add: delim_def list_all_iff)+
  with c show ?thesis
    by (simp add: s)
qed

lemma read_elems_items:
  assumes "xs \<noteq> []" and "\<forall>x\<in>set xs. json_ok x"
    and "\<And>x n r. x \<in> set xs \<Longrightarrow> delim r \<Longrightarrow> json_need x \<le> n \<Longrightarrow>
      read_value n (json_text d x @ r) = Some (json_valid x, r)"
    and "sum_list (map (\<lambda>x. 1 + json_need x) xs) \<le> n"
  shows "read_elems n (json_items d (map (json_text d) xs) @ json_line e @ CHR '']'' # r) = Some (map json_valid xs, r)"
  using assms
proof (induction xs arbitrary: n)
  case (Cons x xs)
  then obtain m where n: "n = Suc m" "json_need x + sum_list (map (\<lambda>x. 1 + json_need x) xs) \<le> m"
    by (cases n) auto
  show ?case
  proof (cases xs)
    case Nil
    with Cons.prems n show ?thesis by simp
  next
    case (Cons y ys)
    then have "json_items d (map (json_text d) (x # xs)) = json_line d @ json_text d x @ CHR '','' # json_items d (map (json_text d) xs)"
      by simp
    moreover have "read_elems m (json_items d (map (json_text d) xs) @ json_line e @ CHR '']'' # r) = Some (map json_valid xs, r)"
      using Cons Cons.prems n by (intro Cons.IH) auto
    ultimately show ?thesis
      using Cons.prems(3) [of x "CHR '','' # json_items d (map (json_text d) xs) @ json_line e @ CHR '']'' # r" m] n
      by simp
  qed
qed simp

lemma read_members_items:
  assumes "kvs \<noteq> []" and "\<And>kv n r. kv \<in> set kvs \<Longrightarrow> delim r \<Longrightarrow> json_need (snd kv) \<le> n \<Longrightarrow>
      read_value n (json_text d (snd kv) @ r) = Some (json_valid (snd kv), r)"
    and "sum_list (map (\<lambda>kv. 1 + json_need (snd kv)) kvs) \<le> n"
  shows "read_members n (json_items d (map (\<lambda>kv. json_string (fst kv) @ '': '' @ json_text d (snd kv)) kvs) @
      json_line e @ CHR ''}'' # r) = Some (map (\<lambda>kv. (to_valid (fst kv), json_valid (snd kv))) kvs, r)"
  using assms
proof (induction kvs arbitrary: n)
  case (Cons x xs)
  let ?item = "\<lambda>kv. json_string (fst kv) @ '': '' @ json_text d (snd kv)"
  obtain m where n: "n = Suc m" "json_need (snd x) + sum_list (map (\<lambda>kv. 1 + json_need (snd kv)) xs) \<le> m"
    using Cons.prems(3) by (cases n) auto
  have str: "read_chars (json_chars (fst x) @ CHR 0x22 # q) = Some (to_valid (fst x), q)" for q
    using read_chars_json [of "fst x" q] by simp
  show ?case
  proof (cases xs)
    case Nil
    with Cons.prems n str show ?thesis
      by (simp add: json_string_def)
  next
    case (Cons y ys)
    then have "json_items d (map ?item (x # xs)) = json_line d @ ?item x @ CHR '','' # json_items d (map ?item xs)"
      by simp
    moreover have "read_members m (json_items d (map ?item xs) @ json_line e @ CHR ''}'' # r)
        = Some (map (\<lambda>kv. (to_valid (fst kv), json_valid (snd kv))) xs, r)"
      using Cons Cons.prems n by (intro Cons.IH) auto
    ultimately show ?thesis
      using Cons.prems(2) [of x "CHR '','' # json_items d (map ?item xs) @ json_line e @ CHR ''}'' # r" m] n str
      by (simp add: json_string_def)
  qed
qed simp

lemma items_first:
  "ts = (c # q) # us \<Longrightarrow> \<not> is_ws c \<Longrightarrow> \<exists>q'. skip_ws (json_items d ts @ t) = c # q'"
  by (cases us) simp_all

lemma read_value_text:
  "json_ok v \<Longrightarrow> delim r \<Longrightarrow> json_need v \<le> n \<Longrightarrow> read_value n (json_text d v @ r) = Some (json_valid v, r)"
proof (induction v arbitrary: d n r)
  case JNull
  then show ?case by (cases n) simp_all
next
  case (JBool b)
  then show ?case by (cases n) (simp_all add: FormatBool_def)
next
  case (JNum s)
  then show ?case by (cases n) (simp_all add: read_number del: read_value.simps)
next
  case (JStr s)
  with read_chars_json [of s r] show ?case
    by (cases n) (simp_all add: json_string_def)
next
  case (JArr xs)
  then obtain m where n: "n = Suc m" "sum_list (map (\<lambda>x. 1 + json_need x) xs) \<le> m"
    by (cases n) auto
  show ?case
  proof (cases xs)
    case (Cons x ys)
    let ?items = "json_items (d + 1) (map (json_text (d + 1)) xs) @ json_line d @ CHR '']'' # r"
    obtain c q where first: "json_text (d + 1) x = c # q" "\<not> is_ws c" "c \<noteq> CHR '']''"
      using json_text_first [of x "d + 1"] JArr.prems(1) Cons by auto
    have "map (json_text (d + 1)) xs = (c # q) # map (json_text (d + 1)) ys"
      using first(1) by (simp add: Cons)
    from items_first [OF this first(2)] obtain q' where "skip_ws ?items = c # q'" by blast
    moreover have "read_elems m ?items = Some (map json_valid xs, r)"
      using Cons JArr.prems JArr.IH n by (intro read_elems_items) auto
    moreover have "json_text d (JArr xs) @ r = CHR ''['' # ?items"
      by (simp add: Cons)
    ultimately show ?thesis
      using n first(3) by simp
  qed (use n in simp)
next
  case (JObj kvs)
  then obtain m where n: "n = Suc m" "sum_list (map (\<lambda>kv. 1 + json_need (snd kv)) kvs) \<le> m"
    by (cases n) auto
  let ?item = "\<lambda>kv. json_string (fst kv) @ '': '' @ json_text (d + 1) (snd kv)"
  show ?case
  proof (cases kvs)
    case (Cons x ys)
    let ?items = "json_items (d + 1) (map ?item kvs) @ json_line d @ CHR ''}'' # r"
    have "map ?item kvs = (dquote # json_chars (fst x) @ dquote # '': '' @ json_text (d + 1) (snd x)) # map ?item ys"
      by (simp add: Cons json_string_def)
    from items_first [OF this] obtain q' where "skip_ws ?items = dquote # q'" by fastforce
    moreover have "read_members m ?items = Some (map (\<lambda>kv. (to_valid (fst kv), json_valid (snd kv))) kvs, r)"
    proof (rule read_members_items [OF _ _ n(2)])
      show "kvs \<noteq> []" by (simp add: Cons)
      fix kv n r assume "kv \<in> set kvs" "delim r" "json_need (snd kv) \<le> n"
      with JObj.IH [of kv "snd kv" r n "d + 1"] JObj.prems(1)
      show "read_value n (json_text (d + 1) (snd kv) @ r) = Some (json_valid (snd kv), r)"
        by (auto simp: snds.simps)
    qed
    moreover have "json_text d (JObj kvs) @ r = CHR ''{'' # ?items"
      by (simp add: Cons)
    ultimately show ?thesis
      using n by simp
  qed (use n in simp)
qed

text \<open>The text is long enough to serve as fuel.\<close>

lemma json_items_length: "length (json_items d ts) \<ge> sum_list (map (\<lambda>t. 1 + length t) ts)"
  by (induction d ts rule: json_items.induct) (simp_all add: json_line_def)

lemma json_need_le: "json_ok v \<Longrightarrow> json_need v \<le> length (json_text d v)"
proof (induction v arbitrary: d)
  case (JNum s)
  then show ?case by (cases s) simp_all
next
  case (JArr xs)
  then have "sum_list (map (\<lambda>x. 1 + json_need x) xs) \<le> sum_list (map (\<lambda>x. 1 + length (json_text (d + 1) x)) xs)"
    by (intro sum_list_mono) simp
  also have "\<dots> \<le> length (json_items (d + 1) (map (json_text (d + 1)) xs))"
    using json_items_length [of "map (json_text (d + 1)) xs" "d + 1"] by (simp add: comp_def)
  finally show ?case by simp
next
  case (JObj kvs)
  let ?item = "\<lambda>kv. json_string (fst kv) @ '': '' @ json_text (d + 1) (snd kv)"
  have "sum_list (map (\<lambda>kv. 1 + json_need (snd kv)) kvs) \<le> sum_list (map (\<lambda>kv. 1 + length (?item kv)) kvs)"
  proof (rule sum_list_mono)
    fix kv assume "kv \<in> set kvs"
    with JObj.IH [of kv "snd kv" "d + 1"] JObj.prems show "1 + json_need (snd kv) \<le> 1 + length (?item kv)"
      by (auto simp: snds.simps)
  qed
  also have "\<dots> \<le> length (json_items (d + 1) (map ?item kvs))"
    using json_items_length [of "map ?item kvs" "d + 1"] by (simp add: comp_def)
  finally show ?case by simp
qed (simp_all add: FormatBool_def json_string_def)

lemma json_read_text:
  assumes "json_ok v"
  shows "json_read (json_text d v @ [newline]) = Some (json_valid v)"
proof -
  have "read_value (length (json_text d v @ [newline])) (json_text d v @ [newline]) = Some (json_valid v, [newline])"
    using json_need_le [OF assms, of d] by (intro read_value_text [OF assms]) simp_all
  then show ?thesis
    by (simp add: json_read_def)
qed

declare control_chars [simp del]

end
