(* ===== verification/Mpq_Results.thy ===== *)
theory Mpq_Results
  imports Mpq_Metrics Mpq_Time Mpq_Json "HOL-Library.Monad_Syntax"
begin

text \<open>
  The result of a run as JSON file (\<^verbatim>\<open>WriteJSON\<close>) and on the console (\<^verbatim>\<open>Print\<close>), both of
  \<^verbatim>\<open>internal/metrics/metrics.go\<close>, and a reader of the file.
\<close>

section \<open>Writing\<close>

text \<open>The fields in the order of the structs, under the names of their tags.\<close>

definition path_json :: "PathStats \<Rightarrow> json" where
  "path_json p = JObj
     [(''index'', JNum (Itoa (ps_Index p))),
      (''local_addr'', JStr (ps_LocalAddr p)),
      (''remote_addr'', JStr (ps_RemoteAddr p)),
      (''bytes'', JNum (FormatUint (ps_Bytes p))),
      (''chunks'', JNum (Itoa (ps_Chunks p))),
      (''chunks_corrupted'', JNum (Itoa (ps_ChunksCorrupted p))),
      (''duration_ns'', JNum (Itoa (ps_Duration p))),
      (''congestion_control'', JStr (ps_CC p))]"

text \<open>The slice of paths is only ever appended to: it is nil, written as null, when it is empty.\<close>

definition result_json :: "string \<Rightarrow> RunResult \<Rightarrow> json" where
  "result_json start r = JObj
     [(''role'', JStr (rr_Role r)),
      (''session_id'', JStr (rr_SessionID r)),
      (''total_bytes'', JNum (FormatUint (rr_TotalBytes r))),
      (''chunk_size'', JNum (Itoa (uint (rr_ChunkSize r)))),
      (''scheduler'', JStr (rr_Scheduler r)),
      (''start_time'', JStr start),
      (''duration_ns'', JNum (Itoa (rr_Duration r))),
      (''throughput_mbps'', JNum (json_float (rr_ThroughputMbps r))),
      (''integrity_ok'', JBool (rr_IntegrityOK r)),
      (''paths'', if rr_Paths r = [] then JNull else JArr (map path_json (rr_Paths r)))]"

datatype json_error = CreateFailed io_err | TimeRange | WriteFailed io_err

text \<open>
  The encoder builds the whole text and hands it to the file in one write; an error in it
  leaves the file as created, that is, empty.  \<open>off\<close> is the offset of the local time zone.
\<close>

definition RunResult_WriteJSON ::
  "int \<Rightarrow> RunResult \<Rightarrow> io_err + wstream \<Rightarrow> json_error option \<times> byte list" where
  "RunResult_WriteJSON off r create =
     (case create of
        Inl e \<Rightarrow> (Some (CreateFailed e), [])
      | Inr dev \<Rightarrow>
          (case time_text off (rr_StartTime r) of
             None \<Rightarrow> (Some TimeRange, wout dev)
           | Some start \<Rightarrow>
               (let (e, dev') = stream_write
                      (map byte_of_char (json_text 0 (result_json start r) @ [newline])) dev
                in (map_option WriteFailed e, wout dev'))))"

text \<open>\<^verbatim>\<open>%.2f\<close> of a non-negative value.\<close>

definition FormatFloat2 :: "rat \<Rightarrow> string" where
  "FormatFloat2 x =
     (let q = nat (round_half_even (x * 100))
      in dec_nat (q div 100) @ ''.'' @ [dec_digit (q div 10 mod 10), dec_digit (q mod 10)])"

definition path_line :: "PathStats \<Rightarrow> string" where
  "path_line p =
     ''  path '' @ Itoa (ps_Index p) @ '' ['' @ ps_LocalAddr p @ '' -> '' @ ps_RemoteAddr p @ ''] cc='' @
     ps_CC p @ '': '' @ FormatUint (ps_Bytes p) @ '' bytes, '' @ Itoa (ps_Chunks p) @ '' chunks ('' @
     Itoa (ps_ChunksCorrupted p) @ '' corrupted), '' @ Duration_String (ps_Duration p) @ [newline]"

definition RunResult_Print :: "RunResult \<Rightarrow> string" where
  "RunResult_Print r =
     ''=== '' @ rr_Role r @ '' run '' @ rr_SessionID r @ '' ==='' @ [newline] @
     ''total: '' @ FormatUint (rr_TotalBytes r) @ '' bytes in '' @ Duration_String (rr_Duration r) @ '' ('' @
     FormatFloat2 (rr_ThroughputMbps r) @ '' Mbps), integrity_ok='' @
     (if rr_Role r = ''server'' then FormatBool (rr_IntegrityOK r)
      else ''n/a (authoritative check is server-side)'') @
     '', scheduler='' @ rr_Scheduler r @ [newline] @
     concat (map path_line (rr_Paths r))"

section \<open>Reading\<close>

definition jfield :: "string \<Rightarrow> json \<Rightarrow> json option" where
  "jfield k v = (case v of JObj kvs \<Rightarrow> map_of kvs k | _ \<Rightarrow> None)"

fun jstr :: "json \<Rightarrow> string option" where
  "jstr (JStr s) = Some s"
| "jstr v = None"

fun jnum :: "json \<Rightarrow> string option" where
  "jnum (JNum s) = Some s"
| "jnum v = None"

fun jbool :: "json \<Rightarrow> bool option" where
  "jbool (JBool b) = Some b"
| "jbool v = None"

definition jint :: "json \<Rightarrow> int option" where
  "jint v = map_option Atoi (jnum v)"

definition read_path :: "json \<Rightarrow> PathStats option" where
  "read_path v = do {
     idx \<leftarrow> jfield ''index'' v \<bind> jint;
     la \<leftarrow> jfield ''local_addr'' v \<bind> jstr;
     ra \<leftarrow> jfield ''remote_addr'' v \<bind> jstr;
     bytes \<leftarrow> jfield ''bytes'' v \<bind> jint;
     chunks \<leftarrow> jfield ''chunks'' v \<bind> jint;
     corrupted \<leftarrow> jfield ''chunks_corrupted'' v \<bind> jint;
     duration \<leftarrow> jfield ''duration_ns'' v \<bind> jint;
     cc \<leftarrow> jfield ''congestion_control'' v \<bind> jstr;
     Some \<lparr>ps_Index = idx, ps_LocalAddr = la, ps_RemoteAddr = ra, ps_Bytes = of_int bytes,
           ps_Chunks = chunks, ps_ChunksCorrupted = corrupted, ps_Duration = duration, ps_CC = cc\<rparr>
   }"

definition read_paths :: "json \<Rightarrow> PathStats list option" where
  "read_paths v = (case v of JNull \<Rightarrow> Some [] | JArr xs \<Rightarrow> those (map read_path xs) | _ \<Rightarrow> None)"

definition read_result :: "json \<Rightarrow> RunResult option" where
  "read_result v = do {
     role \<leftarrow> jfield ''role'' v \<bind> jstr;
     sess \<leftarrow> jfield ''session_id'' v \<bind> jstr;
     tot \<leftarrow> jfield ''total_bytes'' v \<bind> jint;
     csz \<leftarrow> jfield ''chunk_size'' v \<bind> jint;
     sched \<leftarrow> jfield ''scheduler'' v \<bind> jstr;
     start \<leftarrow> jfield ''start_time'' v \<bind> jstr;
     duration \<leftarrow> jfield ''duration_ns'' v \<bind> jint;
     mbps \<leftarrow> jfield ''throughput_mbps'' v \<bind> jnum;
     ok \<leftarrow> jfield ''integrity_ok'' v \<bind> jbool;
     paths \<leftarrow> jfield ''paths'' v \<bind> read_paths;
     Some \<lparr>rr_Role = role, rr_SessionID = sess, rr_TotalBytes = of_int tot, rr_ChunkSize = of_int csz,
           rr_Scheduler = sched, rr_StartTime = time_read start, rr_Duration = duration,
           rr_ThroughputMbps = fl (number_value mbps), rr_IntegrityOK = ok, rr_Paths = paths\<rparr>
   }"

text \<open>The same result with every string made valid UTF-8.\<close>

definition valid_path :: "PathStats \<Rightarrow> PathStats" where
  "valid_path p = p\<lparr>ps_LocalAddr := to_valid (ps_LocalAddr p), ps_RemoteAddr := to_valid (ps_RemoteAddr p),
     ps_CC := to_valid (ps_CC p)\<rparr>"

definition valid_result :: "RunResult \<Rightarrow> RunResult" where
  "valid_result r = r\<lparr>rr_Role := to_valid (rr_Role r), rr_SessionID := to_valid (rr_SessionID r),
     rr_Scheduler := to_valid (rr_Scheduler r), rr_Paths := map valid_path (rr_Paths r)\<rparr>"

section \<open>Reading back\<close>

text \<open>ASCII is valid.\<close>

lemma to_valid_ascii: "list_all (\<lambda>c. (of_char c :: nat) < 128) s \<Longrightarrow> to_valid s = s"
proof (induction s rule: to_valid.induct)
  case (2 c cs)
  then have "rune_len (c # cs) = 1"
    by (simp add: utf8_len_def)
  with 2 show ?case by simp
qed simp

lemma number_char_Itoa: "list_all number_char (Itoa n)" "Itoa n \<noteq> []"
  using number_char_dec_nat by (simp_all add: Itoa_def)

lemma number_char_FormatUint: "list_all number_char (FormatUint n)" "FormatUint n \<noteq> []"
  using number_char_dec_nat by (simp_all add: FormatUint_def)

lemma json_ok_result: "json_ok (path_json p)" "json_ok (result_json start r)"
  by (auto simp: path_json_def result_json_def number_char_Itoa number_char_FormatUint json_float_chars)

lemma Atoi_uint: "of_int (Atoi (FormatUint n)) = n" "of_int (Atoi (Itoa (uint m))) = m"
  by simp_all

lemma read_path_json: "read_path (json_valid (path_json p)) = Some (valid_path p)"
  by (simp add: path_json_def read_path_def valid_path_def jfield_def jint_def to_valid_ascii del: to_valid.simps)

lemma read_paths_json:
  "read_paths (json_valid (if ps = [] then JNull else JArr (map path_json ps))) = Some (map valid_path ps)"
proof -
  have "those (map read_path (map json_valid (map path_json ps))) = Some (map valid_path ps)"
    by (induction ps) (simp_all add: read_path_json)
  then show ?thesis
    by (simp add: read_paths_def)
qed

lemma read_result_json:
  assumes "0 \<le> rr_ThroughputMbps r" and "fl (rr_ThroughputMbps r) = rr_ThroughputMbps r"
    and "list_all (\<lambda>c. (of_char c :: nat) < 128) start" and "time_read start = rr_StartTime r"
  shows "read_result (json_valid (result_json start r)) = Some (valid_result r)"
  using read_paths_json [of "rr_Paths r"] assms json_float_read [OF assms(1,2)]
  by (simp add: result_json_def read_result_def valid_result_def jfield_def jint_def to_valid_ascii
      del: to_valid.simps)

text \<open>What \<^verbatim>\<open>Finalize\<close> computes is a float.\<close>

lemma Finalize_throughput:
  assumes "rr_ThroughputMbps r = 0"
  shows "0 \<le> rr_ThroughputMbps (RunResult_Finalize now r)"
    and "fl (rr_ThroughputMbps (RunResult_Finalize now r)) = rr_ThroughputMbps (RunResult_Finalize now r)"
proof -
  have nonneg: "0 \<le> fdiv (fmult (float_of_u64 (rr_TotalBytes r)) 8) (Seconds d) / 1000000" if "0 < d" for d
  proof -
    have "0 \<le> Seconds d"
      using that by (auto simp: Seconds_def fadd_def fdiv_def float_of_int_def signed_divide_int_def
          signed_modulo_int_def intro!: fl_nonneg add_nonneg_nonneg divide_nonneg_nonneg)
    moreover have "0 \<le> float_of_u64 (rr_TotalBytes r)"
      by (simp add: float_of_u64_def fl_nonneg del: of_nat_unat)
    ultimately show ?thesis
      by (auto simp: fdiv_def fmult_def intro!: fl_nonneg divide_nonneg_nonneg mult_nonneg_nonneg)
  qed
  then show "0 \<le> rr_ThroughputMbps (RunResult_Finalize now r)"
    and "fl (rr_ThroughputMbps (RunResult_Finalize now r)) = rr_ThroughputMbps (RunResult_Finalize now r)"
    using assms fl_fl fl_nonneg
    by (auto simp: RunResult_Finalize_def Let_def fdiv_def [of "fdiv _ _"])
qed

lemma digits_ascii: "\<forall>c\<in>set s. is_digit c \<Longrightarrow> list_all (\<lambda>c. (of_char c :: nat) < 128) s"
  by (auto simp: list_all_iff is_digit_def)

lemma time_text_ascii:
  assumes "time_text off t = Some s"
  shows "list_all (\<lambda>c. (of_char c :: nat) < 128) s"
proof -
  have pad: "list_all (\<lambda>c. (of_char c :: nat) < 128) (pad2 n)" for n
  proof -
    have "n div 10 mod 10 < 10" "n mod 10 < 10" by simp_all
    then have "n div 10 mod 10 < 80" "n mod 10 < 80" by linarith+
    then show ?thesis
      by (simp add: pad2_def of_char_dec_digit)
  qed
  have "list_all (\<lambda>c. (of_char c :: nat) < 128) (frac_digits 9 (nat (l mod 1000000000)))" for l :: int
    using frac_digits_read [of "nat (l mod 1000000000)" 9] by (intro digits_ascii) (simp add: nat_less_iff)
  then have "list_all (\<lambda>c. (of_char c :: nat) < 128) (fraction 9 (nat (l mod 1000000000)))" for l :: int
    by (simp add: fraction_def)
  with assms pad show ?thesis
    by (auto simp: time_text_def zone_text_def pad4_def Let_def split: prod.splits if_splits)
qed

lemma json_file_read:
  assumes "rr_ThroughputMbps r0 = 0" and "r = RunResult_Finalize now r0"
    and "\<bar>off\<bar> < 86400" and "60 dvd off"
  shows "if time_text off (rr_StartTime r) = None
    then RunResult_WriteJSON off r (Inr \<lparr>wout = [], wstat = Healthy\<rparr>) = (Some TimeRange, [])
    else \<exists>bytes doc. RunResult_WriteJSON off r (Inr \<lparr>wout = [], wstat = Healthy\<rparr>) = (None, bytes) \<and>
      json_read (map char_of_byte bytes) = Some doc \<and> read_result doc = Some (valid_result r)"
proof (cases "time_text off (rr_StartTime r)")
  case None
  then show ?thesis by (simp add: RunResult_WriteJSON_def)
next
  case (Some start)
  let ?text = "json_text 0 (result_json start r) @ [newline]"
  have "RunResult_WriteJSON off r (Inr \<lparr>wout = [], wstat = Healthy\<rparr>) = (None, map byte_of_char ?text)"
    by (simp add: RunResult_WriteJSON_def Some)
  moreover have "json_read (map char_of_byte (map byte_of_char ?text)) = Some (json_valid (result_json start r))"
    using json_read_text [OF json_ok_result(2)] by (simp add: comp_def)
  moreover have "time_read start = rr_StartTime r"
    using time_read_text [OF Some] assms(3,4) by simp
  then have "read_result (json_valid (result_json start r)) = Some (valid_result r)"
    using Finalize_throughput [OF assms(1), of now] time_text_ascii [OF Some]
    unfolding assms(2) by (intro read_result_json)
  ultimately show ?thesis
    using Some by auto
qed


text \<open>The witness: one path, a name that is not valid UTF-8, a start in winter in Berlin.\<close>

definition sample_result :: RunResult where
  "sample_result = \<lparr>rr_Role = ''server'', rr_SessionID = ''ab'', rr_TotalBytes = 1000, rr_ChunkSize = 10,
     rr_Scheduler = [CHR ''<'', char_of (255 :: nat)], rr_StartTime = 1700000000123456789, rr_Duration = 0,
     rr_ThroughputMbps = 0, rr_IntegrityOK = True,
     rr_Paths = [\<lparr>ps_Index = 0, ps_LocalAddr = ''a'', ps_RemoteAddr = ''b'', ps_Bytes = 1000, ps_Chunks = 100,
       ps_ChunksCorrupted = 0, ps_Duration = 3000000, ps_CC = []\<rparr>]\<rparr>"

lemma sample_time: "time_text 3600 1700000000123456789 \<noteq> None"
proof -
  have "year_yday 738837 = (2023, 317)"
    by (simp add: year_yday_def)
  then show ?thesis
    by (simp add: time_text_def case_prod_unfold) (simp add: Let_def)
qed


end
