(* ===== verification/Mpq_Report.thy ===== *)
theory Mpq_Report
  imports Mpq_EndToEnd Mpq_Results
begin

text \<open>
  The end of the client's \<^verbatim>\<open>main\<close>: the goroutines that sample round-trip times while the
  transfer runs, and the two files that are left when it is over.
\<close>

section \<open>Sampling round-trip times\<close>

text \<open>
  \<^verbatim>\<open>sampleRTT\<close> of one path, over its ticks until the cancellation: for each the clock and the
  latest and smoothed RTT of the connection, in nanoseconds.
\<close>

definition sampleRTT :: "string \<Rightarrow> int \<Rightarrow> int \<Rightarrow> (int \<times> int \<times> int) list \<Rightarrow> RTTSample list" where
  "sampleRTT sess start pathIndex ticks =
     map (\<lambda>(now, latest, smoothed). rtt_sample sess pathIndex now start latest smoothed) ticks"

text \<open>The log all paths share, after the samples \<open>xs\<close> have been added in this order.\<close>

definition rtt_log :: "RTTSample list \<Rightarrow> RTTSample SampleLog" where
  "rtt_log xs = fold SampleLog_Add xs \<lparr>sl_rows = []\<rparr>"

section \<open>Reporting\<close>

text \<open>
  After the drain: in one-shot mode the summary on the console, the JSON file and the results
  file, then the RTT file; \<open>json\<close>, \<open>csv\<close> and \<open>rtt\<close> are what creating them gave, \<open>off\<close> is the
  offset of the local time zone.  An error in one is logged and does not stop the others.
\<close>

definition client_report ::
  "string \<Rightarrow> ControlHeader \<Rightarrow> bool \<Rightarrow> pathConn list \<Rightarrow> int \<Rightarrow> (int \<Rightarrow> string \<times> string) \<Rightarrow> (int \<Rightarrow> int) \<Rightarrow> int \<Rightarrow>
     RTTSample SampleLog \<Rightarrow> int \<Rightarrow> io_err + wstream \<Rightarrow> io_err + wstream \<Rightarrow> io_err + wstream \<Rightarrow>
     (string \<times> (json_error option \<times> byte list) \<times> (io_err option \<times> byte list)) option \<times>
     (io_err option \<times> byte list)" where
  "client_report sess ctrl cont paths start addrs now finish rttLog off json csv rtt =
     (if cont then None
      else (let result = buildResult sess ctrl paths start addrs now finish
            in Some (RunResult_Print result, RunResult_WriteJSON off result json, RunResult_WriteCSV result csv)),
      WriteRTTSamplesCSV (SampleLog_Snapshot rttLog) rtt)"

section \<open>What the files say\<close>

text \<open>Each path's part of a shared log is what this path added, in its order.\<close>

lemma interleave_filter:
  assumes "interleave css ops" and "\<forall>j<length css. \<forall>x\<in>set (css ! j). f x = int j" and "k < length css"
  shows "filter (\<lambda>x. f x = int k) ops = css ! k"
  using assms
proof (induction rule: interleave.induct)
  case (il_nil css)
  then show ?case by (metis filter.simps(1) nth_mem)
next
  case (il_step j css x xs ys)
  have fx: "f x = int j"
    using il_step.hyps(1,2) il_step.prems(1) by (metis list.set_intros(1))
  have "\<forall>i<length (css[j := xs]). \<forall>y\<in>set (css[j := xs] ! i). f y = int i"
    using il_step.hyps(1,2) il_step.prems(1) by (auto simp: nth_list_update)
  with il_step.IH il_step.prems(2) have "filter (\<lambda>x. f x = int k) ys = css[j := xs] ! k"
    by simp
  with fx il_step.hyps(1,2) show ?case
    by (auto simp: nth_list_update)
qed

lemma Finalize_keeps [simp]:
  "rr_Paths (RunResult_Finalize now r) = rr_Paths r" "rr_TotalBytes (RunResult_Finalize now r) = rr_TotalBytes r"
  by (simp_all add: RunResult_Finalize_def Let_def)

lemma paths_wf_index: "paths_wf paths \<Longrightarrow> j < length paths \<Longrightarrow> pc_index (paths ! j) = int j"
  by (metis add_0 diff_zero length_map length_upt nth_map nth_upt paths_wf_def)

lemma rtt_sampled:
  assumes "interleave (map (\<lambda>pc. sampleRTT sess start (pc_index pc) (ticks (pc_index pc))) paths) xs"
    and "paths_wf paths" and "k < length paths"
  shows "filter (\<lambda>s. rs_PathIndex s = int k) xs = sampleRTT sess start (int k) (ticks (int k))"
proof -
  let ?css = "map (\<lambda>pc. sampleRTT sess start (pc_index pc) (ticks (pc_index pc))) paths"
  have idx: "?css ! j = sampleRTT sess start (int j) (ticks (int j))" if "j < length paths" for j
    using paths_wf_index [OF assms(2) that] that by simp
  have "\<forall>j<length ?css. \<forall>x\<in>set (?css ! j). rs_PathIndex x = int j"
  proof (intro allI impI ballI)
    fix j x assume "j < length ?css" and "x \<in> set (?css ! j)"
    then have "x \<in> set (sampleRTT sess start (int j) (ticks (int j)))"
      using idx by simp
    then show "rs_PathIndex x = int j"
      by (auto simp: sampleRTT_def rtt_sample_def)
  qed
  from interleave_filter [OF assms(1) this, of k] assms(3) show ?thesis
    by (simp add: idx del: nth_map)
qed

text \<open>What the counters are when a send loop over fresh paths has ended.\<close>

definition fresh_counters :: "pathConn list \<Rightarrow> bool" where
  "fresh_counters paths \<longleftrightarrow>
     (\<forall>pc\<in>set paths. wstat (pc_stream pc) = Healthy \<and> pc_bytesSent pc = 0 \<and> pc_chunksSent pc = 0)"

lemma sent_counters:
  assumes "paths_wf paths" and "fresh_counters paths"
    and "send_step\<^sup>*\<^sup>* (send_init chunks paths sched pr) st" and "send_final st"
  shows "\<exists>full. map fst full = chunks \<and> assignment_ok (length paths) full \<and>
    length (sd_paths st) = length paths \<and>
    (\<forall>k<length paths. let cs = assigned_to k full; pc = sd_paths st ! k in
       wout (pc_stream pc) = wout (pc_stream (paths ! k)) @ concat (map (\<lambda>c. chunk_bytes (stamp c)) cs) \<and>
       pc_index pc = int k \<and> pc_ccName pc = pc_ccName (paths ! k) \<and>
       pc_bytesSent pc = of_nat (sum_list (map (\<lambda>c. length (c_Data c)) cs)) \<and>
       pc_chunksSent pc = int (length cs))"
proof -
  have healthy: "\<forall>pc\<in>set paths. wstat (pc_stream pc) = Healthy"
    using assms(2) by (simp add: fresh_counters_def)
  obtain full where full: "map fst full = chunks" "assignment_ok (length paths) full"
      "sd_paths st = map (\<lambda>k. send_all (assigned_to k full) (paths ! k)) [0..<length paths]"
    using send_outcome [OF send_inv_reachable [OF assms(3,1)] assms(4)] by blast
  show ?thesis
    using full healthy assms(2) paths_wf_index [OF assms(1)]
    by (intro exI [of _ full]) (simp add: Let_def send_all_healthy fresh_counters_def)
qed


definition sample_ctrl :: ControlHeader where
  "sample_ctrl = \<lparr>ch_SessionID = 171, ch_TotalSize = 2, ch_ChunkSize = 2, ch_NumPaths = 1,
     ch_Scheduler = ''redundant''\<rparr>"


end
