(* ===== verification/Mpq_BurstSpec.thy ===== *)
theory Mpq_BurstSpec
  imports Mpq_Burst
begin

text \<open>
  What the burst tracker promises, said without its state: the statistics of a burst as a
  function of the list of chunks that arrived for it.  The tracker, which keeps running
  totals and a map of sequence numbers seen, computes exactly this function.
\<close>

section \<open>The reference\<close>

text \<open>An arrival counts if it is intact and no intact copy of its chunk came before it.\<close>

definition first_copy :: "arrival list \<Rightarrow> nat \<Rightarrow> bool" where
  "first_copy es i \<longleftrightarrow> \<not> arr_corrupted (es ! i) \<and>
     (\<forall>j<i. arr_corrupted (es ! j) \<or> c_Seq (arr_chunk (es ! j)) \<noteq> c_Seq (arr_chunk (es ! i)))"

definition counted :: "arrival list \<Rightarrow> arrival list" where
  "counted es = map ((!) es) (filter (first_copy es) [0..<length es])"

definition data_bytes :: "arrival list \<Rightarrow> u64" where
  "data_bytes es = sum_list (map (\<lambda>e. len_u64 (c_Data (arr_chunk e))) es)"

definition on_path :: "int \<Rightarrow> arrival list \<Rightarrow> arrival list" where
  "on_path i es = filter (\<lambda>e. arr_path e = i) es"

definition reference_path :: "arrival list \<Rightarrow> int \<Rightarrow> PathBurstStats option" where
  "reference_path es i =
     (if on_path i es = [] then None
      else Some \<lparr>pb_BytesReceived = data_bytes (on_path i (counted es)),
                 pb_Chunks = int (length (on_path i es)),
                 pb_Corrupted = int (length (filter arr_corrupted (on_path i es)))\<rparr>)"

definition reference_stats :: "u64 \<Rightarrow> arrival list \<Rightarrow> BurstStats option" where
  "reference_stats bid es =
     (let b = of_burst bid es in
      if b = [] then None
      else Some \<lparr>st_BurstID = bid, st_BytesExpected = c_BurstBytes (arr_chunk (hd b)),
                 st_BytesReceived = data_bytes (counted b), st_Chunks = int (length b),
                 st_Corrupted = int (length (filter arr_corrupted b)),
                 st_Complete = (data_bytes (counted b) \<ge> c_BurstBytes (arr_chunk (hd b))),
                 st_StartedAt = arr_create (hd b), st_LastActivity = arr_time (last b),
                 st_PerPath = reference_path b\<rparr>)"

section \<open>The reference, one arrival at a time\<close>

definition seen_in :: "arrival list \<Rightarrow> u64 \<Rightarrow> bool" where
  "seen_in es s \<longleftrightarrow> (\<exists>e\<in>set es. \<not> arr_corrupted e \<and> c_Seq (arr_chunk e) = s)"

lemma seen_in_snoc [simp]:
  "seen_in (es @ [e]) s \<longleftrightarrow> seen_in es s \<or> \<not> arr_corrupted e \<and> c_Seq (arr_chunk e) = s"
  by (auto simp: seen_in_def)

lemma seen_in_nth: "seen_in es s \<longleftrightarrow> (\<exists>j<length es. \<not> arr_corrupted (es ! j) \<and> c_Seq (arr_chunk (es ! j)) = s)"
  unfolding seen_in_def by (metis in_set_conv_nth)

lemma first_copy_snoc:
  "i < length es \<Longrightarrow> first_copy (es @ [e]) i = first_copy es i"
  "first_copy (es @ [e]) (length es) \<longleftrightarrow> \<not> arr_corrupted e \<and> \<not> seen_in es (c_Seq (arr_chunk e))"
  by (auto simp: first_copy_def seen_in_nth nth_append)

lemma counted_snoc:
  "counted (es @ [e]) = counted es @
     (if \<not> arr_corrupted e \<and> \<not> seen_in es (c_Seq (arr_chunk e)) then [e] else [])"
proof -
  have "filter (first_copy (es @ [e])) [0..<length es] = filter (first_copy es) [0..<length es]"
    by (rule filter_cong) (simp_all add: first_copy_snoc)
  moreover have "map ((!) (es @ [e])) (filter (first_copy es) [0..<length es])
      = map ((!) es) (filter (first_copy es) [0..<length es])"
    by (rule map_cong) (simp_all add: nth_append)
  ultimately show ?thesis
    by (simp add: counted_def first_copy_snoc)
qed

lemma data_bytes_append [simp]: "data_bytes (xs @ ys) = data_bytes xs + data_bytes ys"
  by (simp add: data_bytes_def)

lemma data_bytes_simps [simp]: "data_bytes [] = 0" "data_bytes [e] = len_u64 (c_Data (arr_chunk e))"
  by (simp_all add: data_bytes_def)

lemma on_path_append [simp]:
  "on_path i (xs @ ys) = on_path i xs @ on_path i ys"
  "on_path i [] = []" "on_path i [e] = (if arr_path e = i then [e] else [])"
  by (simp_all add: on_path_def)

text \<open>The state of the tracker's burst, read off the arrivals.\<close>

lemma reference_path_snoc:
  "reference_path (es @ [e]) =
     (reference_path es)(arr_path e \<mapsto>
        (let p = (case reference_path es (arr_path e) of None \<Rightarrow> zero_path | Some p \<Rightarrow> p) in
         p\<lparr>pb_Chunks := pb_Chunks p + 1,
           pb_Corrupted := pb_Corrupted p + (if arr_corrupted e then 1 else 0),
           pb_BytesReceived := pb_BytesReceived p +
             (if arr_corrupted e \<or> seen_in es (c_Seq (arr_chunk e)) then 0
              else len_u64 (c_Data (arr_chunk e)))\<rparr>))"
proof -
  have none: "on_path i es = [] \<Longrightarrow> on_path i (counted es) = []" for i
    by (auto simp: on_path_def counted_def filter_empty_conv)
  show ?thesis
    by (auto simp: fun_eq_iff reference_path_def counted_snoc Let_def zero_path_def none)
qed

lemma burst_arrivals_reference:
  fixes c :: Chunk and now :: int
  defines "b \<equiv> \<lambda>es. fold burst_arrive es (new_burst c now)"
  shows "b_seen (b es) = seen_in es" and "b_bytesReceived (b es) = data_bytes (counted es)"
    and "b_perPath (b es) = reference_path es" and "b_startedAt (b es) = now"
    and "es \<noteq> [] \<Longrightarrow> b_lastActivity (b es) = arr_time (last es)"
proof -
  have "b_seen (b es) = seen_in es \<and> b_bytesReceived (b es) = data_bytes (counted es) \<and>
      b_perPath (b es) = reference_path es \<and> b_startedAt (b es) = now"
  proof (induction es rule: rev_induct)
    case Nil
    then show ?case
      by (auto simp: b_def fun_eq_iff seen_in_def counted_def reference_path_def new_burst_def)
  next
    case (snoc e es)
    have "b (es @ [e]) = burst_arrive e (b es)"
      by (simp add: b_def)
    with snoc show ?case
      by (auto simp: burst_arrive_def burst_add_perPath reference_path_snoc counted_snoc fun_eq_iff)
  qed
  then show "b_seen (b es) = seen_in es" and "b_bytesReceived (b es) = data_bytes (counted es)"
    and "b_perPath (b es) = reference_path es" and "b_startedAt (b es) = now"
    by blast+
  show "b_lastActivity (b es) = arr_time (last es)" if "es \<noteq> []"
    using that by (induction es rule: rev_induct) (simp_all add: b_def burst_arrive_def)
qed

text \<open>
  C21: the tracker computes the reference.  After any sequence of arrivals for any bursts, with
  corrupted chunks, redundant copies and paths in any mixture, what \<^verbatim>\<open>Stats\<close> reports for a
  burst, per path and in total, is what the definition above computes from the arrivals of
  that burst alone.
\<close>

theorem BurstTracker_computes_reference:
  "BurstTracker_Stats bid (fold arrive es (NewBurstTracker ttl)) = reference_stats bid es"
proof (cases "of_burst bid es")
  case Nil
  then show ?thesis
    by (simp add: BurstTracker_Stats_def arrivals_new NewBurstTracker_def reference_stats_def)
next
  case (Cons e rest)
  define b where "b = of_burst bid es"
  from Cons have b: "b \<noteq> []" "hd b = e"
    by (simp_all add: b_def)
  have "bt_bursts (fold arrive es (NewBurstTracker ttl)) bid =
      Some (fold burst_arrive b (new_burst (arr_chunk (hd b)) (arr_create (hd b))))"
    using arrivals_new [of "NewBurstTracker ttl" bid es] Cons by (simp add: NewBurstTracker_def b_def)
  then show ?thesis
    using b by (simp add: BurstTracker_Stats_def reference_stats_def burst_stats_def b_def [symmetric]
        burst_arrivals_reference)
qed

end
