(* ===== verification/Mpq_ServerSpec.thy ===== *)
theory Mpq_ServerSpec
  imports Mpq_Sessions
begin

text \<open>
  Two promises of the whole server.  It refines a collection of independent sessions: its
  interleaved steps, over a shared registry, are for every session a run of that session
  alone, fed by the connections that named it and by its own background goroutines.  And no
  burst of a continuous session is held back for ever: the sweep reports it.
\<close>

section \<open>Traces of the server\<close>

text \<open>
  A trace entry: the session, the connection that acted (counted from 0 in the order of
  acceptance) or none for a background goroutine, and the operation.
\<close>

type_synonym trace = "(SessionID \<times> nat option \<times> session_op) list"

definition ops_of_session :: "SessionID \<Rightarrow> trace \<Rightarrow> session_op list" where
  "ops_of_session sid tr = map (\<lambda>(i, src, op). op) (filter (\<lambda>(i, src, op). i = sid) tr)"

definition ops_of_conn :: "nat \<Rightarrow> trace \<Rightarrow> session_op list" where
  "ops_of_conn k tr = map (\<lambda>(i, src, op). op) (filter (\<lambda>(i, src, op). src = Some k) tr)"

lemma ops_of_session_snoc [simp]:
  "ops_of_session sid [] = []"
  "ops_of_session sid (tr @ [(i, src, op)]) = ops_of_session sid tr @ (if i = sid then [op] else [])"
  by (simp_all add: ops_of_session_def)

lemma ops_of_conn_snoc [simp]:
  "ops_of_conn k [] = []"
  "ops_of_conn k (tr @ [(i, src, op)]) = ops_of_conn k tr @ (if src = Some k then [op] else [])"
  by (simp_all add: ops_of_conn_def)

text \<open>
  The abstract server: connections, each with the session it named and all its operations,
  and a trace in which every connection has performed a prefix of them, in order, on its own
  session, and every other entry is a background operation.
\<close>

definition trace_of :: "conn_result list \<Rightarrow> trace \<Rightarrow> bool" where
  "trace_of conns tr \<longleftrightarrow>
     (\<forall>res\<in>set conns. \<exists>env stream. handleConn env stream = Some res) \<and>
     (\<forall>k<length conns. \<exists>rest. cr_ops (conns ! k) = ops_of_conn k tr @ rest) \<and>
     (\<forall>(sid, src, op)\<in>set tr. case src of
        Some k \<Rightarrow> k < length conns \<and> cr_session (conns ! k) = sid
      | None \<Rightarrow> background_op op)"

definition refines :: "int \<Rightarrow> server \<Rightarrow> conn_result list \<Rightarrow> trace \<Rightarrow> bool" where
  "refines every r conns tr \<longleftrightarrow> sv_progressEvery r = every \<and> trace_of conns tr \<and>
     length (sv_conns r) = length conns \<and>
     (\<forall>k<length conns. fst (sv_conns r ! k) = cr_session (conns ! k) \<and>
        cr_ops (conns ! k) = ops_of_conn k tr @ snd (sv_conns r ! k)) \<and>
     (\<forall>sid. case sv_sessions r sid of
        None \<Rightarrow> ops_of_session sid tr = [] \<and> sid \<notin> cr_session ` set conns
      | Some s \<Rightarrow> session_run (new_session sid every) (ops_of_session sid tr) s \<and>
                  sid \<in> cr_session ` set conns)"

lemma trace_of_fresh_conn: "trace_of conns tr \<Longrightarrow> ops_of_conn (length conns) tr = []"
  by (fastforce simp: trace_of_def ops_of_conn_def filter_empty_conv)

lemma refines_init: "refines every (newSessionRegistry every) [] []"
  by (simp add: refines_def trace_of_def newSessionRegistry_def)

lemma refines_accept:
  assumes "refines every r conns tr" and "handleConn env stream = Some res"
    and "getOrCreate (cr_session res) r = (s, r1)"
  shows "refines every (r1\<lparr>sv_conns := sv_conns r1 @ [(cr_session res, cr_ops res)]\<rparr>) (conns @ [res]) tr"
proof -
  have tr: "trace_of conns tr" and len: "length (sv_conns r) = length conns"
    and every: "sv_progressEvery r = every"
    using assms(1) by (simp_all add: refines_def)
  have r1: "sv_conns r1 = sv_conns r" "sv_progressEvery r1 = every"
      "sv_sessions r1 = (if sv_sessions r (cr_session res) = None
         then (sv_sessions r)(cr_session res \<mapsto> new_session (cr_session res) every) else sv_sessions r)"
    using assms(3) every by (auto simp: getOrCreate_def Let_def split: option.splits)
  have "trace_of (conns @ [res]) tr"
    using tr assms(2) trace_of_fresh_conn [OF tr]
    by (fastforce simp: trace_of_def nth_append less_Suc_eq split: option.splits)
  moreover have "\<forall>sid. case sv_sessions r1 sid of
        None \<Rightarrow> ops_of_session sid tr = [] \<and> sid \<notin> cr_session ` set (conns @ [res])
      | Some s \<Rightarrow> session_run (new_session sid every) (ops_of_session sid tr) s \<and>
          sid \<in> cr_session ` set (conns @ [res])"
  proof
    fix sid
    have "case sv_sessions r sid of
        None \<Rightarrow> ops_of_session sid tr = [] \<and> sid \<notin> cr_session ` set conns
      | Some s \<Rightarrow> session_run (new_session sid every) (ops_of_session sid tr) s \<and>
          sid \<in> cr_session ` set conns"
      using assms(1) by (simp add: refines_def)
    then show "case sv_sessions r1 sid of
        None \<Rightarrow> ops_of_session sid tr = [] \<and> sid \<notin> cr_session ` set (conns @ [res])
      | Some s \<Rightarrow> session_run (new_session sid every) (ops_of_session sid tr) s \<and>
          sid \<in> cr_session ` set (conns @ [res])"
      by (auto simp: r1(3) intro: sr_nil split: option.splits)
  qed
  ultimately show ?thesis
    using assms(1) len r1 trace_of_fresh_conn [OF tr]
    by (auto simp: refines_def nth_append less_Suc_eq)
qed

lemma trace_of_snoc:
  assumes "trace_of conns tr" and "case src of Some k \<Rightarrow> k < length conns \<and> cr_session (conns ! k) = sid
      | None \<Rightarrow> background_op op"
    and "\<And>k. src = Some k \<Longrightarrow> \<exists>rest. cr_ops (conns ! k) = ops_of_conn k tr @ op # rest"
  shows "trace_of conns (tr @ [(sid, src, op)])"
  using assms by (fastforce simp: trace_of_def)

lemma refines_op:
  assumes "refines every r conns tr" and "sv_sessions r sid = Some s"
    and "op_enabled op s" and "op_exec op s = Inr s'"
  shows "case ((sv_sessions r)(sid \<mapsto> s')) i of
        None \<Rightarrow> ops_of_session i (tr @ [(sid, src, op)]) = [] \<and> i \<notin> cr_session ` set conns
      | Some s \<Rightarrow> session_run (new_session i every) (ops_of_session i (tr @ [(sid, src, op)])) s \<and>
          i \<in> cr_session ` set conns"
proof -
  have "case sv_sessions r i of
        None \<Rightarrow> ops_of_session i tr = [] \<and> i \<notin> cr_session ` set conns
      | Some s \<Rightarrow> session_run (new_session i every) (ops_of_session i tr) s \<and>
          i \<in> cr_session ` set conns"
    using assms(1) by (simp add: refines_def)
  with assms(2-4) show ?thesis
    by (cases "i = sid") (auto intro: sr_op split: option.splits)
qed

lemma refines_conn:
  assumes "refines every r conns tr" and "k < length (sv_conns r)" and "sv_conns r ! k = (sid, op # ops)"
    and "sv_sessions r sid = Some s" and "op_enabled op s" and "op_exec op s = Inr s'"
  shows "refines every (r\<lparr>sv_sessions := (sv_sessions r)(sid \<mapsto> s'), sv_conns := (sv_conns r)[k := (sid, ops)]\<rparr>)
     conns (tr @ [(sid, Some k, op)])"
proof -
  have k: "k < length conns" "cr_session (conns ! k) = sid" "cr_ops (conns ! k) = ops_of_conn k tr @ op # ops"
    using assms(1-3) by (auto simp: refines_def)
  then have "trace_of conns (tr @ [(sid, Some k, op)])"
    using assms(1) by (intro trace_of_snoc) (auto simp: refines_def)
  with assms(1) k refines_op [OF assms(1,4-6), of _ "Some k"] show ?thesis
    by (simp add: refines_def nth_list_update)
qed

lemma refines_background:
  assumes "refines every r conns tr" and "background_op op" and "sv_sessions r sid = Some s"
    and "op_enabled op s" and "op_exec op s = Inr s'"
  shows "refines every (r\<lparr>sv_sessions := (sv_sessions r)(sid \<mapsto> s')\<rparr>) conns (tr @ [(sid, None, op)])"
proof -
  have "trace_of conns (tr @ [(sid, None, op)])"
    using assms(1,2) by (intro trace_of_snoc) (auto simp: refines_def)
  with assms(1) refines_op [OF assms(1,3-5), of _ None] show ?thesis
    by (simp add: refines_def)
qed

lemma server_refines: "server_reachable every r \<Longrightarrow> \<exists>conns tr. refines every r conns tr"
proof (induction rule: server_reachable.induct)
  case rs_init
  show ?case using refines_init by blast
next
  case (rs_step r r')
  then obtain conns tr where ref: "refines every r conns tr" by blast
  from rs_step.hyps(2) show ?case
  proof cases
    case (ss_accept env stream res s r1)
    with refines_accept [OF ref ss_accept(2,3)] show ?thesis by blast
  next
    case (ss_conn k sid op ops s s')
    with refines_conn [OF ref ss_conn(2-6)] show ?thesis by blast
  next
    case (ss_background op sid s s')
    with refines_background [OF ref ss_background(2-5)] show ?thesis by blast
  qed
qed

text \<open>
  C5: the server refines independent sessions.  Whatever connections arrive and however
  handlers and background goroutines interleave, every reachable server has a history of
  accepted connections and a trace in which each handler has performed, in order, a prefix
  of the operations its stream dictates, and in which every session's state is that of a run
  of this session alone, over exactly its own entries of the trace.  No connection that
  named another session takes part in it, and the sessions are those the connections named.
\<close>

theorem server_refines_sessions:
  assumes "server_reachable every r"
  shows "\<exists>conns tr. trace_of conns tr \<and> map fst (sv_conns r) = map cr_session conns \<and>
    (\<forall>k<length conns. cr_ops (conns ! k) = ops_of_conn k tr @ snd (sv_conns r ! k)) \<and>
    (\<forall>sid s. sv_sessions r sid = Some s \<longrightarrow>
       session_run (new_session sid every) (ops_of_session sid tr) s) \<and>
    (\<forall>sid. sv_sessions r sid = None \<longleftrightarrow> sid \<notin> cr_session ` set conns)"
proof -
  obtain conns tr where ref: "refines every r conns tr"
    using server_refines [OF assms] by blast
  have "map fst (sv_conns r) = map cr_session conns"
    by (rule nth_equalityI) (use ref in \<open>auto simp: refines_def\<close>)
  moreover have "sv_sessions r sid = None \<longleftrightarrow> sid \<notin> cr_session ` set conns"
      "sv_sessions r sid = Some s \<longrightarrow> session_run (new_session sid every) (ops_of_session sid tr) s" for sid s
    using ref by (auto simp: refines_def split: option.splits dest: spec [of _ sid])
  ultimately show ?thesis
    using ref by (intro exI [of _ conns] exI [of _ tr]) (simp add: refines_def)
qed

text \<open>For the witnesses: a server that has accepted one connection.\<close>

lemma accepted_one:
  "\<exists>(res :: conn_result) (r :: server). cr_session res = 7 \<and> server_reachable 0 r \<and>
     sv_sessions r = [7 \<mapsto> new_session 7 0] \<and> sv_conns r = [(7, cr_ops res)]"
proof -
  let ?pre = "PreHello \<lparr>ph_SessionID = 7, ph_PathIndex = 1\<rparr>"
  let ?s = "\<lparr>rbuf = preamble_bytes ?pre, rend = EOF\<rparr>"
  let ?env = "\<lparr>ce_local = [], ce_remote = [], ce_wake = ReadyClosed, ce_now = 0, ce_start = 0, ce_end = 0,
      ce_tm = \<lambda>_. (0, 0, 0), ce_ackOk = True\<rparr>"
  have pre: "ReadPreamble ?s = Inr (?pre, \<lparr>rbuf = [], rend = EOF\<rparr>)"
    using preamble_wire.dec_enc_stream [of ?pre ?s "[]"] by simp
  from handleConn_ready [OF pre, of "[]" EOF ?env] obtain res where
    res: "handleConn ?env ?s = Some res" "cr_session res = 7"
    by (auto simp: preamble_session_def)
  let ?r = "(newSessionRegistry 0)\<lparr>sv_sessions := [7 \<mapsto> new_session 7 0]\<rparr>"
  have "getOrCreate (cr_session res) (newSessionRegistry 0) = (new_session 7 0, ?r)"
    by (simp add: getOrCreate_def newSessionRegistry_def Let_def res(2))
  from rs_step [OF rs_init ss_accept [OF res(1) this]] have
    "server_reachable 0 (?r\<lparr>sv_conns := [(7, cr_ops res)]\<rparr>)"
    by (simp add: res(2) newSessionRegistry_def)
  moreover have "sv_sessions (?r\<lparr>sv_conns := [(7, cr_ops res)]\<rparr>) = [7 \<mapsto> new_session 7 0]"
    "sv_conns (?r\<lparr>sv_conns := [(7, cr_ops res)]\<rparr>) = [(7, cr_ops res)]"
    by simp_all
  ultimately show ?thesis
    using res(2) by blast
qed

theorem server_refines_sessions_witness:
  "\<exists>r conns tr. server_reachable 0 r \<and> sv_sessions r 7 = Some (new_session 7 0) \<and>
     trace_of conns tr \<and> map cr_session conns = [7] \<and>
     session_run (new_session 7 0) (ops_of_session 7 tr) (new_session 7 0)"
proof -
  obtain res :: conn_result and r :: server where r: "cr_session res = 7" "server_reachable 0 r"
      "sv_sessions r = [7 \<mapsto> new_session 7 0]" "sv_conns r = [(7, cr_ops res)]"
    using accepted_one by blast
  from server_refines_sessions [OF r(2)] obtain conns tr where
    "trace_of conns tr" "map fst (sv_conns r) = map cr_session conns"
    "\<forall>sid s. sv_sessions r sid = Some s \<longrightarrow> session_run (new_session sid 0) (ops_of_session sid tr) s"
    by blast
  with r show ?thesis
    by (intro exI [of _ r] exI [of _ conns] exI [of _ tr]) simp
qed

section \<open>The types of reachable sessions\<close>

lemma handle_chunk_log:
  assumes "handle_chunk i c t1 t2 t3 s = Inr s'"
  shows "ss_id s' = ss_id s" and "ss_startTime s' = ss_startTime s" and "ss_burstLog s' = ss_burstLog s"
proof -
  have "ss_id s' = ss_id s \<and> ss_startTime s' = ss_startTime s \<and> ss_burstLog s' = ss_burstLog s"
    using assms by (auto simp: handle_chunk_def route_chunk_def log_delivery_def Let_def
        split: option.splits sum.splits if_splits prod.splits)
  then show "ss_id s' = ss_id s" and "ss_startTime s' = ss_startTime s" and "ss_burstLog s' = ss_burstLog s"
    by blast+
qed

lemma shutdownContinuous_id [simp]:
  "ss_id (shutdownContinuous order ps s) = ss_id s"
  "ss_startTime (shutdownContinuous order ps s) = ss_startTime s"
  by (auto simp: shutdownContinuous_def Let_def split: option.splits prod.splits)

lemma op_exec_id: "op_exec op s = Inr s' \<Longrightarrow> ss_id s' = ss_id s"
  by (cases op) (auto simp: session_start_def handle_chunk_log pathDone_def session_wait_def
      session_finalize_def sweep_tick_def Let_def split: if_splits option.splits sum.splits prod.splits)

lemma handle_chunk_every: "handle_chunk i c t1 t2 t3 s = Inr s' \<Longrightarrow> ss_progressEvery s' = ss_progressEvery s"
  by (auto simp: handle_chunk_def route_chunk_def log_delivery_def Let_def
      split: if_splits option.splits sum.splits prod.splits)

lemma op_exec_every: "op_exec op s = Inr s' \<Longrightarrow> ss_progressEvery s' = ss_progressEvery s"
  by (cases op) (auto simp: session_start_def handle_chunk_every pathDone_def session_wait_def shutdownContinuous_def
      session_finalize_def sweep_tick_def recordBursts_def Let_def split: if_splits option.splits sum.splits prod.splits)

lemma session_run_every: "session_run (new_session sid every) ops s \<Longrightarrow> ss_progressEvery s = every"
  by (induction rule: session_run.induct) (auto simp: new_session_def dest: op_exec_every)

lemma session_run_id: "session_run s0 ops s \<Longrightarrow> ss_id s = ss_id s0"
  by (induction rule: session_run.induct) (auto dest: op_exec_id)

lemma Reassembler_Write_length:
  "Reassembler_Write c r = Inr (b, r') \<Longrightarrow> length (r_buf r') = length (r_buf r)"
  by (auto simp: Reassembler_Write_def copy_at_def Let_def split: if_splits)

lemma run_writes_wf:
  "run_writes cs r0 = Inr r \<Longrightarrow> reassembler_wf r0 \<Longrightarrow> reassembler_wf r \<and> length (r_buf r) = length (r_buf r0)"
proof (induction cs arbitrary: r0)
  case (Cons c cs)
  then obtain b r1 where "Reassembler_Write c r0 = Inr (b, r1)" "run_writes cs r1 = Inr r"
    by (auto split: sum.splits)
  with Cons.IH [of r1] Cons.prems(2) Reassembler_Write_wf [of r0 c b r1] Reassembler_Write_length
  show ?case by simp
qed simp

lemma tracker_ttl: "tracker_reachable ttl t \<Longrightarrow> bt_ttl t = ttl"
  by (induction rule: tracker_reachable.induct)
    (auto simp: NewBurstTracker_def BurstTracker_Write_def BurstTracker_Expire_def
      BurstTracker_ExpireAll_def Let_def split: prod.splits)

definition session_typed :: "serverSession \<Rightarrow> bool" where
  "session_typed s \<longleftrightarrow>
     (case ss_ctrl s of
        None \<Rightarrow> \<not> ss_readyClosed s \<and> ss_reassembler s = None \<and> ss_burstTracker s = None \<and>
                ss_progress s = None \<and> ss_pathResults s = [] \<and> ss_results s = []
      | Some ctrl \<Rightarrow> ss_readyClosed s \<and> 0 \<le> ss_wg s \<and>
          ss_wg s + int (length (ss_pathResults s)) = uint (ch_NumPaths ctrl) \<and>
          (if ch_TotalSize ctrl = 0
           then ss_reassembler s = None \<and> ss_progress s = None \<and> ss_results s = [] \<and>
                (\<exists>t. ss_burstTracker s = Some t \<and> bt_ttl t = burstTTL \<and>
                   (\<forall>bid b. bt_bursts t bid = Some b \<longrightarrow> burst_accounted b))
           else ss_burstTracker s = None \<and> ss_progress s \<noteq> None \<and> length (ss_results s) \<le> 1 \<and>
                (\<exists>r. ss_reassembler s = Some r \<and> reassembler_wf r \<and>
                   length (Reassembler_Bytes r) = unat (ch_TotalSize ctrl))))"

lemma session_run_typed:
  assumes "session_run (new_session sid every) ops s"
  shows "session_typed s"
proof -
  from session_run_records [OF assms] have inv: "session_inv s" and rec: "session_records ops s"
    by simp_all
  show ?thesis
  proof (cases "ss_ctrl s")
    case None
    with inv have "ss_wg s + int (length (ss_pathResults s)) = 0" and "0 \<le> ss_wg s"
      by (simp_all add: session_inv_defs)
    then have "length (ss_pathResults s) = 0"
      by linarith
    with None inv show ?thesis
      by (simp add: session_typed_def session_inv_defs)
  next
    case (Some ctrl)
    show ?thesis
    proof (cases "ch_TotalSize ctrl = 0")
      case True
      with Some inv show ?thesis
        by (auto simp: session_typed_def session_inv_defs tracker_ttl intro: tracker_reachable_accounted)
    next
      case False
      then obtain r0 r where "NewReassembler (ch_TotalSize ctrl) (ch_ChunkSize ctrl) = Inr r0"
          "run_writes (good_arrivals ops) r0 = Inr r" "ss_reassembler s = Some r"
        using rec Some by (auto simp: session_records_def)
      with run_writes_wf [of "good_arrivals ops" r0 r] NewReassembler_wf False Some inv show ?thesis
        by (auto simp: session_typed_def session_inv_defs Reassembler_Bytes_def)
    qed
  qed
qed

text \<open>
  C22: the state of a reachable server is well typed.  Every session is registered under its
  own number and is of exactly one of three kinds: not yet started, with nothing allocated;
  one-shot, with a well-formed reassembler of the announced size, a progress printer and at
  most one result; or continuous, with a tracker of the right expiry time all of whose
  bursts add up, and no result.  Its wait group is the number of announced paths that have
  not reported, and never negative.
\<close>

theorem server_state_typed:
  assumes "server_reachable every r" and "sv_sessions r sid = Some s"
  shows "ss_id s = sid \<and> session_typed s"
proof -
  from server_sessions_run [OF assms(1)] assms(2) obtain ops where
    "session_run (new_session sid every) ops s" by blast
  with session_run_typed session_run_id [OF this] show ?thesis
    by (simp add: new_session_def)
qed

theorem server_state_typed_witness:
  "\<exists>r s. server_reachable 0 r \<and> sv_sessions r 7 = Some s \<and> ss_id s = 7 \<and> session_typed s"
proof -
  obtain res :: conn_result and r :: server where r: "cr_session res = 7" "server_reachable 0 r"
      "sv_sessions r = [7 \<mapsto> new_session 7 0]" "sv_conns r = [(7, cr_ops res)]"
    using accepted_one by blast
  then have "sv_sessions r 7 = Some (new_session 7 0)"
    by simp
  with server_state_typed [OF r(2) this] r(2) show ?thesis
    by blast
qed

section \<open>No burst is held back\<close>

definition pending :: "u64 \<Rightarrow> burstState \<Rightarrow> serverSession \<Rightarrow> bool" where
  "pending bid b s \<longleftrightarrow> (\<exists>t. ss_burstTracker s = Some t \<and> bt_bursts t bid = Some b)"

definition burst_log :: "serverSession \<Rightarrow> BurstSample set" where
  "burst_log s = set (SampleLog_Snapshot (ss_burstLog s))"

text \<open>The operations other than chunks of this burst.\<close>

fun leaves_burst :: "u64 \<Rightarrow> session_op \<Rightarrow> bool" where
  "leaves_burst bid (OpChunk i c t1 t2 t3) = (c_BurstID c \<noteq> bid)"
| "leaves_burst bid op = True"

lemma burst_log_recordBursts:
  "burst_log (recordBursts ps st s) = burst_log s \<union> (\<Union>b\<in>set st. set (burst_samples ps s b))"
  by (auto simp: burst_log_def recordBursts_def Let_def Snapshot_fold_Add)

lemma aggregate_recorded:
  "b \<in> set st \<Longrightarrow> burst_aggregate s b \<in> burst_log (recordBursts ps st s)"
  by (force simp: burst_log_recordBursts burst_samples_def)

lemma burst_aggregate_frame:
  "ss_id s' = ss_id s \<Longrightarrow> ss_startTime s' = ss_startTime s \<Longrightarrow> burst_aggregate s' b = burst_aggregate s b"
  by (simp add: burst_aggregate_def)

definition reported :: "u64 \<Rightarrow> burstState \<Rightarrow> serverSession \<Rightarrow> serverSession \<Rightarrow> bool" where
  "reported bid b s s' \<longleftrightarrow>
     burst_aggregate s (burst_stats b bid) \<in> burst_log s' \<and> (\<forall>b'. \<not> pending bid b' s')"

text \<open>
  What every operation but a chunk of the burst does: it keeps the log, starts no burst of
  this number, and keeps the burst pending or reports it; a sweep that is due reports it.
\<close>

definition due_sweep :: "burstState \<Rightarrow> session_op \<Rightarrow> bool" where
  "due_sweep b op = (case op of OpSweep now order ps \<Rightarrow> burstTTL \<le> now - b_lastActivity b | _ \<Rightarrow> False)"

lemma due_sweep_simps [simp]:
  "due_sweep b (OpSweep now order ps) \<longleftrightarrow> burstTTL \<le> now - b_lastActivity b"
  "\<not> due_sweep b (OpStart ctrl now)" "\<not> due_sweep b OpReady" "\<not> due_sweep b (OpChunk i c t1 t2 t3)"
  "\<not> due_sweep b (OpPathDone p)" "\<not> due_sweep b (OpWait now order ps)" "\<not> due_sweep b OpSweepStop"
  "\<not> due_sweep b (OpFlush order ps)"
  by (simp_all add: due_sweep_def)

definition burst_step :: "u64 \<Rightarrow> session_op \<Rightarrow> serverSession \<Rightarrow> serverSession \<Rightarrow> bool" where
  "burst_step bid op s s' \<longleftrightarrow>
     burst_log s \<subseteq> burst_log s' \<and> (\<forall>b. pending bid b s' \<longrightarrow> pending bid b s) \<and>
     (\<forall>b. pending bid b s \<longrightarrow> ss_id s' = ss_id s \<and> ss_startTime s' = ss_startTime s \<and>
        (pending bid b s' \<and> \<not> due_sweep b op \<or> reported bid b s s'))"

lemma pending_frame: "ss_burstTracker s' = ss_burstTracker s \<Longrightarrow> pending bid b s' = pending bid b s"
  by (simp add: pending_def)

lemma burst_step_quiet:
  assumes "\<And>b. pending bid b s' = pending bid b s" and "ss_burstLog s' = ss_burstLog s"
    and "ss_burstTracker s = None \<or> ss_id s' = ss_id s \<and> ss_startTime s' = ss_startTime s"
    and "\<And>b. \<not> due_sweep b op"
  shows "burst_step bid op s s'"
  using assms by (auto simp: burst_step_def burst_log_def pending_def)

lemma flush_step:
  assumes "enumerates_bursts order s" and "\<And>b. \<not> due_sweep b op"
  shows "burst_step bid op s (shutdownContinuous order ps s)"
proof (cases "ss_burstTracker s")
  case None
  then show ?thesis
    by (simp add: burst_step_def pending_def shutdownContinuous_def)
next
  case (Some t)
  let ?s = "s\<lparr>ss_burstTracker := Some (t\<lparr>bt_bursts := Map.empty\<rparr>)\<rparr>"
  have en: "enumerates order (bt_bursts t)"
    using assms(1) Some by (simp add: enumerates_bursts_def)
  obtain s1 where s1: "shutdownContinuous order ps s = recordBursts ps (collect_stats order (bt_bursts t)) s1"
      "ss_burstTracker s1 = Some (t\<lparr>bt_bursts := Map.empty\<rparr>)" "ss_burstLog s1 = ss_burstLog s"
      "ss_id s1 = ss_id s" "ss_startTime s1 = ss_startTime s"
    using Some by (auto simp: shutdownContinuous_def BurstTracker_ExpireAll_def Let_def)
  have "burst_aggregate s (burst_stats b bid) \<in> burst_log (shutdownContinuous order ps s)"
    if "pending bid b s" for b
  proof -
    have "burst_stats b bid \<in> set (collect_stats order (bt_bursts t))"
      using that en Some by (auto simp: pending_def set_collect_stats enumerates_def)
    from aggregate_recorded [OF this, of s1 ps] show ?thesis
      by (simp add: s1 burst_aggregate_frame [of s1 s])
  qed
  then show ?thesis
    using Some by (auto simp: burst_step_def reported_def pending_def s1 burst_log_recordBursts)
      (simp_all add: burst_log_def s1)
qed

lemma sweep_step:
  assumes "enumerates_bursts order s" and "sweep_tick now order ps s = Inr s'"
    and "\<And>t. ss_burstTracker s = Some t \<Longrightarrow> bt_ttl t = burstTTL"
  shows "burst_step bid (OpSweep now order ps) s s'"
proof -
  obtain t where t: "ss_burstTracker s = Some t" "bt_ttl t = burstTTL"
    using assms(2,3) by (auto simp: sweep_tick_def split: option.splits)
  then have en: "enumerates order (bt_bursts t)"
    using assms(1) by (simp add: enumerates_bursts_def)
  let ?out = "fst (BurstTracker_Expire now order t)" and ?t = "snd (BurstTracker_Expire now order t)"
  let ?s1 = "s\<lparr>ss_burstTracker := Some ?t\<rparr>"
  have s': "s' = recordBursts ps ?out ?s1"
    using assms(2) t by (simp add: sweep_tick_def case_prod_beta Let_def)
  have kept: "bt_bursts ?t i = (case bt_bursts t i of None \<Rightarrow> None
      | Some b \<Rightarrow> if burstTTL \<le> now - b_lastActivity b then None else Some b)" for i
    using t(2) by (simp add: Expire_eq [OF en] split: option.split)
  have "burst_aggregate s (burst_stats b bid) \<in> burst_log s'"
    if "pending bid b s" "burstTTL \<le> now - b_lastActivity b" for b
  proof -
    have "burst_stats b bid \<in> set ?out"
      using that t by (auto simp: set_Expire [OF en] pending_def)
    from aggregate_recorded [OF this, of ?s1 ps] show ?thesis
      by (simp add: s' burst_aggregate_frame [of ?s1 s])
  qed
  moreover have "burst_log s \<subseteq> burst_log s'"
    unfolding s' burst_log_recordBursts by (auto simp: burst_log_def)
  moreover have "pending bid b s' \<longleftrightarrow> pending bid b s \<and> \<not> burstTTL \<le> now - b_lastActivity b" for b
    using t(1) by (auto simp: pending_def s' kept split: option.splits if_splits)
  moreover have "pending bid b s \<Longrightarrow> pending bid b' s \<Longrightarrow> b = b'" for b b'
    by (auto simp: pending_def)
  moreover have "ss_id s' = ss_id s" "ss_startTime s' = ss_startTime s"
    by (simp_all add: s')
  ultimately show ?thesis
    unfolding burst_step_def reported_def due_sweep_simps by metis
qed

lemma op_step:
  assumes "session_inv s" and "op_enabled op s" and "op_exec op s = Inr s'" and "leaves_burst bid op"
  shows "burst_step bid op s s'"
proof (cases op)
  case (OpStart ctrl now)
  show ?thesis
  proof (cases "ss_readyClosed s")
    case True
    with OpStart assms(3) show ?thesis
      by (intro burst_step_quiet) (auto simp: session_start_def)
  next
    case False
    then have "ss_burstTracker s = None"
      using assms(1) by (auto simp: session_inv_defs split: option.splits)
    with False OpStart assms(3) show ?thesis
      by (intro burst_step_quiet) (auto simp: session_start_def Let_def pending_def NewBurstTracker_def
          split: if_splits sum.splits)
  qed
next
  case OpReady
  with assms(3) show ?thesis by (intro burst_step_quiet) auto
next
  case (OpChunk i c t1 t2 t3)
  then have ex: "handle_chunk i c t1 t2 t3 s = Inr s'" and c: "c_BurstID c \<noteq> bid"
    using assms(3,4) by simp_all
  have "pending bid b s' = pending bid b s" for b
    using handle_chunk_frame(2) [OF ex] c
    by (auto simp: routed_def pending_def BurstTracker_Write_def Let_def)
  with OpChunk handle_chunk_log [OF ex] show ?thesis
    by (intro burst_step_quiet) auto
next
  case (OpPathDone p)
  with assms(3) show ?thesis
    by (intro burst_step_quiet) (auto simp: pathDone_def Let_def pending_def split: if_splits)
next
  case (OpWait now order ps)
  show ?thesis
  proof (cases "ss_burstTracker s")
    case None
    with OpWait assms(3) show ?thesis
      by (intro burst_step_quiet) (auto simp: session_wait_def session_finalize_def Let_def pending_def
          split: option.splits sum.splits)
  next
    case (Some t)
    let ?s = "s\<lparr>ss_waiting := False\<rparr>"
    have "enumerates_bursts order ?s"
      using OpWait assms(2) by (simp add: enumerates_bursts_def)
    from flush_step [OF this, of op bid ps] OpWait have "burst_step bid op ?s (shutdownContinuous order ps ?s)"
      by simp
    moreover have "s' = shutdownContinuous order ps ?s"
      using OpWait Some assms(3) by (simp add: session_wait_def Let_def)
    ultimately show ?thesis
      by (simp add: burst_step_def reported_def burst_log_def pending_def burst_aggregate_def)
  qed
next
  case (OpSweep now order ps)
  have "bt_ttl t = burstTTL" if "ss_burstTracker s = Some t" for t
    using assms(1) that by (auto simp: session_inv_defs tracker_ttl split: option.splits if_splits)
  with OpSweep assms(2,3) show ?thesis
    by (auto intro: sweep_step)
next
  case OpSweepStop
  with assms(3) show ?thesis by (intro burst_step_quiet) (auto simp: pending_def)
next
  case (OpFlush order ps)
  with assms(2,3) show ?thesis by (auto intro: flush_step)
qed

lemma reported_stays:
  assumes "reported bid b s0 s" and "burst_step bid op s s'"
  shows "reported bid b s0 s'"
  using assms by (auto simp: reported_def burst_step_def)

lemma burst_followed:
  assumes "session_run s ops s'" and "session_inv s" and "pending bid b s" and "list_all (leaves_burst bid) ops"
  shows "reported bid b s s' \<or>
    pending bid b s' \<and> ss_id s' = ss_id s \<and> ss_startTime s' = ss_startTime s \<and> (\<forall>op\<in>set ops. \<not> due_sweep b op)"
  using assms
proof (induction rule: session_run.induct)
  case (sr_op ops s1 op s2)
  have "session_inv s1"
    using session_run_inv [OF sr_op.hyps(1)] sr_op.prems(1) .
  moreover have "leaves_burst bid op"
    using sr_op.prems(3) by simp
  ultimately have step: "burst_step bid op s1 s2"
    using op_step sr_op.hyps(2,3) by blast
  have "reported bid b s s1 \<or> pending bid b s1 \<and> ss_id s1 = ss_id s \<and> ss_startTime s1 = ss_startTime s \<and>
      (\<forall>op\<in>set ops. \<not> due_sweep b op)"
    using sr_op.IH sr_op.prems by simp
  then show ?case
  proof
    assume "reported bid b s s1"
    with reported_stays [OF _ step] show ?thesis by blast
  next
    assume p: "pending bid b s1 \<and> ss_id s1 = ss_id s \<and> ss_startTime s1 = ss_startTime s \<and>
        (\<forall>op\<in>set ops. \<not> due_sweep b op)"
    with step show ?thesis
      by (auto simp: burst_step_def reported_def burst_aggregate_frame [of s1 s])
  qed
qed simp

text \<open>
  C20: no burst is held back for ever.  Take any continuous session that has heard of a burst,
  and let it run on, with chunks of other bursts, flushes, ends of paths and ticks of the sweep
  in any order, but no further chunk of this burst.  By the first sweep that finds it idle for
  the five seconds of \<^verbatim>\<open>burstTTL\<close>, the burst is in the burst log, with the bytes, chunks and
  corruption counted and the verdict they give, and the tracker has let go of it.  A sweep
  can run, without panic, at any time while the sweep loop has not ended.
\<close>

theorem idle_burst_reported:
  assumes "session_run (new_session sid every) ops s" and "ss_burstTracker s = Some t"
    and "bt_bursts t bid = Some b"
    and "session_run s ops' s'" and "list_all (leaves_burst bid) ops'"
    and "OpSweep now order ps \<in> set ops'" and "burstTTL \<le> now - b_lastActivity b"
  shows "burst_aggregate s (burst_stats b bid) \<in> set (SampleLog_Snapshot (ss_burstLog s')) \<and>
    (\<forall>t'. ss_burstTracker s' = Some t' \<longrightarrow> bt_bursts t' bid = None) \<and>
    (\<forall>clock o1. ss_sweeping s \<longrightarrow> enumerates o1 (bt_bursts t) \<longrightarrow>
       op_enabled (OpSweep clock o1 ps) s \<and> (\<exists>s''. op_exec (OpSweep clock o1 ps) s = Inr s''))"
proof -
  have sweep: "\<forall>clock o1. ss_sweeping s \<longrightarrow> enumerates o1 (bt_bursts t) \<longrightarrow>
      op_enabled (OpSweep clock o1 ps) s \<and> (\<exists>s''. op_exec (OpSweep clock o1 ps) s = Inr s'')"
    using assms(2) by (simp add: enumerates_bursts_def sweep_tick_def case_prod_beta Let_def)
  have "session_inv s"
    using session_run_records [OF assms(1)] by simp
  moreover have "pending bid b s"
    using assms(2,3) by (simp add: pending_def)
  ultimately have "reported bid b s s'"
    using burst_followed [OF assms(4) _ _ assms(5)] assms(6,7) by fastforce
  with sweep show ?thesis
    by (auto simp: reported_def burst_log_def pending_def)
qed

theorem idle_burst_reported_witness:
  "\<exists>s s' b. session_run (new_session 5 0) [OpStart \<lparr>ch_SessionID = 5, ch_TotalSize = 0, ch_ChunkSize = 1,
        ch_NumPaths = 1, ch_Scheduler = []\<rparr> 0,
        OpChunk 0 (stamp \<lparr>c_Seq = 0, c_Offset = 0, c_BurstID = 1, c_BurstBytes = 2, c_Checksum = 0,
          c_Data = [9]\<rparr>) 1 1 1] s \<and>
     session_run s [OpSweep 6000000000 [1] (\<lambda>_. [])] s' \<and> pending 1 b s \<and>
     burst_aggregate s (burst_stats b 1) \<in> set (SampleLog_Snapshot (ss_burstLog s'))"
proof -
  let ?h = "\<lparr>ch_SessionID = 5, ch_TotalSize = 0, ch_ChunkSize = 1, ch_NumPaths = 1, ch_Scheduler = []\<rparr>"
  let ?c = "stamp \<lparr>c_Seq = 0, c_Offset = 0, c_BurstID = 1, c_BurstBytes = 2, c_Checksum = 0, c_Data = [9]\<rparr>"
  let ?ps = "\<lambda>_ :: BurstStats. [] :: int list" and ?b = "burst_add ?c False 0 1 (new_burst ?c 1)"
  obtain s1 where s1: "op_exec (OpStart ?h 0) (new_session 5 0) = Inr s1" "ss_sweeping s1"
      "ss_burstTracker s1 = Some (NewBurstTracker burstTTL)" "ss_progress s1 = None"
    by (simp add: session_start_def new_session_def Let_def)
  let ?t = "snd (BurstTracker_Write ?c False 0 1 1 (NewBurstTracker burstTTL))"
  obtain s2 where s2: "op_exec (OpChunk 0 ?c 1 1 1) s1 = Inr s2" "ss_burstTracker s2 = Some ?t" "ss_sweeping s2"
    using s1 by (simp add: handle_chunk_def route_chunk_def log_delivery_def Let_def)
  have run: "session_run (new_session 5 0) (([] @ [OpStart ?h 0]) @ [OpChunk 0 ?c 1 1 1]) s2"
    by (rule sr_op [OF sr_op [OF sr_nil]]) (use s1 s2 in auto)
  have t: "bt_bursts ?t = [1 \<mapsto> ?b]"
    by (simp add: BurstTracker_Write_def NewBurstTracker_def Let_def)
  obtain s3 where s3: "op_exec (OpSweep 6000000000 [1] ?ps) s2 = Inr s3"
    using s2 by (auto simp: sweep_tick_def case_prod_beta Let_def)
  have sweep: "session_run s2 ([] @ [OpSweep 6000000000 [1] ?ps]) s3"
    by (rule sr_op [OF sr_nil]) (use s2 s3 t in \<open>simp_all add: enumerates_bursts_def enumerates_def\<close>)
  have "bt_bursts ?t 1 = Some ?b"
    by (simp add: t)
  from idle_burst_reported [OF run s2(2) this sweep, of 6000000000 "[1]" ?ps] run sweep s2(2) this
  show ?thesis
    by (intro exI [of _ s2] exI [of _ s3] exI [of _ ?b]) (simp add: burstTTL_def pending_def)
qed

end
