(* ===== verification/Mpq_Bursts.thy ===== *)
theory Mpq_Bursts
  imports Mpq_Connect
begin

text \<open>
  The client's continuous mode (\<^verbatim>\<open>runContinuous\<close> in \<^verbatim>\<open>cmd/client/main.go\<close>): numbered bursts of
  random size, each sent with the send loop of the one-shot mode, and what a run of them
  leaves on the paths' streams and in the client's burst log.
\<close>

section \<open>One burst\<close>

record burst_run =
  br_burstID :: u64
  br_paths :: "pathConn list"
  br_sched :: Scheduler
  br_log :: "BurstSample SampleLog"
  br_file :: "BurstSample list option"

text \<open>
  \<^verbatim>\<open>sendBurst\<close>: number the burst, draw its size and data, send its chunks with the send loop
  of the one-shot mode, log what the paths' counters gained, and rewrite the file of all
  bursts so far; \<open>br_file\<close> is what was last handed to \<^verbatim>\<open>WriteBurstSamplesCSV\<close>.  The random
  number \<open>r\<close> is below the bound given to \<^verbatim>\<open>rand.Int63n\<close>, and \<^verbatim>\<open>crypto/rand\<close> fills the whole
  buffer when it reports no error.
\<close>

definition drawn :: "u64 \<Rightarrow> u64 \<Rightarrow> u64 \<Rightarrow> bool" where
  "drawn minSize maxSize r \<longleftrightarrow> (minSize < maxSize \<longrightarrow> r < maxSize - minSize + 1)"

inductive send_burst :: "string \<Rightarrow> u64 \<Rightarrow> u64 \<Rightarrow> u32 \<Rightarrow> burst_run \<Rightarrow> burst_run \<Rightarrow> bool" where
  sb_payload_error: "burst_size minSize maxSize r = Inr sz \<Longrightarrow> drawn minSize maxSize r \<Longrightarrow>
     GenerateRandomPayload rnd sz = Inr (Inl e) \<Longrightarrow>
     send_burst sess minSize maxSize chunkSize b (b\<lparr>br_burstID := br_burstID b + 1\<rparr>)"
| sb_sent: "bid = br_burstID b + 1 \<Longrightarrow> burst_size minSize maxSize r = Inr sz \<Longrightarrow> drawn minSize maxSize r \<Longrightarrow>
     GenerateRandomPayload rnd sz = Inr (Inr data) \<Longrightarrow> length data = unat sz \<Longrightarrow>
     Split data chunkSize bid sz = Some chunks \<Longrightarrow>
     send_step\<^sup>*\<^sup>* (send_init chunks (br_paths b) (br_sched b) None) st \<Longrightarrow> send_final st \<Longrightarrow>
     set order = pc_index ` set (br_paths b) \<Longrightarrow> distinct order \<Longrightarrow>
     rows = burst_log_rows sess bid sz startMs endMs (br_paths b) (sd_paths st) order \<Longrightarrow>
     send_burst sess minSize maxSize chunkSize b
       \<lparr>br_burstID = bid, br_paths = sd_paths st, br_sched = sd_sched st,
        br_log = fold SampleLog_Add rows (br_log b),
        br_file = Some (SampleLog_Snapshot (fold SampleLog_Add rows (br_log b)))\<rparr>"

text \<open>The ways a burst can take the client down before anything is sent.\<close>

inductive burst_panic :: "u64 \<Rightarrow> u64 \<Rightarrow> go_panic \<Rightarrow> bool" where
  bp_size: "burst_size minSize maxSize r = Inl e \<Longrightarrow> burst_panic minSize maxSize e"
| bp_payload: "burst_size minSize maxSize r = Inr sz \<Longrightarrow> drawn minSize maxSize r \<Longrightarrow>
     GenerateRandomPayload rnd sz = Inl e \<Longrightarrow> burst_panic minSize maxSize e"

text \<open>
  \<^verbatim>\<open>runContinuous\<close>: one burst at once, then one per tick, until the duration is over or a
  signal arrives, which may be after any burst; \<open>n\<close> is the number of bursts.  The ticker is
  made after the first burst and panics when its interval is not positive.
\<close>

definition runContinuous ::
  "string \<Rightarrow> u64 \<Rightarrow> u64 \<Rightarrow> u32 \<Rightarrow> int \<Rightarrow> nat \<Rightarrow> burst_run \<Rightarrow> burst_run \<Rightarrow> bool" where
  "runContinuous sess minSize maxSize chunkSize interval n b b' \<longleftrightarrow>
     0 < n \<and> 0 < interval \<and> (send_burst sess minSize maxSize chunkSize ^^ n) b b'"

definition start_continuous :: "pathConn list \<Rightarrow> Scheduler \<Rightarrow> burst_run" where
  "start_continuous paths sched =
     \<lparr>br_burstID = 0, br_paths = paths, br_sched = sched, br_log = \<lparr>sl_rows = []\<rparr>, br_file = None\<rparr>"

section \<open>Sizes\<close>

lemma burst_size_range:
  assumes "burst_size minSize maxSize r = Inr sz" and "drawn minSize maxSize r" and "minSize \<le> maxSize"
  shows "minSize \<le> sz" and "sz \<le> maxSize"
proof -
  have "minSize \<le> sz \<and> sz \<le> maxSize"
  proof (cases "minSize < maxSize")
    case True
    then have sz: "sz = minSize + r" and pos: "0 < sint (maxSize - minSize + 1)"
      using assms(1) by (auto simp: burst_size_def split: if_splits)
    have diff: "unat (maxSize - minSize) = unat maxSize - unat minSize"
      using assms(3) by (simp add: unat_sub_if' word_le_nat_alt)
    have "unat (maxSize - minSize + 1) \<le> unat (maxSize - minSize) + 1"
      by (simp add: unat_word_ariths mod_less_eq_dividend)
    then have "unat r \<le> unat maxSize - unat minSize"
      using assms(2) True diff by (simp add: drawn_def word_less_nat_alt)
    then have "unat (minSize + r) = unat minSize + unat r"
      using assms(3) unsigned_less [of maxSize, where 'a = nat] by (simp add: unat_word_ariths word_le_nat_alt)
    with \<open>unat r \<le> unat maxSize - unat minSize\<close> assms(3) show ?thesis
      by (simp add: sz word_le_nat_alt)
  next
    case False
    with assms(1,3) show ?thesis
      by (auto simp: burst_size_def)
  qed
  then show "minSize \<le> sz" and "sz \<le> maxSize" by simp_all
qed

section \<open>What a run leaves behind\<close>

text \<open>One burst that was sent: its number, its data, its chunks and the paths they went to.\<close>

record sent_burst =
  sb_id :: u64
  sb_data :: "byte list"
  sb_chunks :: "Chunk list"
  sb_full :: assignment

definition sent_ok :: "u32 \<Rightarrow> nat \<Rightarrow> sent_burst \<Rightarrow> bool" where
  "sent_ok chunkSize n s \<longleftrightarrow>
     Split (sb_data s) chunkSize (sb_id s) (len_u64 (sb_data s)) = Some (sb_chunks s) \<and>
     map fst (sb_full s) = sb_chunks s \<and> assignment_ok n (sb_full s) \<and>
     sb_data s \<noteq> [] \<and> length (sb_data s) \<le> max_alloc"

definition wire_of :: "nat \<Rightarrow> sent_burst \<Rightarrow> byte list" where
  "wire_of k s = concat (map (\<lambda>c. chunk_bytes (stamp c)) (assigned_to k (sb_full s)))"

definition aggregates :: "burst_run \<Rightarrow> (u64 \<times> u64) list" where
  "aggregates b = map (\<lambda>r. (bs_BurstID r, bs_BytesExpected r))
     (filter (\<lambda>r. bs_PathIndex r = -1) (SampleLog_Snapshot (br_log b)))"

definition sendable :: "pathConn list \<Rightarrow> bool" where
  "sendable paths \<longleftrightarrow> paths_wf paths \<and> (\<forall>pc\<in>set paths. wstat (pc_stream pc) = Healthy)"

lemma sendable_index: "sendable paths \<Longrightarrow> pc \<in> set paths \<Longrightarrow> 0 \<le> pc_index pc"
proof -
  assume "sendable paths" "pc \<in> set paths"
  then have "pc_index pc \<in> set (map int [0..<length paths])"
    unfolding sendable_def paths_wf_def by (metis image_eqI set_map)
  then show ?thesis by auto
qed

text \<open>The send loop over sendable paths.\<close>

lemma sendable_sent:
  assumes "sendable paths" and "send_step\<^sup>*\<^sup>* (send_init chunks paths sched pr) st" and "send_final st"
  shows "\<exists>full. map fst full = chunks \<and> assignment_ok (length paths) full \<and>
    length (sd_paths st) = length paths \<and> sendable (sd_paths st) \<and>
    (\<forall>k<length paths. wout (pc_stream (sd_paths st ! k)) = wout (pc_stream (paths ! k)) @
       concat (map (\<lambda>c. chunk_bytes (stamp c)) (assigned_to k full)))"
proof -
  have wf: "paths_wf paths" and healthy: "\<And>k. k < length paths \<Longrightarrow> wstat (pc_stream (paths ! k)) = Healthy"
    using assms(1) by (auto simp: sendable_def)
  obtain full where full: "map fst full = chunks" "assignment_ok (length paths) full"
      "sd_paths st = map (\<lambda>k. send_all (assigned_to k full) (paths ! k)) [0..<length paths]"
    using send_outcome [OF send_inv_reachable [OF assms(2) wf] assms(3)] by blast
  have idx: "map pc_index (sd_paths st) = map pc_index paths"
    by (rule nth_equalityI) (simp_all add: full(3) send_all_healthy [OF healthy])
  then have "paths_wf (sd_paths st)"
    using wf unfolding paths_wf_def idx by (auto simp: full(3))
  with full healthy show ?thesis
    by (intro exI [of _ full]) (simp add: sendable_def send_all_healthy)
qed

lemma send_burst_sent:
  assumes "send_burst sess minSize maxSize chunkSize b b'" and "sendable (br_paths b)"
    and "minSize \<noteq> 0" and "minSize \<le> maxSize"
  shows "br_burstID b' = br_burstID b + 1 \<and> sendable (br_paths b') \<and>
    length (br_paths b') = length (br_paths b) \<and>
    (\<exists>sent. (sent = [] \<or> map sb_id sent = [br_burstID b + 1]) \<and>
       list_all (sent_ok chunkSize (length (br_paths b))) sent \<and>
       aggregates b' = aggregates b @ map (\<lambda>s. (sb_id s, len_u64 (sb_data s))) sent \<and>
       (\<forall>k<length (br_paths b). wout (pc_stream (br_paths b' ! k)) =
          wout (pc_stream (br_paths b ! k)) @ concat (map (wire_of k) sent)))"
  using assms(1)
proof cases
  case (sb_payload_error r sz rnd e)
  with assms(2) show ?thesis
    by (simp add: aggregates_def)
next
  case (sb_sent bid r sz rnd data chunks st order rows startMs endMs)
  obtain full where full: "map fst full = chunks" "assignment_ok (length (br_paths b)) full"
      "length (sd_paths st) = length (br_paths b)" "sendable (sd_paths st)"
    and wire: "\<forall>k<length (br_paths b). wout (pc_stream (sd_paths st ! k)) = wout (pc_stream (br_paths b ! k)) @
       concat (map (\<lambda>c. chunk_bytes (stamp c)) (assigned_to k full))"
    using sendable_sent [OF assms(2) sb_sent(8,9)] by blast
  have "sz \<noteq> 0"
    using burst_size_range(1) [OF sb_sent(3,4) assms(4)] assms(3) word_coorder.extremum_uniqueI by fastforce
  then have data: "data \<noteq> []" "len_u64 data = sz" "length data \<le> max_alloc"
    using sb_sent(5,6) by (auto simp: len_u64_def GenerateRandomPayload_def unat_eq_zero split: if_splits)
  have "\<forall>idx\<in>set order. idx \<noteq> -1"
    using sendable_index [OF assms(2)] sb_sent(10) by fastforce
  then have rows: "map (\<lambda>r. (bs_BurstID r, bs_BytesExpected r)) (filter (\<lambda>r. bs_PathIndex r = -1) rows) = [(bid, sz)]"
    unfolding sb_sent(12) burst_log_rows_def
    by (simp add: client_burst_aggregate_def client_burst_path_def Let_def case_prod_beta filter_empty_conv comp_def filter_map)
  let ?s = "\<lparr>sb_id = bid, sb_data = data, sb_chunks = chunks, sb_full = full\<rparr>"
  have "aggregates b' = aggregates b @ map (\<lambda>s. (sb_id s, len_u64 (sb_data s))) [?s]"
    using rows data(2) by (simp add: aggregates_def sb_sent(1) Snapshot_fold_Add)
  moreover have "sent_ok chunkSize (length (br_paths b)) ?s"
    using full data sb_sent(7) by (simp add: sent_ok_def)
  ultimately show ?thesis
    using full wire sb_sent(1,2)
    by (intro conjI exI [of _ "[?s]"]) (simp_all add: wire_of_def)
qed

text \<open>
  A whole run: the bursts that were sent have the numbers of the calls that sent them, in
  order, and each path's stream holds its part of each of them, in order.
\<close>

lemma continuous_sent:
  assumes "(send_burst sess minSize maxSize chunkSize ^^ n) b b'" and "sendable (br_paths b)"
    and "minSize \<noteq> 0" and "minSize \<le> maxSize"
  shows "\<exists>calls sent. sorted_wrt (<) calls \<and> set calls \<subseteq> {1..n} \<and>
    map sb_id sent = map (\<lambda>i. br_burstID b + of_nat i) calls \<and> br_burstID b' = br_burstID b + of_nat n \<and>
    sendable (br_paths b') \<and> length (br_paths b') = length (br_paths b) \<and>
    list_all (sent_ok chunkSize (length (br_paths b))) sent \<and>
    aggregates b' = aggregates b @ map (\<lambda>s. (sb_id s, len_u64 (sb_data s))) sent \<and>
    (\<forall>k<length (br_paths b). wout (pc_stream (br_paths b' ! k)) =
       wout (pc_stream (br_paths b ! k)) @ concat (map (wire_of k) sent))"
  using assms(1)
proof (induction n arbitrary: b')
  case 0
  then have "b' = b" by simp
  with assms(2) show ?case
    by (intro exI [of _ "[]"]) simp
next
  case (Suc n)
  then obtain b1 where b1: "(send_burst sess minSize maxSize chunkSize ^^ n) b b1"
      "send_burst sess minSize maxSize chunkSize b1 b'"
    by auto
  obtain calls sent where IH: "sorted_wrt (<) calls" "set calls \<subseteq> {1..n}"
      "map sb_id sent = map (\<lambda>i. br_burstID b + of_nat i) calls" "br_burstID b1 = br_burstID b + of_nat n"
      "sendable (br_paths b1)" "length (br_paths b1) = length (br_paths b)"
      "list_all (sent_ok chunkSize (length (br_paths b))) sent"
      "aggregates b1 = aggregates b @ map (\<lambda>s. (sb_id s, len_u64 (sb_data s))) sent"
      "\<forall>k<length (br_paths b). wout (pc_stream (br_paths b1 ! k)) =
         wout (pc_stream (br_paths b ! k)) @ concat (map (wire_of k) sent)"
    using Suc.IH [OF b1(1)] by blast
  note step = send_burst_sent [OF b1(2) IH(5) assms(3,4)]
  obtain new where new: "new = [] \<or> map sb_id new = [br_burstID b1 + 1]"
      "list_all (sent_ok chunkSize (length (br_paths b1))) new"
      "aggregates b' = aggregates b1 @ map (\<lambda>s. (sb_id s, len_u64 (sb_data s))) new"
      "\<forall>k<length (br_paths b1). wout (pc_stream (br_paths b' ! k)) =
         wout (pc_stream (br_paths b1 ! k)) @ concat (map (wire_of k) new)"
    using step by (elim conjE exE) (rule that)
  let ?calls = "calls @ (if new = [] then [] else [Suc n])"
  have "\<forall>i\<in>set calls. i < Suc n"
    using IH(2) by auto
  with IH(1) have "sorted_wrt (<) ?calls"
    by (simp add: sorted_wrt_append)
  moreover have "map sb_id (sent @ new) = map (\<lambda>i. br_burstID b + of_nat i) ?calls"
    using IH(3,4) new(1) by (auto simp: ac_simps)
  moreover have "set ?calls \<subseteq> {1..Suc n}"
    using IH(2) by auto
  ultimately show ?case
    using IH new(2-4) step
    by (intro exI [of _ ?calls] exI [of _ "sent @ new"]) (simp add: ac_simps)
qed

end
