(* ===== verification/Mpq_BurstReports.thy ===== *)
theory Mpq_BurstReports
  imports Mpq_ServerSpec
begin

text \<open>
  Which rows a continuous session writes for one burst: none while the tracker holds it, and
  exactly one, with all that arrived, when it lets go, provided the session was patient, that
  is, nothing flushed the burst before its last chunk and no sweep found it idle for the
  whole expiry time.
\<close>

section \<open>Rows and state of one burst\<close>

definition current :: "serverSession \<Rightarrow> u64 \<Rightarrow> burstState option" where
  "current s bid = (case ss_burstTracker s of None \<Rightarrow> None | Some t \<Rightarrow> bt_bursts t bid)"

definition row_of :: "u64 \<Rightarrow> BurstSample \<Rightarrow> bool" where
  "row_of bid r \<longleftrightarrow> bs_BurstID r = bid \<and> bs_PathIndex r = -1"

definition rows_of :: "u64 \<Rightarrow> serverSession \<Rightarrow> BurstSample list" where
  "rows_of bid s = filter (row_of bid) (SampleLog_Snapshot (ss_burstLog s))"

definition paths_nonneg :: "serverSession \<Rightarrow> bool" where
  "paths_nonneg s \<longleftrightarrow> (\<forall>bid b. current s bid = Some b \<longrightarrow> (\<forall>i\<in>dom (b_perPath b). 0 \<le> i))"

fun op_nonneg :: "session_op \<Rightarrow> bool" where
  "op_nonneg (OpChunk i c t1 t2 t3) = (0 \<le> i)"
| "op_nonneg op = True"

text \<open>The operations that make the tracker let go of a burst \<open>b\<close>.\<close>

fun reports_op :: "burstState \<Rightarrow> session_op \<Rightarrow> bool" where
  "reports_op b (OpSweep now order ps) = (burstTTL \<le> now - b_lastActivity b)"
| "reports_op b (OpWait now order ps) = True"
| "reports_op b (OpFlush order ps) = True"
| "reports_op b op = False"

lemma collect_stats_one:
  "distinct order \<Longrightarrow> filter (\<lambda>b. st_BurstID b = bid) (collect_stats order m) =
     (if bid \<in> set order then case m bid of None \<Rightarrow> [] | Some b \<Rightarrow> [burst_stats b bid] else [])"
proof (induction order)
  case (Cons i order)
  have "filter (\<lambda>b. st_BurstID b = bid) (collect_stats order m) = []" if "bid \<notin> set order"
    using that Cons by simp
  with Cons show ?case
    by (auto split: option.split)
qed simp

lemma rows_recordBursts:
  assumes "\<forall>b\<in>set stats. \<forall>i\<in>dom (st_PerPath b). 0 \<le> i"
  shows "rows_of bid (recordBursts ps stats s) =
    rows_of bid s @ map (burst_aggregate s) (filter (\<lambda>b. st_BurstID b = bid) stats)"
proof -
  have one: "filter (row_of bid) (burst_samples ps s b)
      = (if st_BurstID b = bid then [burst_aggregate s b] else [])" if "b \<in> set stats" for b
  proof -
    have "filter (row_of bid)
        (List.map_filter (\<lambda>idx. map_option (burst_of_path s b idx) (st_PerPath b idx)) (ps b)) = []"
      using assms that by (force simp: filter_empty_conv map_filter_def row_of_def burst_of_path_def)
    then show ?thesis
      by (simp add: burst_samples_def row_of_def burst_aggregate_def)
  qed
  have "filter (row_of bid) (concat (map (burst_samples ps s) stats))
      = map (burst_aggregate s) (filter (\<lambda>b. st_BurstID b = bid) stats)"
    using one by (induction stats) auto
  then show ?thesis
    by (simp add: rows_of_def recordBursts_def Let_def Snapshot_fold_Add)
qed

text \<open>One operation other than a chunk of the burst keeps it, or lets go of it with a row.\<close>

definition row_step :: "u64 \<Rightarrow> session_op \<Rightarrow> serverSession \<Rightarrow> serverSession \<Rightarrow> bool" where
  "row_step bid op s s' \<longleftrightarrow>
     current s' bid = current s bid \<and> rows_of bid s' = rows_of bid s \<or>
     (\<exists>b. current s bid = Some b \<and> current s' bid = None \<and> reports_op b op \<and>
        rows_of bid s' = rows_of bid s @ [burst_aggregate s (burst_stats b bid)])"

lemma row_step_quiet:
  "ss_burstTracker s' = ss_burstTracker s \<Longrightarrow> ss_burstLog s' = ss_burstLog s \<Longrightarrow> row_step bid op s s'"
  by (simp add: row_step_def current_def rows_of_def)

lemma stats_nonneg:
  "paths_nonneg s \<Longrightarrow> ss_burstTracker s = Some t \<Longrightarrow> b \<in> set (collect_stats order (bt_bursts t)) \<Longrightarrow>
     \<forall>i\<in>dom (st_PerPath b). 0 \<le> i"
  by (force simp: paths_nonneg_def current_def set_collect_stats burst_stats_def)

lemma flush_row_step:
  assumes "paths_nonneg s" and "enumerates_bursts order s" and "\<And>b. reports_op b op"
  shows "row_step bid op s (shutdownContinuous order ps s)"
proof (cases "ss_burstTracker s")
  case None
  then show ?thesis
    by (intro row_step_quiet) (simp_all add: shutdownContinuous_def)
next
  case (Some t)
  obtain s1 where s1: "shutdownContinuous order ps s = recordBursts ps (collect_stats order (bt_bursts t)) s1"
      "ss_burstTracker s1 = Some (t\<lparr>bt_bursts := Map.empty\<rparr>)" "ss_burstLog s1 = ss_burstLog s"
      "ss_id s1 = ss_id s" "ss_startTime s1 = ss_startTime s"
    using Some by (auto simp: shutdownContinuous_def BurstTracker_ExpireAll_def Let_def)
  have "distinct order" "set order = dom (bt_bursts t)"
    using assms(2) Some by (auto simp: enumerates_bursts_def enumerates_def)
  then have "rows_of bid (shutdownContinuous order ps s) = rows_of bid s @
      (case bt_bursts t bid of None \<Rightarrow> [] | Some b \<Rightarrow> [burst_aggregate s (burst_stats b bid)])"
    unfolding s1(1) using stats_nonneg [OF assms(1) Some]
    by (subst rows_recordBursts)
      (auto simp: collect_stats_one rows_of_def s1 burst_aggregate_frame [of s1 s] split: option.split)
  then show ?thesis
    using Some assms(3)
    by (auto simp: row_step_def current_def s1(2) BurstTracker_ExpireAll_def split: option.splits)
qed

lemma sweep_row_step:
  assumes "paths_nonneg s" and "enumerates_bursts order s" and "sweep_tick now order ps s = Inr s'"
    and "\<And>t. ss_burstTracker s = Some t \<Longrightarrow> bt_ttl t = burstTTL"
  shows "row_step bid (OpSweep now order ps) s s'"
proof -
  obtain t where t: "ss_burstTracker s = Some t" "bt_ttl t = burstTTL"
    using assms(3,4) by (auto simp: sweep_tick_def split: option.splits)
  then have en: "enumerates order (bt_bursts t)"
    using assms(2) by (simp add: enumerates_bursts_def)
  let ?due = "filter (\<lambda>i. burstTTL \<le> now - b_lastActivity (the (bt_bursts t i))) order"
  let ?t = "snd (BurstTracker_Expire now order t)"
  let ?s1 = "s\<lparr>ss_burstTracker := Some ?t\<rparr>"
  have s': "s' = recordBursts ps (collect_stats ?due (bt_bursts t)) ?s1"
    using assms(3) t by (simp add: sweep_tick_def case_prod_beta Let_def Expire_eq [OF en])
  have "distinct ?due" "set order = dom (bt_bursts t)"
    using en by (auto simp: enumerates_def)
  then have "rows_of bid s' = rows_of bid s @
      (case bt_bursts t bid of None \<Rightarrow> [] | Some b \<Rightarrow>
         if burstTTL \<le> now - b_lastActivity b then [burst_aggregate s (burst_stats b bid)] else [])"
    unfolding s' using stats_nonneg [OF assms(1) t(1)]
    by (subst rows_recordBursts)
      (auto simp: collect_stats_one rows_of_def burst_aggregate_frame [of ?s1 s] split: option.split)
  moreover have "current s' bid = (case bt_bursts t bid of None \<Rightarrow> None
      | Some b \<Rightarrow> if burstTTL \<le> now - b_lastActivity b then None else Some b)"
    using t(2) by (simp add: s' current_def Expire_eq [OF en] split: option.split)
  ultimately show ?thesis
    using t(1) by (auto simp: row_step_def current_def split: option.splits if_splits)
qed

lemma chunk_row_step:
  assumes "handle_chunk i c t1 t2 t3 s = Inr s'" and "ss_burstTracker s \<noteq> None"
  shows "rows_of bid s' = rows_of bid s"
    and "current s' bid = (if c_BurstID c = bid
       then Some (burst_arrive (c, \<not> VerifyChecksum c, i, t1, t2)
              (case current s bid of None \<Rightarrow> new_burst c t1 | Some b \<Rightarrow> b))
       else current s bid)"
  using assms handle_chunk_frame(2) [OF assms(1)] handle_chunk_log(3) [OF assms(1)]
  by (auto simp: rows_of_def current_def routed_def BurstTracker_Write_def burst_arrive_def Let_def)

lemma op_row_step:
  assumes inv: "session_inv s" "paths_nonneg s" "ss_burstTracker s \<noteq> None"
    and op: "op_enabled op s" "op_exec op s = Inr s'" "leaves_burst bid op"
  shows "row_step bid op s s'"
proof (cases op)
  case (OpStart ctrl now)
  then have "s' = s"
    using inv(1,3) op(2) by (auto simp: session_inv_defs session_start_def split: option.splits)
  then show ?thesis by (simp add: row_step_quiet)
next
  case (OpChunk i c t1 t2 t3)
  with op(2,3) inv(3) chunk_row_step [of i c t1 t2 t3 s s' bid] show ?thesis
    by (simp add: row_step_def)
next
  case (OpPathDone p)
  with op(2) show ?thesis
    by (intro row_step_quiet) (auto simp: pathDone_def Let_def split: if_splits)
next
  case (OpWait now order ps)
  let ?s = "s\<lparr>ss_waiting := False\<rparr>"
  have "paths_nonneg ?s" "enumerates_bursts order ?s"
    using OpWait inv(2) op(1) by (simp_all add: paths_nonneg_def current_def enumerates_bursts_def)
  then have "row_step bid op ?s (shutdownContinuous order ps ?s)"
    using OpWait by (intro flush_row_step) simp_all
  moreover have "s' = shutdownContinuous order ps ?s"
    using OpWait op(2) inv(3) by (auto simp: session_wait_def Let_def)
  moreover have "current ?s bid = current s bid" "rows_of bid ?s = rows_of bid s"
      "burst_aggregate ?s = burst_aggregate s"
    by (simp_all add: current_def rows_of_def fun_eq_iff burst_aggregate_def)
  ultimately show ?thesis
    by (simp only: row_step_def)
next
  case (OpSweep now order ps)
  have "bt_ttl t = burstTTL" if "ss_burstTracker s = Some t" for t
    using inv(1) that by (auto simp: session_inv_defs tracker_ttl split: option.splits if_splits)
  with OpSweep op(1,2) inv(2) show ?thesis
    by (auto intro: sweep_row_step)
next
  case (OpFlush order ps)
  with op(1,2) inv(2) show ?thesis
    by (auto intro: flush_row_step)
qed (use op(2) in \<open>auto intro: row_step_quiet\<close>)

lemma op_keeps:
  assumes inv: "session_inv s" "ss_burstTracker s \<noteq> None"
    and op: "op_enabled op s" "op_exec op s = Inr s'"
  shows "ss_burstTracker s' \<noteq> None" and "ss_id s' = ss_id s" and "ss_startTime s' = ss_startTime s"
proof -
  have "ss_burstTracker s' \<noteq> None \<and> ss_id s' = ss_id s \<and> ss_startTime s' = ss_startTime s"
  proof (cases op)
    case (OpStart ctrl now)
    with inv op(2) show ?thesis
      by (auto simp: session_inv_defs session_start_def split: option.splits)
  next
    case (OpChunk i c t1 t2 t3)
    with op(2) inv(2) handle_chunk_frame(2) [of i c t1 t2 t3 s s'] handle_chunk_log [of i c t1 t2 t3 s s']
    show ?thesis by (auto simp: routed_def)
  next
    case (OpWait now order ps)
    with op(2) inv(2) show ?thesis by (auto simp: session_wait_def Let_def)
  next
    case (OpSweep now order ps)
    with op(2) show ?thesis by (auto simp: sweep_tick_def Let_def split: option.splits prod.splits)
  qed (use op(2) inv(2) in \<open>auto simp: pathDone_def Let_def split: if_splits\<close>)
  then show "ss_burstTracker s' \<noteq> None" and "ss_id s' = ss_id s" and "ss_startTime s' = ss_startTime s"
    by blast+
qed

lemma op_paths_nonneg:
  assumes inv: "session_inv s" "paths_nonneg s" "ss_burstTracker s \<noteq> None"
    and op: "op_enabled op s" "op_exec op s = Inr s'" "op_nonneg op"
  shows "paths_nonneg s'"
  unfolding paths_nonneg_def
proof (intro allI impI ballI)
  fix bid b i assume b: "current s' bid = Some b" and i: "i \<in> dom (b_perPath b)"
  show "0 \<le> i"
  proof (cases "leaves_burst bid op")
    case True
    have "current s bid = Some b"
      using op_row_step [OF inv op(1,2) True] b by (auto simp: row_step_def)
    with inv(2) i show ?thesis by (auto simp: paths_nonneg_def)
  next
    case False
    then obtain j c t1 t2 t3 where c: "op = OpChunk j c t1 t2 t3" "c_BurstID c = bid"
      by (cases op) auto
    then have "0 \<le> j" and old: "\<And>b0. current s bid = Some b0 \<Longrightarrow> \<forall>i\<in>dom (b_perPath b0). 0 \<le> i"
      using op(3) inv(2) by (auto simp: paths_nonneg_def)
    have "b = burst_arrive (c, \<not> VerifyChecksum c, j, t1, t2)
              (case current s bid of None \<Rightarrow> new_burst c t1 | Some b \<Rightarrow> b)"
      using chunk_row_step(2) [of j c t1 t2 t3 s s' bid] op(2) inv(3) b c by simp
    with i \<open>0 \<le> j\<close> old show ?thesis
      by (auto simp: burst_arrive_def burst_add_perPath Let_def split: option.splits if_splits)
  qed
qed

section \<open>Runs\<close>

definition tracking :: "serverSession \<Rightarrow> bool" where
  "tracking s \<longleftrightarrow> session_inv s \<and> paths_nonneg s \<and> ss_burstTracker s \<noteq> None"

lemma tracking_op:
  "tracking s \<Longrightarrow> op_enabled op s \<Longrightarrow> op_exec op s = Inr s' \<Longrightarrow> op_nonneg op \<Longrightarrow>
     tracking s' \<and> ss_id s' = ss_id s \<and> ss_startTime s' = ss_startTime s"
  unfolding tracking_def using session_inv_op op_paths_nonneg op_keeps by blast

lemma session_run_ConsD:
  "session_run s0 (op # ops) s \<Longrightarrow> \<exists>s1. op_enabled op s0 \<and> op_exec op s0 = Inr s1 \<and> session_run s1 ops s"
proof (induction "op # ops" s arbitrary: ops rule: session_run.induct)
  case (sr_op ops' s op' s')
  show ?case
  proof (cases ops')
    case Nil
    with sr_op have "s = s0" "op' = op" "ops = []"
      by (auto elim: session_run.cases)
    with sr_op.hyps(3,4) show ?thesis by (blast intro: sr_nil)
  next
    case (Cons x xs)
    with sr_op.hyps(5) have "op' # [] = [op']" "ops' = op # xs" "ops = xs @ [op']" by auto
    with sr_op.hyps(2) [of xs] sr_op.hyps(3,4) show ?thesis
      by (blast intro: session_run.sr_op)
  qed
qed

text \<open>
  After the last chunk of a burst: the tracker holds it until it lets go, writing its row.
\<close>

lemma burst_settles:
  assumes "session_run s ops s'" and "tracking s" and "list_all op_nonneg ops"
    and "list_all (leaves_burst bid) ops"
  shows "tracking s' \<and> ss_id s' = ss_id s \<and> ss_startTime s' = ss_startTime s \<and>
    (current s' bid = current s bid \<and> rows_of bid s' = rows_of bid s \<or>
     (\<exists>b. current s bid = Some b \<and> current s' bid = None \<and>
        rows_of bid s' = rows_of bid s @ [burst_aggregate s (burst_stats b bid)]))"
  using assms
proof (induction rule: session_run.induct)
  case (sr_op ops s1 op s2)
  from sr_op.prems have IH: "tracking s1" "ss_id s1 = ss_id s" "ss_startTime s1 = ss_startTime s"
      "current s1 bid = current s bid \<and> rows_of bid s1 = rows_of bid s \<or>
       (\<exists>b. current s bid = Some b \<and> current s1 bid = None \<and>
          rows_of bid s1 = rows_of bid s @ [burst_aggregate s (burst_stats b bid)])"
    using sr_op.IH by auto
  have step: "row_step bid op s1 s2"
    using IH(1) sr_op.hyps(2,3) sr_op.prems(3) by (auto simp: tracking_def intro: op_row_step)
  have "tracking s2 \<and> ss_id s2 = ss_id s1 \<and> ss_startTime s2 = ss_startTime s1"
    using tracking_op [OF IH(1) sr_op.hyps(2,3)] sr_op.prems(2) by simp
  with IH step show ?case
    unfolding row_step_def by (elim disjE exE conjE) (simp_all add: burst_aggregate_frame [of s1 s])
qed simp

text \<open>The arrivals of a sequence of operations, and what they make of a burst.\<close>

definition arrivals :: "session_op list \<Rightarrow> arrival list" where
  "arrivals ops = List.map_filter (\<lambda>op. case op of
     OpChunk i c t1 t2 t3 \<Rightarrow> Some (c, \<not> VerifyChecksum c, i, t1, t2) | _ \<Rightarrow> None) ops"

lemma arrivals_simps [simp]:
  "arrivals [] = []"
  "arrivals (op # ops) = (case op of OpChunk i c t1 t2 t3 \<Rightarrow> [(c, \<not> VerifyChecksum c, i, t1, t2)] | _ \<Rightarrow> [])
     @ arrivals ops"
  by (auto simp: arrivals_def map_filter_def split: session_op.splits)

lemma set_arrivals:
  "set (arrivals ops) = {(c, \<not> VerifyChecksum c, i, t1, t2) | i c t1 t2 t3. OpChunk i c t1 t2 t3 \<in> set ops}"
  by (induction ops) (auto split: session_op.splits)

definition burst_after :: "arrival list \<Rightarrow> burstState option" where
  "burst_after es = (case es of [] \<Rightarrow> None
     | e # rest \<Rightarrow> Some (fold burst_arrive es (new_burst (arr_chunk e) (arr_create e))))"

lemma burst_after_snoc:
  "burst_after (es @ [e]) =
     Some (burst_arrive e (case burst_after es of None \<Rightarrow> new_burst (arr_chunk e) (arr_create e) | Some b \<Rightarrow> b))"
  by (cases es) (simp_all add: burst_after_def)

text \<open>
  A patient session: until the last chunk of the burst, nothing flushes it and no sweep finds
  it idle for the expiry time; \<open>heard\<close> is when it was last heard of.
\<close>

fun patient :: "u64 \<Rightarrow> int option \<Rightarrow> session_op list \<Rightarrow> bool" where
  "patient bid heard [] = True"
| "patient bid heard (op # ops) =
     (list_all (leaves_burst bid) (op # ops) \<or>
      (case op of
         OpChunk i c t1 t2 t3 \<Rightarrow> patient bid (if c_BurstID c = bid then Some t2 else heard) ops
       | OpSweep now order ps \<Rightarrow>
           (case heard of None \<Rightarrow> True | Some t \<Rightarrow> now - t < burstTTL) \<and> patient bid heard ops
       | OpWait now order ps \<Rightarrow> heard = None \<and> patient bid heard ops
       | OpFlush order ps \<Rightarrow> heard = None \<and> patient bid heard ops
       | _ \<Rightarrow> patient bid heard ops))"

definition last_heard :: "arrival list \<Rightarrow> int option" where
  "last_heard es = (if es = [] then None else Some (arr_time (last es)))"

lemma burst_after_lastActivity:
  "burst_after es = Some b \<Longrightarrow> last_heard es = Some (b_lastActivity b)"
proof (cases es rule: rev_cases)
  case (snoc xs e)
  moreover assume "burst_after es = Some b"
  ultimately show ?thesis
    by (auto simp: burst_after_snoc last_heard_def burst_arrive_def)
qed (simp add: burst_after_def)

text \<open>The report of a burst of which \<open>es\<close> arrived: still held, or written once.\<close>

definition settled :: "u64 \<Rightarrow> arrival list \<Rightarrow> serverSession \<Rightarrow> bool" where
  "settled bid es s \<longleftrightarrow>
     current s bid = burst_after es \<and> rows_of bid s = [] \<or>
     (\<exists>b. burst_after es = Some b \<and> current s bid = None \<and>
        rows_of bid s = [burst_aggregate s (burst_stats b bid)])"

lemma burst_reported_once:
  assumes "session_run s ops s'" and "tracking s" and "list_all op_nonneg ops"
    and "patient bid (last_heard es) ops" and "current s bid = burst_after es" and "rows_of bid s = []"
  shows "settled bid (es @ of_burst bid (arrivals ops)) s'"
  using assms
proof (induction ops arbitrary: s es)
  case Nil
  then have "s' = s" by (auto elim: session_run.cases)
  with Nil.prems show ?case by (simp add: settled_def)
next
  case (Cons op ops)
  show ?case
  proof (cases "list_all (leaves_burst bid) (op # ops)")
    case True
    then have "of_burst bid (arrivals (op # ops)) = []"
      by (auto simp: of_burst_def filter_empty_conv set_arrivals list_all_iff)
    with burst_settles [OF Cons.prems(1-3) True] Cons.prems(5,6) show ?thesis
      by (auto simp: settled_def burst_aggregate_frame [of s' s])
  next
    case False
    obtain s1 where s1: "op_enabled op s" "op_exec op s = Inr s1" "session_run s1 ops s'"
      using session_run_ConsD [OF Cons.prems(1)] by blast
    have t: "tracking s1"
      using tracking_op [OF Cons.prems(2) s1(1,2)] Cons.prems(3) by simp
    have nn: "list_all op_nonneg ops" using Cons.prems(3) by simp
    have tr: "ss_burstTracker s \<noteq> None" using Cons.prems(2) by (simp add: tracking_def)
    show ?thesis
    proof (cases "leaves_burst bid op")
      case True
      have "row_step bid op s s1"
        using Cons.prems(2) s1(1,2) True by (auto simp: tracking_def intro: op_row_step)
      moreover have "\<not> reports_op b op" if "current s bid = Some b" for b
        using that Cons.prems(4,5) False burst_after_lastActivity [of es b] by (cases op) auto
      ultimately have "current s1 bid = burst_after es" "rows_of bid s1 = []"
        using Cons.prems(5,6) by (auto simp: row_step_def)
      moreover have "patient bid (last_heard es) ops"
        using Cons.prems(4) False True by (cases op) auto
      moreover have "of_burst bid (arrivals (op # ops)) = of_burst bid (arrivals ops)"
        using True by (cases op) (auto simp: of_burst_def)
      ultimately show ?thesis
        using Cons.IH [OF s1(3) t nn] by simp
    next
      case other: False
      then obtain i c t1 t2 t3 where c: "op = OpChunk i c t1 t2 t3" "c_BurstID c = bid"
        by (cases op) auto
      let ?e = "(c, \<not> VerifyChecksum c, i, t1, t2) :: arrival"
      have ex: "handle_chunk i c t1 t2 t3 s = Inr s1"
        using s1(2) c(1) by simp
      have "current s1 bid = burst_after (es @ [?e])" "rows_of bid s1 = []"
        using chunk_row_step [OF ex tr, of bid] c(2) Cons.prems(5,6)
        by (cases "burst_after es"; simp add: burst_after_snoc)+
      moreover have "patient bid (last_heard (es @ [?e])) ops"
        using Cons.prems(4) False c by (simp add: last_heard_def)
      ultimately show ?thesis
        using Cons.IH [OF s1(3) t nn, of "es @ [?e]"] c by simp
    qed
  qed
qed

end
