(* ===== verification/Mpq_Continuous.thy ===== *)
theory Mpq_Continuous
  imports Mpq_Transfer Mpq_Bursts Mpq_BurstReports
begin

text \<open>
  A whole continuous run: the client's bursts, on all paths, through the connection handlers
  and the burst tracker to the rows of the server's burst file.
\<close>

section \<open>The bursts on the wire\<close>

lemma burst_chunk_fits:
  assumes "sent_ok chunkSize n s" and "c \<in> set (sb_chunks s)"
  shows "chunk_ok (stamp c)" and "c_BurstID (stamp c) = sb_id s"
proof -
  have split: "Split (sb_data s) chunkSize (sb_id s) (len_u64 (sb_data s)) = Some (sb_chunks s)"
    and "sb_data s \<noteq> []"
    using assms(1) by (auto simp: sent_ok_def)
  then show "chunk_ok (stamp c)"
    using chunks_fit assms(2) by blast
  have "effective_chunk_size (sb_data s) chunkSize \<noteq> 0"
    using split \<open>sb_data s \<noteq> []\<close> Split_None_iff [of "sb_data s" chunkSize "sb_id s"] by auto
  then have "sb_chunks s = split_list (sb_data s) (unat (effective_chunk_size (sb_data s) chunkSize))
      (sb_id s) (len_u64 (sb_data s))"
    using split by (simp add: Split_eq_split_list)
  then show "c_BurstID (stamp c) = sb_id s"
    using assms(2) by (auto simp: split_list_def nth_chunk_def)
qed

definition carried_by :: "nat \<Rightarrow> sent_burst list \<Rightarrow> Chunk list" where
  "carried_by k sent = concat (map (\<lambda>s. map stamp (assigned_to k (sb_full s))) sent)"

lemma wire_carried: "concat (map (wire_of k) sent) = concat (map chunk_bytes (carried_by k sent))"
  by (induction sent) (simp_all add: carried_by_def wire_of_def comp_def)

lemma carried_by_set:
  assumes "list_all (sent_ok chunkSize n) sent"
  shows "set (concat (map (\<lambda>k. carried_by k sent) [0..<n])) = (\<Union>s\<in>set sent. stamp ` set (sb_chunks s))"
proof -
  have "(\<Union>k<n. stamp ` set (assigned_to k (sb_full s))) = stamp ` set (sb_chunks s)" if "s \<in> set sent" for s
  proof -
    have "assignment_ok n (sb_full s)" "map fst (sb_full s) = sb_chunks s"
      using assms that by (auto simp: list_all_iff sent_ok_def)
    with assigned_cover [of n "sb_full s"] show ?thesis
      by (simp add: atLeast0LessThan)
  qed
  moreover have "set (concat (map (\<lambda>k. carried_by k sent) [0..<n]))
      = (\<Union>s\<in>set sent. \<Union>k<n. stamp ` set (assigned_to k (sb_full s)))"
    by (simp add: carried_by_def atLeast0LessThan) (rule SUP_commute)
  ultimately show ?thesis
    by simp
qed

lemma carried_by_ok:
  assumes "list_all (sent_ok chunkSize n) sent"
  shows "list_all chunk_ok (carried_by k sent)"
proof -
  have "chunk_ok (stamp c)" if "s \<in> set sent" "c \<in> set (assigned_to k (sb_full s))" for s c
  proof -
    have "sent_ok chunkSize n s" using assms that by (auto simp: list_all_iff)
    moreover have "set (assigned_to k (sb_full s)) \<subseteq> set (map fst (sb_full s))"
      by (auto simp: assigned_to_def)
    then have "c \<in> set (sb_chunks s)"
      using that(2) calculation by (auto simp: sent_ok_def simp del: set_map)
    ultimately show ?thesis by (rule burst_chunk_fits(1))
  qed
  then show ?thesis
    by (auto simp: list_all_iff carried_by_def)
qed

text \<open>What intact arrivals of all chunks of a burst make of it.\<close>

lemma payload_burst:
  assumes "Split data chunkSize bid (len_u64 data) = Some chunks" and "data \<noteq> []" and "length data < 2 ^ 64"
    and "\<forall>e\<in>set es. \<not> arr_corrupted e" and "arr_chunk ` set es = stamp ` set chunks"
  shows "\<exists>b. burst_after es = Some b \<and> b_bytesReceived b = len_u64 data \<and>
    b_bytesExpected b = len_u64 data \<and> b_corrupted b = 0"
proof -
  let ?sz = "unat (effective_chunk_size data chunkSize)"
  let ?n = "num_chunks (length data) ?sz" and ?c = "\<lambda>i. stamp (nth_chunk data ?sz bid (len_u64 data) i)"
  have csz: "effective_chunk_size data chunkSize \<noteq> 0"
    using assms(1,2) Split_None_iff [of data chunkSize bid "len_u64 data"] by auto
  then have pos: "0 < ?sz" and chunks: "chunks = split_list data ?sz bid (len_u64 data)"
    using assms(1) by (simp_all add: Split_eq_split_list unat_gt_0)
  have all: "stamp ` set chunks = ?c ` {..<?n}"
    by (simp add: chunks split_list_def image_image atLeast0LessThan)
  have intact: "intact es = set es"
    using assms(4) by (auto simp: intact_def)
  have "arr_chunk e \<in> ?c ` {..<?n}" if "e \<in> set es" for e
    using that assms(5) unfolding all by blast
  then have each: "\<forall>e\<in>set es. \<exists>i<?n. arr_chunk e = ?c i"
    by blast
  then have pay: "payload_arrivals data ?sz bid (len_u64 data) es"
    using pos assms(3) by (simp add: payload_arrivals_def intact)
  have full: "intact_indices es = {..<?n}"
    using intact_indices_full [OF pay] assms(5) unfolding intact all by simp
  have "0 < ?n"
    using pos assms(2) by (cases data) (simp_all add: num_chunks_def div_greater_zero_iff)
  then have "es \<noteq> []"
    using full by (auto simp: intact_indices_def intact)
  then obtain e0 rest where es: "es = e0 # rest" by (cases es) auto
  have "c_BurstBytes (arr_chunk e0) = len_u64 data"
    using each es by (auto simp: nth_chunk_def)
  let ?b = "fold burst_arrive es (new_burst (arr_chunk e0) (arr_create e0))"
  have after: "burst_after es = Some ?b"
    by (simp add: burst_after_def es)
  have none: "filter arr_corrupted es = []"
    using assms(4) by (simp add: filter_empty_conv)
  have "b_corrupted ?b = 0" "b_bytesExpected ?b = len_u64 data"
    using \<open>c_BurstBytes (arr_chunk e0) = len_u64 data\<close> none by simp_all
  with intact_complete(2) [OF pay full, of "arr_chunk e0" "arr_create e0"] show ?thesis
    unfolding after by (intro exI [of _ ?b]) simp
qed

section \<open>The bursts at the server\<close>

text \<open>What the operations of the handlers bring of each burst.\<close>

lemma handler_did_ops:
  assumes "handler_did ctrl env k cs ops" and "op \<in> set ops"
  shows "op = OpStart ctrl (ce_now (env 0)) \<or> op_nonneg op \<and> \<not> is_start op"
  using assms by (auto simp: handler_did_def preamble_path_def is_start_def split: if_splits preamble.splits
      dest!: chunk_ops_set)

lemma handlers_did_ops:
  assumes "handlers_did ctrl env css opss" and "op \<in> set (concat opss)"
  shows "op = OpStart ctrl (ce_now (env 0)) \<or> op_nonneg op \<and> \<not> is_start op"
proof -
  obtain ops where "op \<in> set ops" "ops \<in> set opss"
    using assms(2) by auto
  then obtain k where "op \<in> set ops" "k < length opss" "ops = opss ! k"
    by (auto simp: in_set_conv_nth [of ops])
  with assms(1) show ?thesis
    by (intro handler_did_ops [of ctrl env k "css ! k" ops]) (auto simp: handlers_did_def)
qed

lemma chunks_of_arrivals: "arr_chunk ` set (arrivals ops) = set (arrived ops)"
  by (force simp: set_arrivals set_arrived image_iff)

lemma arrivals_corrupted: "e \<in> set (arrivals ops) \<Longrightarrow> arr_corrupted e \<longleftrightarrow> \<not> VerifyChecksum (arr_chunk e)"
  by (auto simp: set_arrivals)

lemma arrived_foreground: "set (arrived (filter (\<lambda>op. \<not> background_op op) ops)) = set (arrived ops)"
  by (auto simp: set_arrived background_op_def)

lemma UN_select:
  assumes "\<And>x c. x \<in> X \<Longrightarrow> c \<in> A x \<Longrightarrow> g c = i x"
  shows "{c \<in> (\<Union>x\<in>X. A x). g c = k} = (\<Union>x\<in>{x \<in> X. i x = k}. A x)"
  using assms by auto

lemma sent_chunks_id:
  "list_all (sent_ok chunkSize n) sent \<Longrightarrow> s \<in> set sent \<Longrightarrow> c \<in> stamp ` set (sb_chunks s) \<Longrightarrow> c_BurstID c = sb_id s"
  using burst_chunk_fits(2) by (auto simp: list_all_iff)

lemma sent_one:
  assumes "distinct (map sb_id sent)" and "s \<in> set sent" and "list_all (sent_ok chunkSize n) sent"
  shows "{c \<in> (\<Union>s\<in>set sent. stamp ` set (sb_chunks s)). c_BurstID c = sb_id s} = stamp ` set (sb_chunks s)"
proof -
  have "inj_on sb_id (set sent)"
    using assms(1) by (simp add: distinct_map)
  then have "{x \<in> set sent. sb_id x = sb_id s} = {s}"
    using assms(2) by (auto dest: inj_onD)
  moreover have "{c \<in> (\<Union>s\<in>set sent. stamp ` set (sb_chunks s)). c_BurstID c = sb_id s}
      = (\<Union>x\<in>{x \<in> set sent. sb_id x = sb_id s}. stamp ` set (sb_chunks x))"
    by (rule UN_select) (rule sent_chunks_id [OF assms(3)])
  ultimately show ?thesis
    by simp
qed

lemma sent_other:
  assumes "bid \<notin> sb_id ` set sent" and "list_all (sent_ok chunkSize n) sent"
  shows "{c \<in> (\<Union>s\<in>set sent. stamp ` set (sb_chunks s)). c_BurstID c = bid} = {}"
proof -
  have "{x \<in> set sent. sb_id x = bid} = {}"
    using assms(1) by auto
  moreover have "{c \<in> (\<Union>s\<in>set sent. stamp ` set (sb_chunks s)). c_BurstID c = bid}
      = (\<Union>x\<in>{x \<in> set sent. sb_id x = bid}. stamp ` set (sb_chunks x))"
    by (rule UN_select) (rule sent_chunks_id [OF assms(2)])
  ultimately show ?thesis
    by (simp only: UN_empty)
qed

lemma of_burst_chunks: "arr_chunk ` set (of_burst bid es) = {c \<in> arr_chunk ` set es. c_BurstID c = bid}"
  by (auto simp: of_burst_def)

text \<open>A session started on a header of continuous mode tracks bursts, none so far.\<close>

lemma tracking_start:
  assumes "session_start ctrl now (new_session sid every) = Inr s" and "ch_TotalSize ctrl = 0"
  shows "tracking s" and "current s bid = None" and "rows_of bid s = []" and "ss_id s = sid"
proof -
  have "session_inv s"
    using session_inv_start [OF session_inv_new assms(1)] .
  with assms show "tracking s" "current s bid = None" "rows_of bid s = []" "ss_id s = sid"
    by (auto simp: session_start_def new_session_def Let_def tracking_def paths_nonneg_def current_def
        rows_of_def NewBurstTracker_def SampleLog_Snapshot_def)
qed

text \<open>Once the session's wait is over, the tracker is empty and every burst has been reported.\<close>

lemma settled_after_wait:
  assumes "session_run s (ops @ [OpWait now order ps]) s'" and "tracking s" and "list_all op_nonneg ops"
    and "patient bid None (ops @ [OpWait now order ps])" and "current s bid = None" and "rows_of bid s = []"
  shows "case burst_after (of_burst bid (arrivals ops)) of
           None \<Rightarrow> rows_of bid s' = []
         | Some b \<Rightarrow> \<exists>r. rows_of bid s' = [r] \<and> bs_SessionID r = session_hex (ss_id s') \<and>
             bs_BytesExpected r = b_bytesExpected b \<and> bs_BytesReceived r = b_bytesReceived b \<and>
             bs_Corrupted r = b_corrupted b \<and> bs_Complete r = burst_complete b"
proof -
  obtain s1 where s1: "session_run s ops s1" "session_wait now order ps s1 = Inr s'"
    using assms(1) by (auto elim: session_run_snocE)
  have "tracking s1"
  proof -
    have "tracking s1 \<and> ss_id s1 = ss_id s"
      using s1(1) assms(2,3) by (induction rule: session_run.induct) (auto dest: tracking_op)
    then show ?thesis ..
  qed
  then obtain t where t: "ss_burstTracker s1 = Some t"
    by (auto simp: tracking_def)
  have "current s' bid = None"
    using s1(2) t by (auto simp: session_wait_def Let_def shutdownContinuous_def current_def BurstTracker_ExpireAll_def)
  moreover have "list_all op_nonneg (ops @ [OpWait now order ps])"
    using assms(3) by simp
  then have "settled bid ([] @ of_burst bid (arrivals (ops @ [OpWait now order ps]))) s'"
    using assms by (intro burst_reported_once) (simp_all add: last_heard_def burst_after_def)
  moreover have "arrivals (ops @ [OpWait now order ps]) = arrivals ops"
    by (simp add: arrivals_def map_filter_def)
  ultimately show ?thesis
    by (auto simp: settled_def burst_aggregate_def burst_stats_def burst_complete_def split: option.splits)
qed

text \<open>
  The session of a run: \<open>opss\<close> are the operations of the handlers, whose paths carried the
  bursts \<open>sent\<close>.
\<close>

lemma bursts_settled:
  assumes did: "handlers_did ctrl env (map (\<lambda>k. carried_by k sent) [0..<n]) opss" "ch_TotalSize ctrl = 0"
    and sent: "list_all (sent_ok chunkSize n) sent" "distinct (map sb_id sent)"
    and mixed: "mset (filter (\<lambda>op. \<not> background_op op) (op # ops)) = mset (concat opss)" "is_start op"
    and run: "session_run (new_session sid every) (op # ops @ [OpWait now order ps]) s"
    and patient: "patient bid None (ops @ [OpWait now order ps])"
  shows "case find (\<lambda>s. sb_id s = bid) sent of
           None \<Rightarrow> rows_of bid s = []
         | Some b \<Rightarrow> \<exists>r. rows_of bid s = [r] \<and> bs_SessionID r = session_hex sid \<and>
             bs_BytesExpected r = len_u64 (sb_data b) \<and> bs_BytesReceived r = len_u64 (sb_data b) \<and>
             bs_Corrupted r = 0 \<and> bs_Complete r"
proof -
  let ?es = "of_burst bid (arrivals ops)" and ?all = "\<Union>s\<in>set sent. stamp ` set (sb_chunks s)"
  have fg: "set (filter (\<lambda>op. \<not> background_op op) (op # ops)) = set (concat opss)"
    using mixed(1) by (rule mset_eq_setD)
  have foreground: "x \<in> set (concat opss)" if "x \<in> set (op # ops)" "\<not> background_op x" for x
    using that unfolding fg [symmetric] by auto
  have "\<not> background_op op"
    using mixed(2) by (cases op) (simp_all add: background_op_def is_start_def)
  then have start: "op = OpStart ctrl (ce_now (env 0))"
    using handlers_did_ops [OF did(1) foreground [of op]] mixed(2) by simp
  have "op_nonneg x" if "x \<in> set ops" for x
  proof (cases "background_op x")
    case True
    then show ?thesis by (cases x) (simp_all add: background_op_def)
  next
    case False
    with that handlers_did_ops [OF did(1) foreground [of x]] show ?thesis by auto
  qed
  then have nn: "list_all op_nonneg ops"
    by (simp add: list_all_iff)
  obtain s1 where s1: "session_start ctrl (ce_now (env 0)) (new_session sid every) = Inr s1"
      "session_run s1 (ops @ [OpWait now order ps]) s"
    using session_run_ConsD [OF run] start by auto
  note settled = settled_after_wait [OF s1(2) tracking_start(1) [OF s1(1) did(2)] nn patient
      tracking_start(2,3) [OF s1(1) did(2)]]
  have "ss_id s = sid"
    using session_run_id [OF run] by (simp add: new_session_def)
  have ok: "\<forall>cs\<in>set (map (\<lambda>k. carried_by k sent) [0..<n]). list_all VerifyChecksum cs"
    by (auto simp: carried_by_def list_all_iff)
  have "set (arrived ops) = set (arrived (op # ops))"
    by (simp add: start)
  also have "\<dots> = set (arrived (filter (\<lambda>op. \<not> background_op op) (op # ops)))"
    by (rule arrived_foreground [symmetric])
  also have "\<dots> = set (arrived (concat opss))"
    unfolding set_arrived fg ..
  also have "\<dots> = ?all"
    unfolding handlers_did_facts(1) [OF did(1) ok] by (rule carried_by_set [OF sent(1)])
  finally have all: "arr_chunk ` set (arrivals ops) = ?all"
    unfolding chunks_of_arrivals .
  show ?thesis
  proof (cases "find (\<lambda>s. sb_id s = bid) sent")
    case None
    then have "arr_chunk ` set ?es = {}"
      unfolding of_burst_chunks all using sent(1) by (intro sent_other) (auto simp: find_None_iff)
    then have "burst_after ?es = None"
      by (simp add: burst_after_def)
    with settled None show ?thesis by simp
  next
    case (Some b)
    then have b: "b \<in> set sent" "sb_id b = bid"
      by (auto simp: find_Some_iff)
    then have ok: "sent_ok chunkSize n b"
      using sent(1) by (simp add: list_all_iff)
    have es: "arr_chunk ` set ?es = stamp ` set (sb_chunks b)"
      unfolding of_burst_chunks all using sent_one [OF sent(2) b(1) sent(1)] b(2) by simp
    have "\<not> arr_corrupted e" if "e \<in> set ?es" for e
    proof -
      have "arr_chunk e \<in> stamp ` set (sb_chunks b)"
        using that es by blast
      moreover have "e \<in> set (arrivals ops)"
        using that by (simp add: of_burst_def)
      ultimately show ?thesis
        by (auto simp: arrivals_corrupted)
    qed
    moreover have "length (sb_data b) < 2 ^ 64"
      using ok by (simp add: sent_ok_def max_alloc_def)
    ultimately obtain st where "burst_after ?es = Some st" "b_bytesReceived st = len_u64 (sb_data b)"
        "b_bytesExpected st = len_u64 (sb_data b)" "b_corrupted st = 0"
      using payload_burst [of "sb_data b" chunkSize "sb_id b" "sb_chunks b" ?es] ok es
      by (auto simp: sent_ok_def)
    with settled Some \<open>ss_id s = sid\<close> show ?thesis
      by (auto simp: burst_complete_def)
  qed
qed

section \<open>A continuous run\<close>

text \<open>The client's side of a run: the bursts it sent, and what its handlers then did.\<close>

lemma continuous_handled:
  assumes accepted: "client_setup f sid = Inr pl" "fl_continuous f"
    and connected: "fresh_streams net" "client_connect net f pl = Inr paths" "length paths < 2 ^ 32"
    and bursts: "runContinuous (session_hex sid) (fl_burstMinSize f) (fl_burstMaxSize f)
        (ucast (fl_chunkSize f)) (fl_burstInterval f) n (start_continuous paths (pl_sched pl)) b" "n < 2 ^ 64"
    and received: "length results = length paths"
      "\<forall>k<length paths. ce_ready (env k) \<and>
         handleConn (env k) \<lparr>rbuf = wout (pc_stream (br_paths b ! k)), rend = EOF\<rparr> = Some (results ! k)"
  shows "\<exists>sent. list_all (sent_ok (ucast (fl_chunkSize f)) (length paths)) sent \<and> distinct (map sb_id sent) \<and>
    aggregates b = map (\<lambda>s. (sb_id s, len_u64 (sb_data s))) sent \<and>
    handlers_did (pl_ctrl pl) env (map (\<lambda>k. carried_by k sent) [0..<length paths]) (map cr_ops results) \<and>
    (\<forall>k<length paths. cr_session (results ! k) = sid \<and> cr_ack (results ! k) = ce_ackOk (env k))"
proof -
  let ?b0 = "start_continuous paths (pl_sched pl)" and ?ctrl = "pl_ctrl pl"
  note plan = client_setup_plan [OF accepted(1)]
  note conn = client_connect_Inr [OF accepted(1) connected(1,2)]
  have sizes: "fl_burstMinSize f \<noteq> 0" "fl_burstMinSize f \<le> fl_burstMaxSize f"
    using accepted by (auto simp: client_setup_def split: if_splits)
  have stream: "pc_stream (paths ! k) = \<lparr>wout = preamble_bytes (path_preamble ?ctrl k), wstat = Healthy\<rparr>"
    if "k < length paths" for k
    using conn(2) that preamble_sent by blast
  then have ready: "sendable (br_paths ?b0)"
    using client_connect_paths_wf [OF accepted(1) connected]
    by (auto simp: sendable_def start_continuous_def in_set_conv_nth)
  have "(send_burst (session_hex sid) (fl_burstMinSize f) (fl_burstMaxSize f)
      (ucast (fl_chunkSize f)) ^^ n) ?b0 b"
    using bursts(1) by (simp add: runContinuous_def)
  from continuous_sent [OF this ready sizes] obtain calls sent where calls: "sorted_wrt (<) calls" "set calls \<subseteq> {1..n}"
      "map sb_id sent = map (\<lambda>i. br_burstID ?b0 + of_nat i) calls"
    and sent: "list_all (sent_ok (ucast (fl_chunkSize f)) (length (br_paths ?b0))) sent"
      "aggregates b = aggregates ?b0 @ map (\<lambda>s. (sb_id s, len_u64 (sb_data s))) sent"
    and wire: "\<forall>k<length (br_paths ?b0). wout (pc_stream (br_paths b ! k)) =
        wout (pc_stream (br_paths ?b0 ! k)) @ concat (map (wire_of k) sent)"
    by (elim exE conjE) (rule that)
  have "inj_on (\<lambda>i. br_burstID ?b0 + of_nat i) (set calls)"
  proof (rule inj_onI)
    fix i j assume "i \<in> set calls" "j \<in> set calls"
      and "br_burstID ?b0 + of_nat i = br_burstID ?b0 + of_nat j"
    moreover have "x mod 2 ^ 64 = x" if "x \<in> set calls" for x
      using that calls(2) bursts(2) by (intro mod_less) force
    ultimately show "i = j"
      by (auto dest!: arg_cong [where f = unat] simp: unat_of_nat)
  qed
  then have "distinct (map sb_id sent)"
    unfolding calls(3) using calls(1) by (simp add: distinct_map strict_sorted_iff)
  moreover have "aggregates ?b0 = []"
    by (simp add: aggregates_def start_continuous_def SampleLog_Snapshot_def)
  moreover have "handler_did ?ctrl env k (carried_by k sent) (cr_ops (results ! k)) \<and>
      cr_session (results ! k) = ch_SessionID ?ctrl \<and> cr_ack (results ! k) = ce_ackOk (env k)"
    if k: "k < length paths" for k
  proof (rule path_handled)
    show "length (ch_Scheduler ?ctrl) < 2 ^ 16" by (rule plan(3))
    show "list_all chunk_ok (carried_by k sent)" by (rule carried_by_ok [OF sent(1)])
    show "ce_ready (env k)" using received(2) k by blast
    have all: "wout (pc_stream (br_paths b ! k)) = preamble_bytes (path_preamble ?ctrl k) @
        concat (map chunk_bytes (carried_by k sent))"
      using wire k stream [OF k] by (simp add: start_continuous_def wire_carried)
    have "handleConn (env k) \<lparr>rbuf = wout (pc_stream (br_paths b ! k)), rend = EOF\<rparr> = Some (results ! k)"
      using received(2) k by blast
    then show "handleConn (env k) \<lparr>rbuf = preamble_bytes (path_preamble ?ctrl k) @
        concat (map chunk_bytes (carried_by k sent)), rend = EOF\<rparr> = Some (results ! k)"
      unfolding all .
  qed
  ultimately show ?thesis
    using sent received(1) plan(4)
    by (intro exI [of _ sent]) (simp add: handlers_did_def start_continuous_def)
qed

text \<open>
  C3: a complete continuous run.  The client accepts its flags, dials its paths and sends \<open>n\<close>
  bursts of random size and content, each under any interleaving of dispatcher and workers;
  every path is read by a server handler to its end, the handlers and the session's own
  goroutines act on the session in any order that starts with the control header, and the
  session's wait for its paths ends.  Then every handler serves this client's session and
  acknowledges its path (if the acknowledgement can be written), and the server's burst file
  has exactly one row for every burst of the client's burst log for which the session was
  patient (no sweep found it idle for five seconds before its last chunk), under the
  client's session number: complete, with exactly the bytes the client expected of it and
  none corrupted.  A burst the client did not send has no row.
\<close>

theorem continuous_bursts_reported:
  assumes accepted: "client_setup f sid = Inr pl" "fl_continuous f"
    and connected: "fresh_streams net" "client_connect net f pl = Inr paths" "length paths < 2 ^ 32"
    and bursts: "runContinuous (session_hex sid) (fl_burstMinSize f) (fl_burstMaxSize f)
        (ucast (fl_chunkSize f)) (fl_burstInterval f) n (start_continuous paths (pl_sched pl)) b" "n < 2 ^ 64"
    and received: "length results = length paths"
      "\<forall>k<length paths. ce_ready (env k) \<and>
         handleConn (env k) \<lparr>rbuf = wout (pc_stream (br_paths b ! k)), rend = EOF\<rparr> = Some (results ! k)"
    and mixed: "interleave (map cr_ops results) (filter (\<lambda>op. \<not> background_op op) (op # ops))" "is_start op"
    and served: "session_run (new_session sid every) (op # ops @ [OpWait now order ps]) s"
    and patient: "patient bid None (ops @ [OpWait now order ps])"
  shows "(\<forall>k<length paths. cr_session (results ! k) = sid \<and> cr_ack (results ! k) = ce_ackOk (env k)) \<and>
    (\<forall>sz. (bid, sz) \<in> set (aggregates b) \<longrightarrow>
       (\<exists>r. rows_of bid s = [r] \<and> bs_SessionID r = session_hex sid \<and> bs_BytesExpected r = sz \<and>
          bs_BytesReceived r = sz \<and> bs_Corrupted r = 0 \<and> bs_Complete r)) \<and>
    (bid \<notin> fst ` set (aggregates b) \<longrightarrow> rows_of bid s = [])"
proof -
  from continuous_handled [OF accepted connected bursts received] obtain sent where
    sent: "list_all (sent_ok (ucast (fl_chunkSize f)) (length paths)) sent" "distinct (map sb_id sent)"
      "aggregates b = map (\<lambda>s. (sb_id s, len_u64 (sb_data s))) sent"
    and did: "handlers_did (pl_ctrl pl) env (map (\<lambda>k. carried_by k sent) [0..<length paths]) (map cr_ops results)"
    and acks: "\<forall>k<length paths. cr_session (results ! k) = sid \<and> cr_ack (results ! k) = ce_ackOk (env k)"
    by (elim exE conjE) (rule that)
  have "ch_TotalSize (pl_ctrl pl) = 0"
    using client_setup_plan(5) [OF accepted(1)] accepted(2) by simp
  note rows = bursts_settled [OF did this sent(1,2) interleave_mset [OF mixed(1)] mixed(2) served patient]
  have found: "find (\<lambda>s. sb_id s = bid) sent = Some x" if "x \<in> set sent" "sb_id x = bid" for x
  proof -
    have "find (\<lambda>s. sb_id s = bid) sent \<noteq> None"
      using that by (auto simp: find_None_iff)
    then obtain y where y: "find (\<lambda>s. sb_id s = bid) sent = Some y"
      by blast
    then have "y \<in> set sent" "sb_id y = bid"
      by (auto simp: find_Some_iff)
    with that sent(2) y show ?thesis
      by (auto simp: distinct_map dest: inj_onD)
  qed
  have "\<exists>r. rows_of bid s = [r] \<and> bs_SessionID r = session_hex sid \<and> bs_BytesExpected r = sz \<and>
      bs_BytesReceived r = sz \<and> bs_Corrupted r = 0 \<and> bs_Complete r" if "(bid, sz) \<in> set (aggregates b)" for sz
    using that rows found by (auto simp: sent(3))
  moreover have "rows_of bid s = []" if "bid \<notin> fst ` set (aggregates b)"
  proof -
    have "find (\<lambda>s. sb_id s = bid) sent = None"
      using that by (force simp: sent(3) find_None_iff)
    with rows show ?thesis by simp
  qed
  ultimately show ?thesis
    using acks by blast
qed

text \<open>The witness: one path and one burst of two bytes.\<close>

definition sample_burst_flags :: flags where
  "sample_burst_flags = sample_flags\<lparr>fl_chunkSize := 2, fl_continuous := True, fl_burstMinSize := 2,
     fl_burstMaxSize := 2\<rparr>"

lemma sample_burst_setup: "\<exists>pl. client_setup sample_burst_flags 5 = Inr pl \<and> length (pl_locals pl) = 1"
proof -
  obtain pl where "client_setup sample_flags 5 = Inr pl" "length (pl_locals pl) = 1"
    using sample_setup by blast
  then show ?thesis
    by (auto simp: client_setup_def sample_burst_flags_def sample_flags_def expandCC_def Let_def split: sum.splits if_splits)
qed

lemma sample_burst:
  assumes "paths_wf [pc]" and "wstat (pc_stream pc) = Healthy"
  shows "\<exists>b. send_burst sess 2 2 2 (start_continuous [pc] sched) b \<and> aggregates b = [(1, 2)] \<and>
    wout (pc_stream (br_paths b ! 0)) = wout (pc_stream pc) @ chunk_bytes (stamp (nth_chunk [7, 8] 2 1 2 0))"
proof -
  let ?D = "[7, 8] :: byte list" and ?c = "nth_chunk [7, 8] 2 1 2 0"
  obtain st where st: "send_step\<^sup>*\<^sup>* (send_init [?c] [pc] sched None) st" "send_final st"
    using send_run_exists [OF assms(1)] by blast
  have "\<forall>pc\<in>set [pc]. wstat (pc_stream pc) = Healthy"
    using assms(2) by simp
  from send_delivered [OF assms(1) st this] have "\<exists>full. map fst full = [?c] \<and> assignment_ok 1 full \<and>
      wout (pc_stream (sd_paths st ! 0)) = wout (pc_stream pc) @
        concat (map (\<lambda>c. chunk_bytes (stamp c)) (assigned_to 0 full))"
    by (elim exE conjE) (intro exI conjI, assumption, simp_all add: Let_def)
  then obtain full where full: "map fst full = [?c]" "assignment_ok 1 full"
    and wire: "wout (pc_stream (sd_paths st ! 0)) = wout (pc_stream pc) @
        concat (map (\<lambda>c. chunk_bytes (stamp c)) (assigned_to 0 full))"
    by (elim exE conjE) (rule that)
  from full obtain idxs where "full = [(?c, idxs)]" "idxs \<noteq> []" "set idxs \<subseteq> int ` {..<1}"
    by (auto simp: assignment_ok_def)
  moreover from this have "0 \<in> set idxs"
    by (cases idxs) auto
  ultimately have "assigned_to 0 full = [?c]"
    by (simp add: assigned_to_def)
  with wire have wire: "wout (pc_stream (sd_paths st ! 0)) = wout (pc_stream pc) @ chunk_bytes (stamp ?c)"
    by simp
  have split: "Split ?D 2 (br_burstID (start_continuous [pc] sched) + 1) 2 = Some [?c]"
    by (simp add: Split_eq_split_list effective_chunk_size_def split_list_def num_chunks_def start_continuous_def)
  have "pc_index pc = 0"
    using assms(1) by (simp add: paths_wf_def)
  let ?rows = "burst_log_rows sess 1 2 0 0 [pc] (sd_paths st) [0]" and ?start = "start_continuous [pc] sched"
  let ?b = "\<lparr>br_burstID = 1, br_paths = sd_paths st, br_sched = sd_sched st,
     br_log = fold SampleLog_Add ?rows (br_log ?start),
     br_file = Some (SampleLog_Snapshot (fold SampleLog_Add ?rows (br_log ?start)))\<rparr>"
  have run: "send_burst sess 2 2 2 ?start ?b"
    using st split \<open>pc_index pc = 0\<close>
      sb_sent [of 1 ?start 2 2 0 2 "\<lambda>_. Inr ?D" ?D 2 "[?c]" st "[0]" ?rows sess 0 0]
    by (simp add: start_continuous_def burst_size_def drawn_def GenerateRandomPayload_def max_alloc_def)
  have "aggregates ?b = [(1, 2)]"
    by (simp add: aggregates_def start_continuous_def SampleLog_Add_def SampleLog_Snapshot_def burst_log_rows_def
        client_burst_aggregate_def client_burst_path_def Let_def case_prod_beta)
  with run wire show ?thesis
    by (intro exI [of _ ?b] conjI) simp_all
qed

text \<open>The session that serves it.\<close>

lemma sample_served:
  assumes "ch_TotalSize ctrl = 0" and "ch_NumPaths ctrl = 1" and "c_BurstID c = 1"
  shows "\<exists>s. session_run (new_session sid every)
    ([OpStart ctrl 0, OpReady, OpChunk 0 c 0 0 0, OpPathDone p] @ [OpWait 9 [1] (\<lambda>_. [])]) s"
proof -
  let ?s0 = "new_session sid every"
  obtain s1 where s1: "session_start ctrl 0 ?s0 = Inr s1" "ss_readyClosed s1" "ss_waiting s1" "ss_wg s1 = 1"
      "ss_burstTracker s1 = Some (NewBurstTracker burstTTL)" "ss_progress s1 = None"
    using assms(1,2) by (simp add: session_start_def new_session_def Let_def)
  let ?t = "snd (BurstTracker_Write c (\<not> VerifyChecksum c) 0 0 0 (NewBurstTracker burstTTL))"
  have t: "dom (bt_bursts ?t) = {1}"
    using assms(3) by (auto simp: BurstTracker_Write_def NewBurstTracker_def Let_def split: option.splits)
  obtain s2 where s2: "handle_chunk 0 c 0 0 0 s1 = Inr s2" "ss_waiting s2" "ss_wg s2 = 1" "ss_burstTracker s2 = Some ?t"
    using s1 by (cases "VerifyChecksum c") (simp_all add: handle_chunk_def route_chunk_def log_delivery_def Let_def)
  obtain s3 where s3: "pathDone p s2 = Inr s3" "ss_waiting s3" "ss_wg s3 = 0" "ss_burstTracker s3 = Some ?t"
    using s2 by (simp add: pathDone_def Let_def)
  have "op_enabled (OpWait 9 [1] (\<lambda>_. [])) s3" "op_exec (OpWait 9 [1] (\<lambda>_. [])) s3 \<noteq> Inl e" for e
    using s3 t by (auto simp: enumerates_bursts_def enumerates_def session_wait_def Let_def)
  then obtain s4 where s4: "op_enabled (OpWait 9 [1] (\<lambda>_. [])) s3" "op_exec (OpWait 9 [1] (\<lambda>_. [])) s3 = Inr s4"
    by (cases "op_exec (OpWait 9 [1] (\<lambda>_. [])) s3") auto
  have "session_run s3 [OpWait 9 [1] (\<lambda>_. [])] s4"
    by (rule session_run_Cons [OF s4 sr_nil])
  then have "session_run s2 [OpPathDone p, OpWait 9 [1] (\<lambda>_. [])] s4"
    by (rule session_run_Cons [rotated 2]) (simp_all add: s3(1))
  then have "session_run s1 [OpChunk 0 c 0 0 0, OpPathDone p, OpWait 9 [1] (\<lambda>_. [])] s4"
    by (rule session_run_Cons [rotated 2]) (simp_all add: s2(1))
  then have "session_run s1 [OpReady, OpChunk 0 c 0 0 0, OpPathDone p, OpWait 9 [1] (\<lambda>_. [])] s4"
    by (rule session_run_Cons [rotated 2]) (simp_all add: s1(2))
  then have "session_run ?s0 [OpStart ctrl 0, OpReady, OpChunk 0 c 0 0 0, OpPathDone p, OpWait 9 [1] (\<lambda>_. [])] s4"
    by (rule session_run_Cons [rotated 2]) (simp_all add: s1(1))
  then show ?thesis by auto
qed

theorem continuous_bursts_reported_witness:
  "\<exists>pl b s r. client_setup sample_burst_flags 5 = Inr pl \<and>
     runContinuous (session_hex 5) 2 2 2 1 1 (start_continuous [first_path (pl_ctrl pl)] (pl_sched pl)) b \<and>
     aggregates b = [(1, 2)] \<and> ss_id s = 5 \<and> rows_of 1 s = [r] \<and> bs_BytesReceived r = 2 \<and> bs_Complete r"
proof -
  obtain pl where pl: "client_setup sample_burst_flags 5 = Inr pl" "length (pl_locals pl) = 1"
    using sample_burst_setup by blast
  let ?ctrl = "pl_ctrl pl" and ?pc = "first_path (pl_ctrl pl)" and ?c = "stamp (nth_chunk [7, 8] 2 1 2 0)"
  note plan = client_setup_plan [OF pl(1)]
  have flags: "fl_continuous sample_burst_flags" "fl_burstMinSize sample_burst_flags = 2"
      "fl_burstMaxSize sample_burst_flags = 2" "ucast (fl_chunkSize sample_burst_flags) = (2 :: u32)"
      "fl_cc sample_burst_flags = ''cubic''" "fl_burstInterval sample_burst_flags = 1"
    by (simp_all add: sample_burst_flags_def sample_flags_def)
  have wf: "paths_wf [?pc]"
    by (simp add: paths_wf_def first_path_def)
  obtain b where b: "send_burst (session_hex 5) 2 2 2 (start_continuous [?pc] (pl_sched pl)) b" "aggregates b = [(1, 2)]"
    and wire: "wout (pc_stream (br_paths b ! 0)) = preamble_bytes (path_preamble ?ctrl 0) @ chunk_bytes ?c"
    using sample_burst [OF wf, of "session_hex 5" "pl_sched pl"] by (auto simp: first_path_def)
  then have run: "runContinuous (session_hex 5) 2 2 2 1 1 (start_continuous [?pc] (pl_sched pl)) b"
    by (simp add: runContinuous_def eq_OO)
  note pre = path_preamble_facts [OF plan(3)]
  have "list_all chunk_ok [?c]"
    by (simp add: chunk_ok_def nth_chunk_def)
  from handler_complete [OF pre(1) this, of sample_env 0] obtain p where
    h: "handleConn sample_env \<lparr>rbuf = wout (pc_stream (br_paths b ! 0)), rend = EOF\<rparr>
       = Some (handler_result sample_env (path_preamble ?ctrl 0) [?c] p)"
    unfolding wire by (auto simp: sample_env_def)
  let ?res = "handler_result sample_env (path_preamble ?ctrl 0) [?c] p"
  let ?ops = "[OpReady, OpChunk 0 ?c 0 0 0, OpPathDone p]" and ?wait = "OpWait 9 [1] (\<lambda>_. [])"
  have ops: "cr_ops ?res = OpStart ?ctrl 0 # ?ops"
  proof -
    have "start_ops sample_env (path_preamble ?ctrl 0) = [OpStart ?ctrl 0]"
      unfolding pre(3) by (simp add: sample_env_def)
    moreover have "preamble_path (path_preamble ?ctrl 0) = 0"
      by (simp add: path_preamble_def preamble_path_def)
    ultimately show ?thesis
      by (simp add: handler_result_def) (simp add: sample_env_def)
  qed
  have "ch_TotalSize ?ctrl = 0" "ch_NumPaths ?ctrl = 1" "c_BurstID ?c = 1"
    using plan pl(2) flags(1) by (simp_all add: nth_chunk_def)
  from sample_served [OF this] obtain s where s: "session_run (new_session 5 0) (OpStart ?ctrl 0 # ?ops @ [?wait]) s"
    by fastforce
  have "patient 1 None (?ops @ [?wait])"
    by (simp add: nth_chunk_def)
  moreover have "interleave (map cr_ops [?res]) (filter (\<lambda>op. \<not> background_op op) (OpStart ?ctrl 0 # ?ops))"
    using interleave_one [of "OpStart ?ctrl 0 # ?ops"] by (simp add: ops background_op_def)
  moreover have "\<forall>k<length [?pc]. ce_ready sample_env \<and>
      handleConn sample_env \<lparr>rbuf = wout (pc_stream (br_paths b ! k)), rend = EOF\<rparr> = Some ([?res] ! k)"
    using h by (simp add: sample_env_def)
  moreover have "fresh_streams sample_net" "length [?pc] < 2 ^ 32" "length [?res] = length [?pc]"
      "is_start (OpStart ?ctrl 0)" "(1 :: nat) < 2 ^ 64"
    by (simp_all add: fresh_streams_def sample_net_def)
  moreover note sample_connect [OF pl flags(5)]
  ultimately have "\<exists>r. rows_of 1 s = [r] \<and> bs_SessionID r = session_hex 5 \<and> bs_BytesExpected r = 2 \<and>
      bs_BytesReceived r = 2 \<and> bs_Corrupted r = 0 \<and> bs_Complete r"
    using continuous_bursts_reported [OF pl(1) flags(1), of sample_net "[?pc]" 1 b "[?res]" "\<lambda>_. sample_env"
        "OpStart ?ctrl 0" ?ops 0 9 "[1]" "\<lambda>_. []" s 1] run s b(2)
    by (simp add: flags)
  moreover have "ss_id s = 5"
    using session_run_id [OF s] by (simp add: new_session_def)
  ultimately show ?thesis
    using pl(1) run b(2) by blast
qed

end
