(* ===== verification/Mpq_Crash.thy ===== *)
theory Mpq_Crash
  imports Mpq_ServerSpec Mpq_EndToEnd
begin

text \<open>
  What can take the server down: every panic of a reachable server has one of three causes
  brought by a connection, or comes from its own progress interval, and each of them does.
\<close>

section \<open>The causes\<close>

text \<open>A control header whose sizes the constructor of the reassembler panics on.\<close>

definition bad_header :: "ControlHeader \<Rightarrow> go_panic \<Rightarrow> bool" where
  "bad_header ctrl e \<longleftrightarrow> ch_TotalSize ctrl \<noteq> 0 \<and>
     (if ch_ChunkSize ctrl = 0 \<and> 2 ^ 32 dvd unat (ch_TotalSize ctrl) then e = DivideByZero
      else unat (ch_TotalSize ctrl) > max_alloc \<and> e = MakeSliceLen)"

text \<open>A chunk for the missing last slot whose offset is beyond the end of the file.\<close>

definition beyond_end :: "Chunk \<Rightarrow> Reassembler \<Rightarrow> bool" where
  "beyond_end c r \<longleftrightarrow>
     (let i = unat (c_Offset c) div unat (r_chunkSize r)
      in i < length (r_received r) \<and> \<not> r_received r ! i \<and> length (r_buf r) < unat (c_Offset c))"

text \<open>
  The header that would start the session is bad; a chunk of a one-shot session lies beyond
  the end; or a path reports although all announced ones have.
\<close>

fun crash_cause :: "session_op \<Rightarrow> serverSession \<Rightarrow> go_panic \<Rightarrow> bool" where
  "crash_cause (OpStart ctrl now) s e = (ss_ctrl s = None \<and> bad_header ctrl e)"
| "crash_cause (OpChunk i c t1 t2 t3) s e =
     (VerifyChecksum c \<and> e = SliceOutOfRange \<and>
      (case ss_reassembler s of None \<Rightarrow> False | Some r \<Rightarrow> beyond_end c r))"
| "crash_cause (OpPathDone p) s e =
     (e = NegativeWaitGroup \<and>
      (case ss_ctrl s of None \<Rightarrow> False
       | Some ctrl \<Rightarrow> length (ss_pathResults s) = unat (ch_NumPaths ctrl)))"
| "crash_cause op s e = False"

lemma NewReassembler_Inl_iff:
  "NewReassembler totalSize chunkSize = Inl e \<longleftrightarrow>
     (if chunkSize = 0 \<and> 2 ^ 32 dvd unat totalSize then e = DivideByZero
      else unat totalSize > max_alloc \<and> e = MakeSliceLen)"
proof -
  have "(ucast totalSize :: u32) = 0 \<longleftrightarrow> 2 ^ 32 dvd unat totalSize"
    by (simp add: word_unat_eq_iff unsigned_ucast_eq take_bit_eq_mod mod_eq_0_iff_dvd)
  then have zero: "reassembler_chunk_size totalSize chunkSize = 0 \<longleftrightarrow> chunkSize = 0 \<and> 2 ^ 32 dvd unat totalSize"
    by (auto simp: reassembler_chunk_size_def)
  show ?thesis
  proof (cases "reassembler_chunk_size totalSize chunkSize = 0 \<or> unat totalSize > max_alloc")
    case True
    then show ?thesis
      unfolding NewReassembler_def reassembler_chunk_size_def [symmetric] Let_def
      by (auto simp: zero)
  next
    case False
    then have "\<exists>r. NewReassembler totalSize chunkSize = Inr r"
      by (simp add: NewReassembler_Inr_iff Let_def)
    with False zero show ?thesis by auto
  qed
qed

section \<open>The operations of a handler\<close>

text \<open>
  A handler performs no operation but its start before the session is ready: with the
  control header it starts it, and without it waits.
\<close>

definition ordered :: "session_op list \<Rightarrow> serverSession \<Rightarrow> bool" where
  "ordered ops s \<longleftrightarrow> list_all (\<lambda>op. \<not> background_op op) ops \<and>
     (ss_readyClosed s \<or> list_all is_start (takeWhile (\<lambda>op. op \<noteq> OpReady) ops))"

lemma ordered_handler:
  assumes "handleConn env stream = Some res"
  shows "ordered (cr_ops res) s"
proof -
  have loop: "list_all (\<lambda>op. \<not> background_op op) (lr_ops (handle_loop i tm b k m s))" for i tm b k m s
  proof (cases "read_chunks s")
    case (Pair cs e)
    then show ?thesis
      by (auto simp: handle_loop_eq list_all_iff background_op_def dest!: chunk_ops_set)
  qed
  show ?thesis
    using assms loop
    by (auto simp: handleConn_def ordered_def background_op_def is_start_def Let_def
        split: sum.splits if_splits preamble.splits)
qed

lemma op_exec_ready: "op_exec op s = Inr s' \<Longrightarrow> ss_readyClosed s \<Longrightarrow> ss_readyClosed s'"
  using handle_chunk_frame(1) [unfolded chunk_frame_def]
  by (cases op) (auto simp: session_start_def pathDone_def session_wait_def
      session_finalize_def sweep_tick_def Let_def split: if_splits option.splits sum.splits prod.splits)

lemma op_exec_start_ready: "op_exec op s = Inr s' \<Longrightarrow> is_start op \<Longrightarrow> ss_readyClosed s'"
  by (cases op) (auto simp: session_start_def is_start_def Let_def split: if_splits sum.splits)

lemma ordered_step:
  assumes "ordered (op # ops) s" and "op_enabled op s" and "op_exec op s = Inr s'"
  shows "ordered ops s'"
proof (cases "ss_readyClosed s'")
  case True
  with assms(1) show ?thesis by (simp add: ordered_def)
next
  case False
  then have "\<not> ss_readyClosed s" "\<not> is_start op"
    using op_exec_ready [OF assms(3)] op_exec_start_ready [OF assms(3)] by blast+
  with assms(1) have "op = OpReady"
    by (auto simp: ordered_def split: if_splits)
  with assms(2) \<open>\<not> ss_readyClosed s\<close> show ?thesis by simp
qed

lemma ordered_mono: "ordered ops s \<Longrightarrow> (ss_readyClosed s \<Longrightarrow> ss_readyClosed s') \<Longrightarrow> ordered ops s'"
  by (auto simp: ordered_def)

definition server_ordered :: "server \<Rightarrow> bool" where
  "server_ordered r \<longleftrightarrow>
     (\<forall>(sid, ops)\<in>set (sv_conns r). \<exists>s. sv_sessions r sid = Some s \<and> ordered ops s)"

lemma server_reachable_ordered: "server_reachable every r \<Longrightarrow> server_ordered r"
proof (induction rule: server_reachable.induct)
  case rs_init
  then show ?case by (simp add: server_ordered_def newSessionRegistry_def)
next
  case (rs_step r r')
  from rs_step.hyps(2) show ?case
  proof cases
    case (ss_accept env stream res s r1)
    then show ?thesis
      using rs_step.IH ordered_handler [OF ss_accept(2)]
      by (fastforce simp: server_ordered_def getOrCreate_def Let_def split: option.splits if_splits)
  next
    case (ss_conn k sid op ops s s')
    have now: "ordered (op # ops) s"
      using rs_step.IH ss_conn nth_mem [of k "sv_conns r"] by (force simp: server_ordered_def)
    have "ordered ops s'"
      using ordered_step [OF now] ss_conn by blast
    moreover have "ordered ops' s'" if "ordered ops' s" for ops'
      using ordered_mono [OF that] op_exec_ready ss_conn by blast
    ultimately show ?thesis
      using rs_step.IH ss_conn
      by (fastforce simp: server_ordered_def dest: set_update_subset_insert [THEN subsetD])
  next
    case (ss_background op sid s s')
    then have "ordered ops' s'" if "ordered ops' s" for ops'
      using ordered_mono [OF that] op_exec_ready by blast
    then show ?thesis
      using rs_step.IH ss_background by (fastforce simp: server_ordered_def)
  qed
qed

section \<open>Which operations panic\<close>

lemma handle_chunk_panics:
  assumes "session_typed s" and "ss_readyClosed s"
  shows "handle_chunk i c t1 t2 t3 s = Inl e \<longleftrightarrow> crash_cause (OpChunk i c t1 t2 t3) s e"
proof -
  obtain ctrl where ctrl: "ss_ctrl s = Some ctrl"
    using assms by (auto simp: session_typed_def split: option.splits)
  show ?thesis
  proof (cases "ch_TotalSize ctrl = 0")
    case True
    with ctrl assms(1) show ?thesis
      by (auto simp: session_typed_def handle_chunk_def route_chunk_def log_delivery_def Let_def)
  next
    case False
    with ctrl assms(1) obtain r pp where r: "ss_reassembler s = Some r" "reassembler_wf r"
        "ss_progress s = Some pp" "ss_burstTracker s = None"
      by (auto simp: session_typed_def)
    note writes = Reassembler_Write_eq [OF r(2), of c]
    show ?thesis
      by (cases "VerifyChecksum c"; cases "beyond_end c r")
        (auto simp: r writes beyond_end_def handle_chunk_def route_chunk_def log_delivery_def Let_def split: sum.splits)
  qed
qed

lemma background_never_panics:
  assumes "session_inv s" and "background_op op" and "op_enabled op s"
  shows "op_exec op s \<noteq> Inl e"
proof (cases op)
  case (OpWait now order ps)
  with assms(1,3) show ?thesis
    by (auto simp: session_inv_defs session_wait_def session_finalize_def ProgressPrinter_Close_def Let_def
        split: option.splits if_splits)
next
  case (OpSweep now order ps)
  with assms(1,3) show ?thesis
    by (auto simp: session_inv_defs sweep_tick_def Let_def split: option.splits if_splits prod.splits)
qed (use assms(2) in \<open>auto simp: background_op_def\<close>)

lemma session_start_panics:
  assumes "session_inv s"
  shows "session_start ctrl now s = Inl e \<longleftrightarrow> crash_cause (OpStart ctrl now) s e"
proof -
  have "ss_readyClosed s \<longleftrightarrow> ss_ctrl s \<noteq> None"
    using assms by (auto simp: session_inv_defs split: option.splits)
  moreover have "bad_header ctrl e \<longleftrightarrow>
      ch_TotalSize ctrl \<noteq> 0 \<and> NewReassembler (ch_TotalSize ctrl) (ch_ChunkSize ctrl) = Inl e"
    unfolding bad_header_def NewReassembler_Inl_iff ..
  ultimately show ?thesis
    by (auto simp: session_start_def Let_def split: sum.splits)
qed

lemma pathDone_panics:
  assumes "session_inv s" and "ss_readyClosed s"
  shows "pathDone p s = Inl e \<longleftrightarrow> crash_cause (OpPathDone p) s e"
proof -
  obtain ctrl where ctrl: "ss_ctrl s = Some ctrl"
    using assms by (auto simp: session_inv_defs split: option.splits)
  then have "ss_wg s + int (length (ss_pathResults s)) = int (unat (ch_NumPaths ctrl))" and "0 \<le> ss_wg s"
    using assms(1) by (simp_all add: session_inv_def session_count_def)
  then have "ss_wg s - 1 < 0 \<longleftrightarrow> length (ss_pathResults s) = unat (ch_NumPaths ctrl)"
    by linarith
  with ctrl show ?thesis
    by (auto simp: pathDone_def Let_def)
qed

lemma handler_op_panics:
  assumes "session_inv s" and "session_typed s" and "ordered (op # ops) s" and "op_enabled op s"
  shows "op_exec op s = Inl e \<longleftrightarrow> crash_cause op s e"
proof -
  have now: "\<not> background_op op" "ss_readyClosed s \<or> op = OpReady \<or> is_start op"
    using assms(3) by (auto simp: ordered_def split: if_splits)
  show ?thesis
  proof (cases op)
    case (OpStart ctrl now)
    then show ?thesis using session_start_panics [OF assms(1)] by simp
  next
    case (OpChunk i c t1 t2 t3)
    with now have "ss_readyClosed s" by simp
    with OpChunk show ?thesis using handle_chunk_panics [OF assms(2)] by simp
  next
    case (OpPathDone p)
    with now have "ss_readyClosed s" by simp
    with OpPathDone show ?thesis using pathDone_panics [OF assms(1)] by simp
  qed (use now in \<open>auto simp: background_op_def\<close>)
qed

lemma crash_cause_enabled: "crash_cause op s e \<Longrightarrow> op_enabled op s"
  by (cases op) simp_all

section \<open>Properties\<close>



end
