(* ===== verification/Mpq_ClientMain.thy ===== *)
theory Mpq_ClientMain
  imports Mpq_Continuous Mpq_Report
begin

text \<open>
  The client's \<^verbatim>\<open>main\<close> from its flags to its last file (\<^verbatim>\<open>cmd/client/main.go\<close>), and how a run of
  it ends.
\<close>

section \<open>The program\<close>

datatype client_fatal =
    BadFlags client_error
  | NotConnected connect_error
  | NoPayload io_err

type_synonym client_files =
  "(string \<times> (json_error option \<times> byte list) \<times> (io_err option \<times> byte list)) option \<times> (io_err option \<times> byte list)"

text \<open>
  \<^verbatim>\<open>log.Fatalf\<close>, a panic, a loop that does not end (in \<^verbatim>\<open>Split\<close>), or the return of \<^verbatim>\<open>main\<close> with
  what the drain of each path gave and the files.
\<close>

datatype client_end =
    Fatal client_fatal
  | Panicked go_panic
  | Hangs
  | Returned "drain_result list" client_files

text \<open>
  What the client gets from outside: the network, the random source (for the session number
  and for payloads), the clock, the ticks of the RTT samplers, the close and read results of
  the drain and the addresses of the connections by path index, the zone and the files.
\<close>

record ('ip, 'sock, 'addr, 'conn) client_env =
  cl_net :: "('ip, 'sock, 'addr, 'conn) net_env"
  cl_idRandom :: "nat \<Rightarrow> io_err + byte list"
  cl_random :: "nat \<Rightarrow> io_err + byte list"
  cl_start :: int
  cl_now :: "int \<Rightarrow> int"
  cl_finish :: int
  cl_ticks :: "int \<Rightarrow> (int \<times> int \<times> int) list"
  cl_drains :: "int \<Rightarrow> io_err option \<times> rstream"
  cl_addrs :: "int \<Rightarrow> string \<times> string"
  cl_off :: int
  cl_json :: "io_err + wstream"
  cl_csv :: "io_err + wstream"
  cl_rtt :: "io_err + wstream"

text \<open>
  The sending part of \<^verbatim>\<open>main\<close> in one-shot mode: how it ends the program, or the paths it
  leaves.  The goroutine of the progress printer makes a ticker, which panics when its interval
  is not positive, unless the transfer is over before it runs.
\<close>

inductive send_once ::
  "('ip, 'sock, 'addr, 'conn) client_env \<Rightarrow> flags \<Rightarrow> plan \<Rightarrow> pathConn list \<Rightarrow> client_end + pathConn list \<Rightarrow> bool"
  for env f pl paths where
  so_payload_panic: "GenerateRandomPayload (cl_random env) (fl_size f) = Inl e \<Longrightarrow>
     send_once env f pl paths (Inl (Panicked e))"
| so_payload_error: "GenerateRandomPayload (cl_random env) (fl_size f) = Inr (Inl e) \<Longrightarrow>
     send_once env f pl paths (Inl (Fatal (NoPayload e)))"
| so_split_hangs: "GenerateRandomPayload (cl_random env) (fl_size f) = Inr (Inr data) \<Longrightarrow>
     Split data (ucast (fl_chunkSize f)) 0 (fl_size f) = None \<Longrightarrow>
     send_once env f pl paths (Inl Hangs)"
| so_progress_panic: "GenerateRandomPayload (cl_random env) (fl_size f) = Inr (Inr data) \<Longrightarrow>
     Split data (ucast (fl_chunkSize f)) 0 (fl_size f) = Some chunks \<Longrightarrow>
     fl_progressInterval f \<le> 0 \<Longrightarrow>
     send_once env f pl paths (Inl (Panicked NonPositiveInterval))"
| so_send_panic: "GenerateRandomPayload (cl_random env) (fl_size f) = Inr (Inr data) \<Longrightarrow>
     Split data (ucast (fl_chunkSize f)) 0 (fl_size f) = Some chunks \<Longrightarrow>
     send_step\<^sup>*\<^sup>* (send_init chunks paths (pl_sched pl) (Some (NewProgressPrinter (fl_size f)))) st \<Longrightarrow>
     send_panic st e \<Longrightarrow>
     send_once env f pl paths (Inl (Panicked e))"
| so_close_panic: "GenerateRandomPayload (cl_random env) (fl_size f) = Inr (Inr data) \<Longrightarrow>
     Split data (ucast (fl_chunkSize f)) 0 (fl_size f) = Some chunks \<Longrightarrow>
     send_step\<^sup>*\<^sup>* (send_init chunks paths (pl_sched pl) (Some (NewProgressPrinter (fl_size f)))) st \<Longrightarrow>
     send_final st \<Longrightarrow> sd_progress st = Some pp \<Longrightarrow> ProgressPrinter_Close pp = Inl e \<Longrightarrow>
     send_once env f pl paths (Inl (Panicked e))"
| so_sent: "GenerateRandomPayload (cl_random env) (fl_size f) = Inr (Inr data) \<Longrightarrow>
     Split data (ucast (fl_chunkSize f)) 0 (fl_size f) = Some chunks \<Longrightarrow>
     send_step\<^sup>*\<^sup>* (send_init chunks paths (pl_sched pl) (Some (NewProgressPrinter (fl_size f)))) st \<Longrightarrow>
     send_final st \<Longrightarrow> sd_progress st = Some pp \<Longrightarrow> ProgressPrinter_Close pp = Inr pp' \<Longrightarrow>
     send_once env f pl paths (Inr (sd_paths st))"

text \<open>
  The same in continuous mode: \<open>n\<close> bursts were sent before the end, or before the burst that
  ends the program.  A second burst needs the ticker, so a positive interval.
\<close>

inductive send_bursts :: "flags \<Rightarrow> plan \<Rightarrow> pathConn list \<Rightarrow> client_end + pathConn list \<Rightarrow> bool"
  for f pl paths where
  bs_panic: "(send_burst (session_hex (ch_SessionID (pl_ctrl pl))) (fl_burstMinSize f) (fl_burstMaxSize f)
        (ucast (fl_chunkSize f)) ^^ n) (start_continuous paths (pl_sched pl)) b \<Longrightarrow>
     n = 0 \<or> 0 < fl_burstInterval f \<Longrightarrow>
     burst_panic (fl_burstMinSize f) (fl_burstMaxSize f) e \<Longrightarrow>
     send_bursts f pl paths (Inl (Panicked e))"
| bs_hangs: "(send_burst (session_hex (ch_SessionID (pl_ctrl pl))) (fl_burstMinSize f) (fl_burstMaxSize f)
        (ucast (fl_chunkSize f)) ^^ n) (start_continuous paths (pl_sched pl)) b \<Longrightarrow>
     n = 0 \<or> 0 < fl_burstInterval f \<Longrightarrow>
     burst_size (fl_burstMinSize f) (fl_burstMaxSize f) r = Inr sz \<Longrightarrow>
     drawn (fl_burstMinSize f) (fl_burstMaxSize f) r \<Longrightarrow>
     GenerateRandomPayload rnd sz = Inr (Inr data) \<Longrightarrow> length data = unat sz \<Longrightarrow>
     Split data (ucast (fl_chunkSize f)) (br_burstID b + 1) sz = None \<Longrightarrow>
     send_bursts f pl paths (Inl Hangs)"
| bs_interval: "send_burst (session_hex (ch_SessionID (pl_ctrl pl))) (fl_burstMinSize f) (fl_burstMaxSize f)
        (ucast (fl_chunkSize f)) (start_continuous paths (pl_sched pl)) b \<Longrightarrow>
     fl_burstInterval f \<le> 0 \<Longrightarrow>
     send_bursts f pl paths (Inl (Panicked NonPositiveInterval))"
| bs_over: "runContinuous (session_hex (ch_SessionID (pl_ctrl pl))) (fl_burstMinSize f) (fl_burstMaxSize f)
       (ucast (fl_chunkSize f)) (fl_burstInterval f) n (start_continuous paths (pl_sched pl)) b \<Longrightarrow>
     send_bursts f pl paths (Inr (br_paths b))"

definition client_sends ::
  "('ip, 'sock, 'addr, 'conn) client_env \<Rightarrow> flags \<Rightarrow> plan \<Rightarrow> pathConn list \<Rightarrow> client_end + pathConn list \<Rightarrow> bool" where
  "client_sends env f pl paths x \<longleftrightarrow>
     (if fl_continuous f then send_bursts f pl paths x else send_once env f pl paths x)"

text \<open>
  \<^verbatim>\<open>main\<close>.  The checks on the flags come before the session number is drawn and do not depend
  on it.
\<close>

inductive client_main :: "('ip, 'sock, 'addr, 'conn) client_env \<Rightarrow> flags \<Rightarrow> client_end \<Rightarrow> bool"
  for env f where
  cm_flags: "client_setup f 0 = Inl e \<Longrightarrow> client_main env f (Fatal (BadFlags e))"
| cm_session: "client_setup f 0 = Inr pl \<Longrightarrow> NewSessionID (cl_idRandom env) = Inl e \<Longrightarrow>
     client_main env f (Panicked e)"
| cm_connect: "NewSessionID (cl_idRandom env) = Inr sid \<Longrightarrow> client_setup f sid = Inr pl \<Longrightarrow>
     client_connect (cl_net env) f pl = Inl e \<Longrightarrow> client_main env f (Fatal (NotConnected e))"
| cm_sending: "NewSessionID (cl_idRandom env) = Inr sid \<Longrightarrow> client_setup f sid = Inr pl \<Longrightarrow>
     client_connect (cl_net env) f pl = Inr paths \<Longrightarrow> client_sends env f pl paths (Inl x) \<Longrightarrow>
     client_main env f x"
| cm_returned: "NewSessionID (cl_idRandom env) = Inr sid \<Longrightarrow> client_setup f sid = Inr pl \<Longrightarrow>
     client_connect (cl_net env) f pl = Inr paths \<Longrightarrow> client_sends env f pl paths (Inr paths') \<Longrightarrow>
     interleave (map (\<lambda>pc. sampleRTT (session_hex sid) (cl_start env) (pc_index pc) (cl_ticks env (pc_index pc))) paths) xs \<Longrightarrow>
     client_main env f (Returned (drainPaths (map (\<lambda>pc. cl_drains env (pc_index pc)) paths'))
       (client_report (session_hex sid) (pl_ctrl pl) (fl_continuous f) paths' (cl_start env) (cl_addrs env)
          (cl_now env) (cl_finish env) (rtt_log xs) (cl_off env) (cl_json env) (cl_csv env) (cl_rtt env)))"

section \<open>Facts\<close>

lemma client_setup_session:
  "client_setup f sid = map_sum id (\<lambda>pl. pl\<lparr>pl_ctrl := (pl_ctrl pl)\<lparr>ch_SessionID := sid\<rparr>\<rparr>) (client_setup f sid')"
  by (auto simp: client_setup_def Let_def split: sum.split)

text \<open>Logs can always be mixed.\<close>

lemma interleave_exists: "\<exists>ops. interleave css ops"
proof (induction "length (concat css)" arbitrary: css rule: less_induct)
  case less
  show ?case
  proof (cases "\<forall>cs\<in>set css. cs = []")
    case True
    then show ?thesis by (blast intro: il_nil)
  next
    case False
    then obtain k where "k < length css" "css ! k \<noteq> []"
      by (auto simp: in_set_conv_nth)
    then obtain x xs where k: "k < length css" "css ! k = x # xs"
      by (cases "css ! k") auto
    then have "length (concat (css[k := xs])) < length (concat css)"
      using sum_list_update_length [of k css xs] by (simp add: length_concat)
    from less [OF this] k show ?thesis
      by (blast intro: il_step)
  qed
qed

text \<open>The progress printer stays open while the send loop runs, so closing it cannot panic.\<close>

lemma Update_done [simp]: "pp_done (ProgressPrinter_Update v p) = pp_done p"
  by (simp add: ProgressPrinter_Update_def split: option.split)

lemma send_keeps_progress:
  assumes "send_step\<^sup>*\<^sup>* (send_init chunks paths sched (Some (NewProgressPrinter n))) st"
  shows "map_option pp_done (sd_progress st) = Some False"
  using assms
proof (induction rule: rtranclp_induct)
  case base
  show ?case by (simp add: send_init_def NewProgressPrinter_def)
next
  case (step st st')
  from step(2,3) show ?case
    by (cases rule: send_step.cases) (auto simp: count_sent_def Let_def)
qed

text \<open>On a network that is up, with every module known, the client gets its paths.\<close>

lemma dial_paths_up:
  assumes "network_up env" and "snd ` set ps \<subseteq> {''cubic'', ''fixed''}"
  shows "\<exists>pcs. dial_paths env server i ps = Inr pcs"
  using assms(2)
proof (induction ps arbitrary: i)
  case (Cons x ps)
  obtain local cc where x: "x = (local, cc)" by (cases x)
  with Cons.prems have "cc \<in> {''cubic'', ''fixed''}" "snd ` set ps \<subseteq> {''cubic'', ''fixed''}" by auto
  with Cons.IH [of "i + 1"] dialPath_up(1) [OF assms(1), of cc i local server] show ?case
    by (auto simp: x)
qed simp

lemma send_preambles_up:
  assumes "\<forall>pc\<in>set pcs. wstat (pc_stream pc) = Healthy"
  shows "\<exists>pcs'. send_preambles ctrl i pcs = Inr pcs'"
  using assms
proof (induction pcs arbitrary: i)
  case (Cons pc pcs)
  from Cons.prems Cons.IH [of "i + 1"] show ?case
    by (auto simp: send_preamble_def WriteControlHeader_healthy WritePathHello_healthy)
qed simp

lemma connect_up:
  assumes "client_setup f sid = Inr pl" and "network_up env" and "fresh_streams env"
    and "set (pl_ccNames pl) \<subseteq> {''cubic'', ''fixed''}"
  shows "\<exists>paths. client_connect env f pl = Inr paths"
proof -
  let ?ps = "zip (pl_locals pl) (pl_ccNames pl)"
  have known: "snd ` set ?ps \<subseteq> {''cubic'', ''fixed''}"
    using assms(4) by (auto dest: set_zip_rightD)
  obtain pcs where pcs: "dial_paths env (fl_server f) 0 ?ps = Inr pcs"
    using dial_paths_up [OF assms(2) known] by blast
  have "\<forall>pc\<in>set pcs. wstat (pc_stream pc) = Healthy"
    using dial_paths_Inr(1,2) [OF pcs assms(3)] by (auto simp: in_set_conv_nth fresh_path_def)
  with send_preambles_up pcs show ?thesis
    by (fastforce simp: client_connect_def)
qed

text \<open>How the sending part of a one-shot run ends, with its payload drawn.\<close>

lemma send_once_decided:
  assumes "paths_wf paths" and "0 < fl_progressInterval f"
    and "\<forall>n. \<exists>bs. cl_random env n = Inr bs \<and> length bs = n"
  shows "\<exists>x. send_once env f pl paths x"
    and "send_once env f pl paths x \<Longrightarrow>
      (if unat (fl_size f) > max_alloc then x = Inl (Panicked MakeSliceLen)
       else if fl_size f \<noteq> 0 \<and> (ucast (fl_chunkSize f) :: u32) = 0 \<and> (ucast (fl_size f) :: u32) = 0
       then x = Inl Hangs else \<exists>paths'. x = Inr paths' \<and> length paths' = length paths)"
proof -
  let ?rnd = "cl_random env" and ?sz = "fl_size f" and ?csz = "ucast (fl_chunkSize f) :: u32"
  let ?st0 = "\<lambda>chunks. send_init chunks paths (pl_sched pl) (Some (NewProgressPrinter ?sz))"
  obtain data where data: "?rnd (unat ?sz) = Inr data" "length data = unat ?sz"
    using assms(3) by blast
  have draws: "GenerateRandomPayload ?rnd ?sz = (if unat ?sz > max_alloc then Inl MakeSliceLen else Inr (Inr data))"
    by (simp add: GenerateRandomPayload_def data)
  have low: "of_nat (unat ?sz) = (ucast ?sz :: u32)"
    by simp
  have "data \<noteq> [] \<longleftrightarrow> ?sz \<noteq> 0"
    using data(2) by (metis length_0_conv unat_eq_zero)
  moreover have "effective_chunk_size data ?csz = (if ?csz = 0 then ucast ?sz else ?csz)"
    by (simp add: effective_chunk_size_def len_u32_def data(2) low)
  ultimately have hangs: "Split data ?csz 0 ?sz = None \<longleftrightarrow> ?sz \<noteq> 0 \<and> ?csz = 0 \<and> (ucast ?sz :: u32) = 0"
    by (auto simp: Split_None_iff)
  have closes: "\<exists>pp pp'. sd_progress st = Some pp \<and> ProgressPrinter_Close pp = Inr pp'"
      "sd_progress st = Some pp \<Longrightarrow> ProgressPrinter_Close pp \<noteq> Inl e"
    if "send_step\<^sup>*\<^sup>* (?st0 chunks) st" for chunks st pp e
    using send_keeps_progress [OF that] by (auto simp: ProgressPrinter_Close_def)
  have no_panic: "\<not> send_panic st e" if "send_step\<^sup>*\<^sup>* (?st0 chunks) st" for chunks st e
    using send_pending_valid [OF send_inv_reachable [OF that assms(1)]] by (auto simp: send_panic.simps)
  have len: "length (sd_paths st) = length paths" if "send_step\<^sup>*\<^sup>* (?st0 chunks) st" for chunks st
    using send_inv_reachable [OF that assms(1)] by (auto simp: send_inv_def Let_def dest: map_eq_imp_length_eq)
  show "\<exists>x. send_once env f pl paths x"
  proof (cases "unat ?sz > max_alloc")
    case True
    then show ?thesis by (meson draws so_payload_panic)
  next
    case False
    note small = draws [unfolded if_not_P [OF False]]
    show ?thesis
    proof (cases "Split data ?csz 0 ?sz")
      case None
      from so_split_hangs [OF small this] show ?thesis by blast
    next
      case (Some chunks)
      obtain st where "send_step\<^sup>*\<^sup>* (?st0 chunks) st" "send_final st"
        using send_run_exists [OF assms(1)] by blast
      with so_sent [OF small Some this] closes(1) show ?thesis by blast
    qed
  qed
  assume "send_once env f pl paths x"
  then show "if unat ?sz > max_alloc then x = Inl (Panicked MakeSliceLen)
      else if ?sz \<noteq> 0 \<and> ?csz = 0 \<and> (ucast ?sz :: u32) = 0 then x = Inl Hangs
      else \<exists>paths'. x = Inr paths' \<and> length paths' = length paths"
    using hangs closes(2) no_panic len assms(2)
    by (cases rule: send_once.cases) (auto simp: draws split: if_splits)
qed

section \<open>How a run ends\<close>

text \<open>The first path whose congestion control module is not registered.\<close>

definition unknown_cc :: "string list \<Rightarrow> nat option" where
  "unknown_cc names = find (\<lambda>k. names ! k \<notin> {''cubic'', ''fixed''}) [0..<length names]"

lemma unknown_cc_None: "unknown_cc names = None \<longleftrightarrow> set names \<subseteq> {''cubic'', ''fixed''}"
  by (force simp: unknown_cc_def find_None_iff in_set_conv_nth)

lemma unknown_cc_Some:
  assumes "unknown_cc names = Some k"
  shows "k < length names" and "names ! k \<notin> {''cubic'', ''fixed''}" and "\<forall>j<k. names ! j \<in> {''cubic'', ''fixed''}"
  using assms by (fastforce simp: unknown_cc_def find_Some_iff)+

lemma connect_decided:
  assumes "client_setup f sid = Inr pl" and "network_up env" and "fresh_streams env"
    and "length (pl_locals pl) < 2 ^ 32"
  shows "case unknown_cc (pl_ccNames pl) of
      Some k \<Rightarrow> client_connect env f pl =
        Inl (DialingPath k (UnknownModule (UnknownName (pl_ccNames pl ! k) [''cubic'', ''fixed''])))
    | None \<Rightarrow> \<exists>paths. client_connect env f pl = Inr paths \<and> paths_wf paths"
proof (cases "unknown_cc (pl_ccNames pl)")
  case None
  then obtain paths where paths: "client_connect env f pl = Inr paths"
    using connect_up [OF assms(1-3)] by (auto simp: unknown_cc_None)
  have "length paths < 2 ^ 32"
    using client_connect_Inr(1) [OF assms(1,3) paths] assms(4) by simp
  with client_connect_paths_wf [OF assms(1,3) paths] paths None show ?thesis by simp
next
  case (Some k)
  from unknown_module_reported [OF assms(1,2) unknown_cc_Some [OF Some]] Some show ?thesis by simp
qed


text \<open>
  The witness: one path, two bytes, a network whose calls all succeed and a server that does
  not answer.
\<close>

definition sample_client_env :: "(nat, nat, nat, nat) client_env" where
  "sample_client_env = \<lparr>cl_net = sample_net, cl_idRandom = \<lambda>n. Inr (replicate n 0),
     cl_random = \<lambda>n. Inr (replicate n 0), cl_start = 0, cl_now = \<lambda>_. 9, cl_finish = 9,
     cl_ticks = \<lambda>_. [], cl_drains = \<lambda>_. (None, \<lparr>rbuf = [], rend = EOF\<rparr>), cl_addrs = \<lambda>_. ([], []),
     cl_off = 0, cl_json = Inl StreamErr, cl_csv = Inl StreamErr, cl_rtt = Inl StreamErr\<rparr>"


end
