(* ===== verification/Mpq_ServerMain.thy ===== *)
theory Mpq_ServerMain
  imports Mpq_Connect Mpq_BurstReports Mpq_Crash Mpq_Results
begin

text \<open>
  The server's \<^verbatim>\<open>main\<close> (\<^verbatim>\<open>cmd/server/main.go\<close>): configuration, listener, the accept loop and
  the goroutine that on a signal flushes every session and exits; and the files a one-shot
  session leaves.
\<close>

section \<open>The program\<close>

text \<open>
  A server process: its sessions and handlers, and once a signal has arrived the sessions the
  shutdown goroutine has still to flush.
\<close>

record server_proc =
  pr_server :: server
  pr_flushing :: "SessionID list option"

datatype server_end =
    ConfigFailed tls_error
  | ListenFailed io_err
  | AcceptFailed io_err
  | Interrupted
  | Crashed go_panic

definition server_begin :: "int \<Rightarrow> server_proc" where
  "server_begin every = \<lparr>pr_server = newSessionRegistry every, pr_flushing = None\<rparr>"

text \<open>
  The accept loop, the handlers and the goroutines of the sessions go on while \<^verbatim>\<open>shutdownAll\<close>
  flushes the sessions the registry had when it was called, in the order its map is
  enumerated: other steps may come between any two of them.
\<close>

inductive proc_step :: "server_proc \<Rightarrow> server_proc \<Rightarrow> bool" where
  pp_serve: "server_step (pr_server p) r \<Longrightarrow> proc_step p (p\<lparr>pr_server := r\<rparr>)"
| pp_signal: "pr_flushing p = None \<Longrightarrow> distinct sids \<Longrightarrow> set sids = dom (sv_sessions (pr_server p)) \<Longrightarrow>
     proc_step p (p\<lparr>pr_flushing := Some sids\<rparr>)"
| pp_flush: "pr_flushing p = Some (sid # sids) \<Longrightarrow> sv_sessions (pr_server p) sid = Some s \<Longrightarrow>
     enumerates_bursts order s \<Longrightarrow>
     proc_step p (p\<lparr>pr_server := (pr_server p)\<lparr>sv_sessions :=
         (sv_sessions (pr_server p))(sid \<mapsto> shutdownContinuous order ps s)\<rparr>, pr_flushing := Some sids\<rparr>)"

text \<open>\<^verbatim>\<open>os.Exit\<close> after the flush, the return of \<^verbatim>\<open>main\<close> when accepting fails, or a panic.\<close>

inductive proc_exit :: "server_proc \<Rightarrow> server_end \<Rightarrow> bool" where
  pe_interrupted: "pr_flushing p = Some [] \<Longrightarrow> proc_exit p Interrupted"
| pe_accept: "proc_exit p (AcceptFailed e)"
| pe_crash: "server_crash (pr_server p) e \<Longrightarrow> proc_exit p (Crashed e)"

text \<open>
  \<^verbatim>\<open>main\<close> ends in some way and, if it got to serve, leaves a process state.  \<open>gen\<close> to \<open>t2\<close> are
  the key, certificate and clock of the TLS configuration, \<open>listen\<close> is \<^verbatim>\<open>quic.ListenAddr\<close>.
\<close>

inductive server_main ::
  "io_err + 'key \<Rightarrow> (cert_template \<Rightarrow> 'key \<Rightarrow> io_err + byte list) \<Rightarrow> int \<Rightarrow> int \<Rightarrow>
     ('key tls_config \<Rightarrow> io_err + unit) \<Rightarrow> int \<Rightarrow> server_end \<Rightarrow> server_proc option \<Rightarrow> bool"
  for gen create t1 t2 listen every where
  sm_config: "ServerConfig gen create t1 t2 = Inl e \<Longrightarrow>
     server_main gen create t1 t2 listen every (ConfigFailed e) None"
| sm_listen: "ServerConfig gen create t1 t2 = Inr cfg \<Longrightarrow> listen cfg = Inl e \<Longrightarrow>
     server_main gen create t1 t2 listen every (ListenFailed e) None"
| sm_exit: "ServerConfig gen create t1 t2 = Inr cfg \<Longrightarrow> listen cfg = Inr ready \<Longrightarrow>
     proc_step\<^sup>*\<^sup>* (server_begin every) p \<Longrightarrow> proc_exit p x \<Longrightarrow>
     server_main gen create t1 t2 listen every x (Some p)"

text \<open>
  The end of \<^verbatim>\<open>finalize\<close>: what it prints and writes for its result; \<open>json\<close>, \<open>csv\<close> and
  \<open>dlv\<close> are what creating the files gave, \<open>off\<close> is the offset of the local time zone.
\<close>

definition server_report ::
  "serverSession \<Rightarrow> RunResult \<Rightarrow> int \<Rightarrow> io_err + wstream \<Rightarrow> io_err + wstream \<Rightarrow> io_err + wstream \<Rightarrow>
     string \<times> (json_error option \<times> byte list) \<times> (io_err option \<times> byte list) \<times> (io_err option \<times> byte list)" where
  "server_report s result off json csv dlv =
     (RunResult_Print result, RunResult_WriteJSON off result json, RunResult_WriteCSV result csv,
      WriteDeliverySamplesCSV (SampleLog_Snapshot (ss_deliveryLog s)) dlv)"

section \<open>What a session keeps\<close>

text \<open>The burst file is the whole burst log, or was never written and the log is empty.\<close>

definition file_ok :: "serverSession \<Rightarrow> bool" where
  "file_ok s \<longleftrightarrow> (case ss_burstFile s of
      None \<Rightarrow> SampleLog_Snapshot (ss_burstLog s) = []
    | Some rows \<Rightarrow> rows = SampleLog_Snapshot (ss_burstLog s))"

lemma file_ok_recordBursts: "file_ok s \<Longrightarrow> file_ok (recordBursts ps stats s)"
  by (auto simp: file_ok_def recordBursts_def Let_def)

lemma file_ok_frame:
  "file_ok s \<Longrightarrow> ss_burstFile s' = ss_burstFile s \<Longrightarrow> ss_burstLog s' = ss_burstLog s \<Longrightarrow> file_ok s'"
  by (auto simp: file_ok_def split: option.splits)

lemma file_ok_flush: "file_ok s \<Longrightarrow> file_ok (shutdownContinuous order ps s)"
  by (auto simp: shutdownContinuous_def Let_def split: option.split prod.split
      intro!: file_ok_recordBursts intro: file_ok_frame)

lemma handle_chunk_file: "handle_chunk i c t1 t2 t3 s = Inr s' \<Longrightarrow>
    ss_burstFile s' = ss_burstFile s \<and> ss_burstLog s' = ss_burstLog s"
  by (auto simp: handle_chunk_def route_chunk_def log_delivery_def Let_def
      split: if_splits option.splits sum.splits prod.splits)

lemma file_ok_op:
  assumes "file_ok s" and "op_exec op s = Inr s'"
  shows "file_ok s'"
proof (cases op)
  case (OpStart ctrl now)
  with assms show ?thesis
    by (auto simp: session_start_def Let_def split: if_splits sum.splits intro: file_ok_frame)
next
  case (OpChunk i c t1 t2 t3)
  with assms handle_chunk_file show ?thesis by (metis file_ok_frame op_exec.simps(3))
next
  case (OpPathDone p)
  with assms show ?thesis
    by (auto simp: pathDone_def Let_def split: if_splits intro: file_ok_frame)
next
  case (OpWait now order ps)
  have "file_ok (s\<lparr>ss_waiting := False\<rparr>)"
    using assms(1) by (rule file_ok_frame) simp_all
  with OpWait assms(2) show ?thesis
    by (auto simp: session_wait_def session_finalize_def Let_def split: if_splits option.splits sum.splits
        intro: file_ok_flush elim: file_ok_frame)
next
  case (OpSweep now order ps)
  with assms show ?thesis
    by (auto simp: sweep_tick_def Let_def split: option.splits prod.splits
        intro!: file_ok_recordBursts intro: file_ok_frame)
qed (use assms in \<open>auto intro: file_ok_flush file_ok_frame\<close>)

lemma paths_nonneg_untracked: "ss_burstTracker s = None \<Longrightarrow> paths_nonneg s"
  by (simp add: paths_nonneg_def current_def)

lemma paths_nonneg_op:
  assumes "session_inv s" and "paths_nonneg s" and "op_enabled op s" and "op_exec op s = Inr s'" and "op_nonneg op"
  shows "paths_nonneg s'"
proof (cases "ss_burstTracker s = None")
  case False
  with op_paths_nonneg assms show ?thesis by blast
next
  case none: True
  show ?thesis
  proof (cases op)
    case (OpStart ctrl now)
    with none assms(4) show ?thesis
      by (auto simp: session_start_def paths_nonneg_def current_def NewBurstTracker_def Let_def
          split: if_splits sum.splits)
  next
    case (OpChunk i c t1 t2 t3)
    with none assms(4) show ?thesis
      by (intro paths_nonneg_untracked) (auto simp: handle_chunk_def route_chunk_def log_delivery_def Let_def
        split: if_splits option.splits sum.splits)
  next
    case (OpWait now order ps)
    with none assms(4) show ?thesis
      by (intro paths_nonneg_untracked) (auto simp: session_wait_def session_finalize_def Let_def
        split: option.splits sum.splits)
  qed (use none assms(4) in \<open>auto simp: pathDone_def sweep_tick_def shutdownContinuous_def Let_def
      split: if_splits intro!: paths_nonneg_untracked\<close>)
qed

definition session_good :: "serverSession \<Rightarrow> bool" where
  "session_good s \<longleftrightarrow> session_inv s \<and> paths_nonneg s \<and> file_ok s"

lemma session_good_new: "session_good (new_session sid every)"
  by (simp add: session_good_def session_inv_new paths_nonneg_def current_def file_ok_def)
    (simp add: new_session_def SampleLog_Snapshot_def)

lemma session_good_op:
  "session_good s \<Longrightarrow> op_enabled op s \<Longrightarrow> op_exec op s = Inr s' \<Longrightarrow> op_nonneg op \<Longrightarrow> session_good s'"
  unfolding session_good_def using session_inv_op paths_nonneg_op file_ok_op by blast

section \<open>What a process keeps\<close>

lemma handler_nonneg: "handleConn env stream = Some res \<Longrightarrow> list_all op_nonneg (cr_ops res)"
proof -
  assume res: "handleConn env stream = Some res"
  have loop: "0 \<le> i \<Longrightarrow> list_all op_nonneg (lr_ops (handle_loop i tm b k m s))" for i tm b k m s
    by (cases "read_chunks s") (auto simp: handle_loop_eq list_all_iff dest!: chunk_ops_set)
  show ?thesis
    using res loop by (auto simp: handleConn_def Let_def split: sum.splits if_splits preamble.splits)
qed

definition server_good :: "server \<Rightarrow> bool" where
  "server_good r \<longleftrightarrow> (\<forall>(sid, ops)\<in>set (sv_conns r). list_all op_nonneg ops) \<and>
     (\<forall>sid s. sv_sessions r sid = Some s \<longrightarrow> session_good s \<and> ss_id s = sid)"

text \<open>What one step does to a session that is there.\<close>

definition session_moves :: "serverSession \<Rightarrow> serverSession \<Rightarrow> bool" where
  "session_moves s s' \<longleftrightarrow> s' = s \<or> (\<exists>op. op_enabled op s \<and> op_exec op s = Inr s' \<and> op_nonneg op)"

lemma session_moves_good:
  "session_moves s s' \<Longrightarrow> session_good s \<Longrightarrow> session_good s' \<and> ss_id s' = ss_id s"
  unfolding session_moves_def using session_good_op op_exec_id by blast

lemma background_nonneg: "background_op op \<Longrightarrow> op_nonneg op"
  by (cases op) (simp_all add: background_op_def)

lemma server_step_moves:
  assumes "server_step r r'" and "server_good r"
  shows "(\<forall>(sid, ops)\<in>set (sv_conns r'). list_all op_nonneg ops) \<and>
    (\<forall>sid s. sv_sessions r sid = Some s \<longrightarrow> (\<exists>s'. sv_sessions r' sid = Some s' \<and> session_moves s s')) \<and>
    (\<forall>sid s'. sv_sessions r' sid = Some s' \<longrightarrow> sv_sessions r sid = None \<longrightarrow> (\<exists>every. s' = new_session sid every))"
  using assms(1)
proof cases
  case (ss_accept env stream res s r1)
  with assms(2) handler_nonneg [OF ss_accept(2)] show ?thesis
    by (auto simp: server_good_def session_moves_def getOrCreate_def Let_def
          split: option.splits if_splits)
next
  case (ss_conn k sid op ops s s')
  have "list_all op_nonneg (op # ops)"
    using assms(2) ss_conn nth_mem [of k "sv_conns r"] by (force simp: server_good_def)
  with ss_conn assms(2) show ?thesis
    by (auto simp: server_good_def session_moves_def dest: set_update_subset_insert [THEN subsetD])
next
  case (ss_background op sid s s')
  with assms(2) background_nonneg show ?thesis
    by (auto simp: server_good_def session_moves_def)
qed

lemma server_good_step:
  assumes "server_step r r'" and "server_good r"
  shows "server_good r'"
proof -
  note moves = server_step_moves [OF assms]
  have "session_good s' \<and> ss_id s' = sid" if s': "sv_sessions r' sid = Some s'" for sid s'
  proof (cases "sv_sessions r sid")
    case None
    with moves s' obtain every where "s' = new_session sid every" by blast
    then show ?thesis by (simp add: session_good_new) (simp add: new_session_def)
  next
    case (Some s)
    with moves s' have "session_moves s s'" by fastforce
    with Some assms(2) show ?thesis
      using session_moves_good [of s s'] by (simp add: server_good_def)
  qed
  with moves show ?thesis by (simp add: server_good_def)
qed

lemma server_good_flush:
  assumes "server_good r" and "sv_sessions r sid = Some s" and "enumerates_bursts order s"
  shows "session_moves s (shutdownContinuous order ps s)"
    and "server_good (r\<lparr>sv_sessions := (sv_sessions r)(sid \<mapsto> shutdownContinuous order ps s)\<rparr>)"
proof -
  have "op_exec (OpFlush order ps) s = Inr (shutdownContinuous order ps s)" "op_enabled (OpFlush order ps) s"
      "op_nonneg (OpFlush order ps)"
    using assms(3) by simp_all
  then show move: "session_moves s (shutdownContinuous order ps s)"
    unfolding session_moves_def by blast
  from session_moves_good [OF this] assms(1,2)
  show "server_good (r\<lparr>sv_sessions := (sv_sessions r)(sid \<mapsto> shutdownContinuous order ps s)\<rparr>)"
    by (auto simp: server_good_def)
qed

lemma proc_good:
  assumes "proc_step\<^sup>*\<^sup>* (server_begin every) p"
  shows "server_good (pr_server p)"
  using assms
proof (induction rule: rtranclp_induct)
  case base
  show ?case by (simp add: server_good_def server_begin_def newSessionRegistry_def)
next
  case (step p p')
  from step(2,3) show ?case
    by (cases rule: proc_step.cases) (auto intro: server_good_step server_good_flush(2))
qed

section \<open>Following one burst\<close>

text \<open>The burst is held with at least \<open>n\<close> chunks, or a row with as many is in the log.\<close>

definition row_written :: "u64 \<Rightarrow> int \<Rightarrow> serverSession \<Rightarrow> bool" where
  "row_written bid n s \<longleftrightarrow>
     (\<exists>row\<in>set (rows_of bid s). n \<le> bs_Chunks row \<and> bs_SessionID row = session_hex (ss_id s))"

definition burst_safe :: "u64 \<Rightarrow> int \<Rightarrow> serverSession \<Rightarrow> bool" where
  "burst_safe bid n s \<longleftrightarrow> (\<exists>b. current s bid = Some b \<and> n \<le> b_chunks b) \<or> row_written bid n s"

lemma row_step_safe:
  assumes "row_step bid op s s'" and "ss_id s' = ss_id s"
  shows "burst_safe bid n s \<Longrightarrow> burst_safe bid n s'"
    and "row_written bid n s \<Longrightarrow> row_written bid n s'"
    and "burst_safe bid n s \<Longrightarrow> current s' bid = None \<Longrightarrow> row_written bid n s'"
  using assms by (auto simp: row_step_def burst_safe_def row_written_def burst_aggregate_def burst_stats_def)

lemma untracked_log:
  assumes "ss_burstTracker s = None" and "op_exec op s = Inr s'"
  shows "ss_burstLog s' = ss_burstLog s"
proof (cases op)
  case (OpChunk i c t1 t2 t3)
  with assms(2) handle_chunk_file show ?thesis by simp
next
  case (OpSweep now order ps)
  with assms show ?thesis by (simp add: sweep_tick_def)
qed (use assms in \<open>auto simp: session_start_def pathDone_def session_wait_def session_finalize_def
    shutdownContinuous_def Let_def split: if_splits option.splits sum.splits\<close>)

lemma session_moves_safe:
  assumes "session_moves s s'" and "session_good s"
  shows "burst_safe bid n s \<Longrightarrow> burst_safe bid n s'" and "row_written bid n s \<Longrightarrow> row_written bid n s'"
proof -
  have "(burst_safe bid n s \<longrightarrow> burst_safe bid n s') \<and> (row_written bid n s \<longrightarrow> row_written bid n s')"
  proof (cases "s' = s")
    case False
    then obtain op where op: "op_enabled op s" "op_exec op s = Inr s'" "op_nonneg op"
      using assms(1) by (auto simp: session_moves_def)
    have sid: "ss_id s' = ss_id s" using op_exec_id [OF op(2)] .
    consider (untracked) "ss_burstTracker s = None"
      | (other) "ss_burstTracker s \<noteq> None" "leaves_burst bid op"
      | (chunk) i c t1 t2 t3 where "ss_burstTracker s \<noteq> None" "op = OpChunk i c t1 t2 t3" "c_BurstID c = bid"
      by (cases op) auto
    then show ?thesis
    proof cases
      case untracked
      then have "rows_of bid s' = rows_of bid s" "current s bid = None"
        using untracked_log [OF _ op(2)] by (simp_all add: rows_of_def current_def)
      with sid show ?thesis by (simp add: burst_safe_def row_written_def)
    next
      case other
      then have "row_step bid op s s'"
        using op_row_step op(1,2) assms(2) by (simp add: session_good_def)
      with row_step_safe sid show ?thesis by blast
    next
      case chunk
      with op(2) chunk_row_step [of i c t1 t2 t3 s s' bid] sid show ?thesis
        by (auto simp: burst_safe_def row_written_def burst_arrive_def)
    qed
  qed simp
  then show "burst_safe bid n s \<Longrightarrow> burst_safe bid n s'" and "row_written bid n s \<Longrightarrow> row_written bid n s'"
    by blast+
qed

lemma flush_writes:
  assumes "session_good s" and "enumerates_bursts order s" and "burst_safe bid n s"
  shows "row_written bid n (shutdownContinuous order ps s)"
proof -
  let ?s = "shutdownContinuous order ps s"
  have "row_step bid (OpFlush order ps) s ?s"
    using assms(1,2) by (intro flush_row_step) (simp_all add: session_good_def)
  moreover have "current ?s bid = None"
    by (auto simp: current_def shutdownContinuous_def BurstTracker_ExpireAll_def Let_def split: option.split)
  ultimately show ?thesis
    using row_step_safe(3) assms(3) by simp
qed

text \<open>The shutdown goroutine has the session still before it, or the row is written.\<close>

definition shutdown_safe :: "SessionID \<Rightarrow> u64 \<Rightarrow> int \<Rightarrow> server_proc \<Rightarrow> bool" where
  "shutdown_safe sid bid n p \<longleftrightarrow>
     (\<exists>s. sv_sessions (pr_server p) sid = Some s \<and> burst_safe bid n s \<and>
       (case pr_flushing p of None \<Rightarrow> True | Some sids \<Rightarrow> sid \<in> set sids \<or> row_written bid n s))"

lemma shutdown_safe_step:
  assumes "proc_step p p'" and "server_good (pr_server p)" and "shutdown_safe sid bid n p"
  shows "shutdown_safe sid bid n p'"
proof -
  obtain s where s: "sv_sessions (pr_server p) sid = Some s" "burst_safe bid n s" "session_good s"
      "case pr_flushing p of None \<Rightarrow> True | Some sids \<Rightarrow> sid \<in> set sids \<or> row_written bid n s"
    using assms(2,3) by (auto simp: shutdown_safe_def server_good_def)
  from assms(1) show ?thesis
  proof cases
    case (pp_serve r)
    with server_step_moves [OF pp_serve(2) assms(2)] s(1) obtain s' where
        "sv_sessions r sid = Some s'" "session_moves s s'" by blast
    with session_moves_safe [OF this(2) s(3), of bid n] s(2,4) pp_serve(1) show ?thesis
      by (auto simp: shutdown_safe_def split: option.splits)
  next
    case (pp_signal sids)
    with s show ?thesis by (auto simp: shutdown_safe_def)
  next
    case (pp_flush sid' sids s' order ps)
    have good: "session_good s'"
      using assms(2) pp_flush(3) by (simp add: server_good_def)
    show ?thesis
    proof (cases "sid' = sid")
      case True
      with flush_writes [OF good pp_flush(4)] pp_flush s show ?thesis
        by (auto simp: shutdown_safe_def burst_safe_def)
    next
      case False
      with pp_flush s show ?thesis by (auto simp: shutdown_safe_def)
    qed
  qed
qed

section \<open>Properties\<close>


text \<open>The witness: one connection, one burst, of which one chunk has arrived when the signal comes.\<close>

definition sample_proc :: "serverSession \<Rightarrow> session_op list \<Rightarrow> server_proc" where
  "sample_proc s ops = \<lparr>pr_server = \<lparr>sv_sessions = [7 \<mapsto> s], sv_progressEvery = 1, sv_conns = [(7, ops)]\<rparr>,
     pr_flushing = None\<rparr>"

lemma sample_proc_op:
  assumes "proc_step\<^sup>*\<^sup>* (server_begin 1) (sample_proc s (op # ops))" and "op_enabled op s" and "op_exec op s = Inr s'"
  shows "proc_step\<^sup>*\<^sup>* (server_begin 1) (sample_proc s' ops)"
proof -
  let ?p = "sample_proc s (op # ops)"
  have "server_step (pr_server ?p) ((pr_server ?p)\<lparr>sv_sessions := (sv_sessions (pr_server ?p))(7 \<mapsto> s'),
      sv_conns := (sv_conns (pr_server ?p))[0 := (7, ops)]\<rparr>)"
    by (rule ss_conn [of 0 _ 7 op ops s]) (simp_all add: sample_proc_def assms(2,3))
  from pp_serve [OF this] have "proc_step ?p (sample_proc s' ops)"
    by (simp add: sample_proc_def)
  with assms(1) show ?thesis by (rule rtranclp.rtrancl_into_rtrancl)
qed

lemma sample_serving:
  "\<exists>s b ops. proc_step\<^sup>*\<^sup>* (server_begin 1) (sample_proc s ops) \<and> current s 1 = Some b \<and> b_chunks b = 1 \<and>
     (\<exists>t. ss_burstTracker s = Some t \<and> dom (bt_bursts t) = {1})"
proof -
  let ?h = "\<lparr>ch_SessionID = 7, ch_TotalSize = 0, ch_ChunkSize = 2, ch_NumPaths = 1, ch_Scheduler = []\<rparr>"
  let ?c = "stamp (nth_chunk [7, 8] 2 1 2 0)" and ?s0 = "new_session 7 1"
  have "preamble_ok (PreControl ?h)" "list_all chunk_ok [?c]" "ce_ready sample_env"
    by (simp_all add: chunk_ok_def nth_chunk_def sample_env_def)
  from handler_complete [OF this] obtain ps where
    h: "handleConn sample_env \<lparr>rbuf = preamble_bytes (PreControl ?h) @ concat (map chunk_bytes [?c]), rend = EOF\<rparr>
       = Some (handler_result sample_env (PreControl ?h) [?c] ps)" by blast
  let ?res = "handler_result sample_env (PreControl ?h) [?c] ps"
  have res: "cr_session ?res = 7" "cr_ops ?res = [OpStart ?h 0, OpReady, OpChunk 0 ?c 0 0 0, OpPathDone ps]"
    by (simp_all add: handler_result_def preamble_session_def preamble_path_def start_ops_def sample_env_def)
  let ?r = "newSessionRegistry 1" and ?r1 = "(newSessionRegistry 1)\<lparr>sv_sessions := [7 \<mapsto> ?s0]\<rparr>"
  have "getOrCreate (cr_session ?res) ?r = (?s0, ?r1)"
    by (simp add: res(1) getOrCreate_def newSessionRegistry_def Let_def)
  from pp_serve [of "server_begin 1", OF ss_accept [OF h, of "pr_server (server_begin 1)"]] this
  have "proc_step (server_begin 1) (sample_proc ?s0 (cr_ops ?res))"
    by (simp add: server_begin_def sample_proc_def newSessionRegistry_def res(1))
  then have "proc_step\<^sup>*\<^sup>* (server_begin 1) (sample_proc ?s0 (cr_ops ?res))" by blast
  note run0 = this [unfolded res(2)]
  obtain s1 where s1: "session_start ?h 0 ?s0 = Inr s1" "ss_readyClosed s1"
      "ss_burstTracker s1 = Some (NewBurstTracker burstTTL)" "ss_progress s1 = None"
    by (simp add: session_start_def new_session_def Let_def)
  note run1 = sample_proc_op [OF sample_proc_op [OF run0], of s1 s1]
  obtain s2 where s2: "handle_chunk 0 ?c 0 0 0 s1 = Inr s2"
    using s1(3,4) by (cases "VerifyChecksum ?c") (simp_all add: handle_chunk_def route_chunk_def log_delivery_def Let_def)
  have bid: "c_BurstID ?c = 1"
    by (simp add: nth_chunk_def)
  have "current s2 bid = (if bid = 1 then Some (burst_arrive (?c, \<not> VerifyChecksum ?c, 0, 0, 0) (new_burst ?c 0)) else None)" for bid
    using chunk_row_step(2) [OF s2, of bid] s1(3) bid by (auto simp: current_def NewBurstTracker_def)
  moreover obtain t where "ss_burstTracker s2 = Some t"
    using handle_chunk_frame(2) [OF s2] s1(3) by (auto simp: routed_def)
  ultimately have "current s2 1 = Some (burst_arrive (?c, \<not> VerifyChecksum ?c, 0, 0, 0) (new_burst ?c 0))"
      "ss_burstTracker s2 = Some t" "dom (bt_bursts t) = {1}"
    by (auto simp: current_def dom_def split: if_splits)
  moreover have "proc_step\<^sup>*\<^sup>* (server_begin 1) (sample_proc s2 [OpPathDone ps])"
    using sample_proc_op [OF run1, of s2] s1 s2 by simp
  ultimately show ?thesis
    by (intro exI [of _ s2] exI conjI) (auto simp: burst_arrive_def new_burst_def)
qed


end
