(* ===== verification/Mpq_ServerFiles.thy ===== *)
theory Mpq_ServerFiles
  imports Mpq_ServerMain
begin

text \<open>
  What the three files of a one-shot session say: the delivery log records every valid chunk a
  handler read, and the result files list the paths' reports.
\<close>

section \<open>The delivery log\<close>

text \<open>The valid chunks of a sequence of operations, with the path each came on.\<close>

definition good_deliveries :: "session_op list \<Rightarrow> (int \<times> Chunk) list" where
  "good_deliveries ops = List.map_filter (\<lambda>op. case op of
     OpChunk i c t1 t2 t3 \<Rightarrow> if VerifyChecksum c then Some (i, c) else None | _ \<Rightarrow> None) ops"

lemma good_deliveries_snoc [simp]:
  "good_deliveries [] = []"
  "good_deliveries (ops @ [op]) = good_deliveries ops @
     (case op of OpChunk i c t1 t2 t3 \<Rightarrow> if VerifyChecksum c then [(i, c)] else [] | _ \<Rightarrow> [])"
  by (auto simp: good_deliveries_def map_filter_def split: session_op.splits)

definition delivery_key :: "DeliverySample \<Rightarrow> string \<times> int \<times> u64 \<times> int" where
  "delivery_key d = (ds_SessionID d, ds_PathIndex d, ds_Seq d, ds_Bytes d)"

definition deliveries :: "serverSession \<Rightarrow> (string \<times> int \<times> u64 \<times> int) list" where
  "deliveries s = map delivery_key (SampleLog_Snapshot (ss_deliveryLog s))"

lemma deliveries_log:
  "log_delivery i c t3 s = Inr s' \<Longrightarrow>
     deliveries s' = deliveries s @ [(session_hex (ss_id s), i, c_Seq c, int (length (c_Data c)))]"
  by (auto simp: deliveries_def log_delivery_def delivery_key_def delivery_sample_def
      SampleLog_Add_def SampleLog_Snapshot_def Let_def split: option.splits)

lemma log_kept:
  assumes "op_exec op s = Inr s'" and "\<And>i c t1 t2 t3. op \<noteq> OpChunk i c t1 t2 t3"
  shows "ss_deliveryLog s' = ss_deliveryLog s"
proof (cases op)
  case (OpStart ctrl now)
  with assms(1) show ?thesis by (auto simp: session_start_def Let_def split: if_splits sum.splits)
next
  case (OpPathDone p)
  with assms(1) show ?thesis by (auto simp: pathDone_def Let_def split: if_splits)
next
  case (OpWait now order ps)
  with assms(1) show ?thesis
    by (auto simp: session_wait_def session_finalize_def Let_def split: if_splits option.splits sum.splits)
next
  case (OpSweep now order ps)
  with assms(1) show ?thesis by (auto simp: sweep_tick_def split: option.splits prod.splits)
qed (use assms in auto)

lemma deliveries_op:
  assumes "op_exec op s = Inr s'"
  shows "deliveries s' = deliveries s @ map (\<lambda>(i, c). (session_hex (ss_id s), i, c_Seq c, int (length (c_Data c))))
    (case op of OpChunk i c t1 t2 t3 \<Rightarrow> if VerifyChecksum c then [(i, c)] else [] | _ \<Rightarrow> [])"
proof (cases "\<exists>i c t1 t2 t3. op = OpChunk i c t1 t2 t3")
  case True
  then obtain i c t1 t2 t3 where op: "op = OpChunk i c t1 t2 t3" by blast
  let ?corrupt = "\<not> VerifyChecksum c"
  obtain s1 where s1: "route_chunk i c ?corrupt t1 t2 s = Inr s1"
    using assms op by (cases "route_chunk i c ?corrupt t1 t2 s") (simp_all add: handle_chunk_def Let_def)
  then have log: "(if ?corrupt then Inr s1 else log_delivery i c t3 s1) = Inr s'"
    using assms op by (simp add: handle_chunk_def Let_def)
  have "ss_deliveryLog s1 = ss_deliveryLog s" "ss_id s1 = ss_id s"
    using s1 by (auto simp: route_chunk_def split: option.splits sum.splits prod.splits if_splits)
  then show ?thesis
    using log deliveries_log [of i c t3 s1 s'] by (cases ?corrupt) (simp_all add: op deliveries_def)
next
  case False
  then have "ss_deliveryLog s' = ss_deliveryLog s"
    using log_kept [OF assms] by blast
  with False show ?thesis
    by (cases op) (auto simp: deliveries_def)
qed

lemma session_run_deliveries:
  assumes "session_run (new_session sid every) ops s"
  shows "deliveries s = map (\<lambda>(i, c). (session_hex sid, i, c_Seq c, int (length (c_Data c)))) (good_deliveries ops)"
  using assms
proof (induction rule: session_run.induct)
  case sr_nil
  then show ?case by (simp add: deliveries_def new_session_def SampleLog_Snapshot_def)
next
  case (sr_op ops s op s')
  have "ss_id s = sid"
    using session_run_id [OF sr_op.hyps(1)] by (simp add: new_session_def)
  with sr_op.IH deliveries_op [OF sr_op.hyps(3)] show ?case
    by simp
qed

lemma delivery_file:
  "\<exists>bytes. WriteDeliverySamplesCSV samples (Inr \<lparr>wout = [], wstat = Healthy\<rparr>) = (None, bytes) \<and>
     csv_read (map char_of_byte bytes) = Some (delivery_header # map delivery_row samples)"
proof -
  obtain e bytes where w: "WriteDeliverySamplesCSV samples (Inr \<lparr>wout = [], wstat = Healthy\<rparr>) = (e, bytes)"
    by fastforce
  have "[] \<notin> set (delivery_header # map delivery_row samples)"
    by (rule rows_not_Nil [of 5]) (simp_all add: list_all_iff)
  from csv_file_text [OF w [unfolded WriteDeliverySamplesCSV_def] this] w show ?thesis
    by simp
qed

section \<open>The result\<close>

lemma one_shot_end:
  assumes "session_run (new_session sid every) ops s" and "ss_reassembler s \<noteq> None"
    and "op_enabled (OpWait now order ps) s" and "op_exec (OpWait now order ps) s = Inr s'"
  shows "\<exists>r0. rr_ThroughputMbps r0 = 0 \<and> ss_results s' = [RunResult_Finalize now r0] \<and>
    rr_Paths r0 = path_reports ops \<and> rr_SessionID r0 = session_hex sid \<and> ss_deliveryLog s' = ss_deliveryLog s"
proof -
  have inv: "session_inv s" and rec: "session_records ops s"
    using session_run_records [OF assms(1)] by simp_all
  then obtain ctrl where ctrl: "ss_ctrl s = Some ctrl" "ch_TotalSize ctrl \<noteq> 0"
    using assms(2) by (auto simp: session_inv_defs split: option.splits if_splits)
  then obtain pp r where s: "ss_progress s = Some pp" "\<not> pp_done pp" "ss_burstTracker s = None"
      "ss_results s = []" "ss_pathResults s = path_reports ops" "ss_reassembler s = Some r"
    using inv assms(2,3) rec by (auto simp: session_inv_defs session_records_def)
  have "ss_id s = sid"
    using session_run_id [OF assms(1)] by (simp add: new_session_def)
  let ?r0 = "\<lparr>rr_Role = ''server'', rr_SessionID = session_hex sid, rr_TotalBytes = ch_TotalSize ctrl,
    rr_ChunkSize = ch_ChunkSize ctrl, rr_Scheduler = ch_Scheduler ctrl, rr_StartTime = ss_startTime s,
    rr_Duration = 0, rr_ThroughputMbps = 0,
    rr_IntegrityOK = (sum_corrupted (path_reports ops) = 0 \<and> Reassembler_Complete r),
    rr_Paths = path_reports ops\<rparr>"
  have "s' = s\<lparr>ss_waiting := False, ss_progress := Some (pp\<lparr>pp_done := True\<rparr>),
      ss_results := [RunResult_Finalize now ?r0]\<rparr>"
    using assms(4) s ctrl \<open>ss_id s = sid\<close>
    by (simp add: session_wait_def session_finalize_def ProgressPrinter_Close_def Let_def)
  then show ?thesis
    by (intro exI [of _ ?r0]) simp
qed


text \<open>The witness: one path, one chunk of two bytes.\<close>

lemma sample_session:
  assumes "VerifyChecksum c" and "c_Offset c = 0"
  shows "\<exists>s s'. session_run (new_session 5 1) ([] @ [OpStart \<lparr>ch_SessionID = 5, ch_TotalSize = 2, ch_ChunkSize = 2,
      ch_NumPaths = 1, ch_Scheduler = []\<rparr> 0] @ [OpChunk 0 c 0 0 3000000] @ [OpPathDone p]) s \<and> ss_reassembler s \<noteq> None \<and>
    op_enabled (OpWait 9 [] (\<lambda>_. [])) s \<and> op_exec (OpWait 9 [] (\<lambda>_. [])) s = Inr s'"
proof -
  let ?h = "\<lparr>ch_SessionID = 5, ch_TotalSize = 2, ch_ChunkSize = 2, ch_NumPaths = 1, ch_Scheduler = []\<rparr>"
  let ?s0 = "new_session 5 1" and ?wait = "OpWait 9 [] (\<lambda>_. [])"
  obtain r0 where r0: "NewReassembler 2 2 = Inr r0"
    by (simp add: NewReassembler_Inr_iff reassembler_chunk_size_def Let_def max_alloc_def)
  obtain s1 where s1: "session_start ?h 0 ?s0 = Inr s1" "ss_readyClosed s1" "ss_waiting s1" "ss_wg s1 = 1"
      "ss_burstTracker s1 = None" "ss_reassembler s1 = Some r0"
    using r0 by (simp add: session_start_def new_session_def Let_def)
  have run1: "session_run ?s0 ([] @ [OpStart ?h 0]) s1"
    by (rule sr_op [OF sr_nil]) (use s1 in auto)
  have "\<not> crash_cause (OpChunk 0 c 0 0 3000000) s1 e" for e
    using assms(2) by (auto simp: beyond_end_def split: option.split)
  then obtain s2 where s2: "handle_chunk 0 c 0 0 3000000 s1 = Inr s2"
    using handle_chunk_panics [OF session_run_typed [OF run1] s1(2), of 0 c 0 0 3000000]
    by (cases "handle_chunk 0 c 0 0 3000000 s1") auto
  note frame = handle_chunk_frame [OF s2, unfolded chunk_frame_def routed_def]
  have s2': "ss_waiting s2" "ss_wg s2 = 1" "ss_burstTracker s2 = None" "ss_reassembler s2 \<noteq> None"
    using frame s1 assms(1) by auto
  obtain s3 where s3: "pathDone p s2 = Inr s3" "ss_waiting s3" "ss_wg s3 = 0" "ss_burstTracker s3 = None"
      "ss_reassembler s3 \<noteq> None"
    using s2' by (simp add: pathDone_def Let_def)
  have run3: "session_run ?s0 ((([] @ [OpStart ?h 0]) @ [OpChunk 0 c 0 0 3000000]) @ [OpPathDone p]) s3"
    by (rule sr_op [OF sr_op [OF run1]]) (use s2 s3 in auto)
  have en: "op_enabled ?wait s3"
    using s3 by (simp add: enumerates_bursts_def)
  have "session_inv s3"
    using session_run_records [OF run3] by blast
  then have "op_exec ?wait s3 \<noteq> Inl e" for e
    using background_never_panics [of s3 ?wait e] en by (simp add: background_op_def)
  then obtain s' where "op_exec ?wait s3 = Inr s'"
    by (cases "op_exec ?wait s3") auto
  with run3 en s3(5) show ?thesis by auto
qed


end
