(* ===== verification/Mpq_SharedServer.thy ===== *)
theory Mpq_SharedServer
  imports Mpq_Transfer Mpq_ServerSpec Mpq_Crash
begin

text \<open>
  A transfer on a server it shares: other clients, with any bytes on their streams, and the
  server's own goroutines may act at any moment; short of a panic the transfer can always go on,
  and it comes to its verdict.
\<close>

section \<open>Sessions with background operations\<close>

lemma run_ctrl:
  assumes "session_run (new_session sid every) ops s" and "ss_ctrl s = Some ctrl"
  shows "\<exists>now. OpStart ctrl now \<in> set ops"
proof -
  have keep: "ss_ctrl s' = ss_ctrl s \<or> (\<exists>ctrl now. op = OpStart ctrl now \<and> ss_ctrl s' = Some ctrl)"
    if "op_exec op s = Inr s'" for op s s'
  proof (cases op)
    case (OpStart ctrl now)
    with that show ?thesis by (auto simp: session_start_def Let_def split: if_splits sum.splits)
  next
    case (OpChunk i c t1 t2 t3)
    with that handle_chunk_frame(1) [of i c t1 t2 t3 s s'] show ?thesis by (simp add: chunk_frame_def)
  qed (use that in \<open>auto simp: pathDone_def session_wait_def session_finalize_def sweep_tick_def Let_def
      split: if_splits option.splits sum.splits prod.splits\<close>)
  have "ss_ctrl s = Some ctrl \<longrightarrow> (\<exists>now. OpStart ctrl now \<in> set ops)"
    using assms(1)
  proof (induction rule: session_run.induct)
    case sr_nil
    show ?case by (simp add: new_session_def)
  next
    case (sr_op ops s op s')
    with keep [OF sr_op.hyps(3)] show ?case by auto
  qed
  with assms(2) show ?thesis by simp
qed

lemma started_ready:
  assumes "session_run s0 ops s" and "OpStart ctrl now \<in> set ops"
  shows "ss_readyClosed s"
  using assms
proof (induction rule: session_run.induct)
  case (sr_op ops s op s')
  then show ?case
    using op_exec_ready [OF sr_op.hyps(3)] op_exec_start_ready [OF sr_op.hyps(3)] by auto
qed simp

text \<open>A one-shot session waits for its paths or has its result.\<close>

definition waits :: "serverSession \<Rightarrow> bool" where
  "waits s \<longleftrightarrow> (ss_reassembler s \<noteq> None \<longrightarrow> ss_waiting s \<or> ss_results s \<noteq> [])"

lemma waits_op:
  assumes "session_inv s" and "waits s" and "op_exec op s = Inr s'"
  shows "waits s'"
proof (cases op)
  case (OpStart ctrl now)
  with assms show ?thesis
    by (auto simp: waits_def session_start_def Let_def split: if_splits sum.splits)
next
  case (OpChunk i c t1 t2 t3)
  with assms(3) have ex: "handle_chunk i c t1 t2 t3 s = Inr s'" by simp
  note frame = handle_chunk_frame [OF ex, unfolded chunk_frame_def routed_def]
  have "ss_reassembler s \<noteq> None" if "ss_reassembler s' \<noteq> None"
    using frame(2) that by (auto split: if_splits)
  with assms(2) frame(1) show ?thesis by (auto simp: waits_def)
next
  case (OpWait now order ps)
  with assms show ?thesis
    by (auto simp: waits_def session_inv_defs session_wait_def session_finalize_def Let_def
        split: option.splits sum.splits if_splits)
qed (use assms(2,3) in \<open>auto simp: waits_def pathDone_def sweep_tick_def Let_def
    split: if_splits option.splits prod.splits\<close>)

lemma run_waits: "session_run (new_session sid every) ops s \<Longrightarrow> waits s"
proof (induction rule: session_run.induct)
  case sr_nil
  show ?case by (simp add: waits_def new_session_def)
next
  case (sr_op ops s op s')
  then show ?case
    using session_run_records waits_op by blast
qed

text \<open>A session with a result got it from its one wait.\<close>

lemma result_from_wait:
  assumes "session_run (new_session sid every) ops s" and "ss_results s \<noteq> []"
  shows "\<exists>pre now order ps post s1 s2. ops = pre @ OpWait now order ps # post \<and>
    session_run (new_session sid every) pre s1 \<and> op_enabled (OpWait now order ps) s1 \<and>
    op_exec (OpWait now order ps) s1 = Inr s2 \<and> ss_results s = ss_results s2"
  using assms
proof (induction rule: session_run.induct)
  case sr_nil
  then show ?case by (simp add: new_session_def)
next
  case (sr_op ops s op s')
  have inv: "session_inv s"
    using session_run_records [OF sr_op.hyps(1)] by blast
  show ?case
  proof (cases "ss_results s' = ss_results s")
    case True
    with sr_op show ?thesis by (metis append_Cons append_assoc)
  next
    case False
    obtain now order ps where op: "op = OpWait now order ps"
    proof (cases op)
      case (OpChunk i c t1 t2 t3)
      with sr_op.hyps(3) handle_chunk_frame(1) [of i c t1 t2 t3 s s'] False show ?thesis
        by (simp add: chunk_frame_def)
    qed (use sr_op.hyps(3) False that in \<open>auto simp: session_start_def pathDone_def sweep_tick_def Let_def
        split: if_splits option.splits sum.splits prod.splits\<close>)
    with sr_op.hyps show ?thesis
      by (intro exI [of _ ops] exI [of _ now] exI [of _ order] exI [of _ ps] exI [of _ "[]"] exI [of _ s]
          exI [of _ s']) simp
  qed
qed

text \<open>
  The outcome of a session that was started on the header of a payload and has heard all of
  its chunks and all of its paths: the wait can run and gives a good verdict, or it did.
\<close>

lemma session_outcome:
  assumes run: "session_run (new_session sid every) ops s"
    and starts: "OpStart ctrl t0 \<in> set ops" "\<And>c t. OpStart c t \<in> set ops \<Longrightarrow> c = ctrl"
    and ctrl: "ch_TotalSize ctrl = len_u64 data" "data \<noteq> []" "length data \<le> max_alloc"
    and split: "Split data (ch_ChunkSize ctrl) b bb = Some chunks"
    and good: "set (good_arrivals ops) = stamp ` set chunks"
    and clean: "\<forall>p\<in>set (path_reports ops). ps_ChunksCorrupted p = 0"
    and n: "int (length (path_reports ops)) = uint (ch_NumPaths ctrl)"
    and settled: "\<And>pre now order ps post. ops = pre @ OpWait now order ps # post \<Longrightarrow>
      path_reports post = [] \<Longrightarrow> good_arrivals post = []"
  shows "\<exists>s' r. (s' = s \<or> op_enabled (OpWait now order ps) s \<and> op_exec (OpWait now order ps) s = Inr s') \<and>
    ss_results s' = [r] \<and> rr_IntegrityOK r \<and> rr_Paths r = path_reports ops \<and>
    map_option Reassembler_Bytes (ss_reassembler s') = Some data"
proof -
  have recs: "session_inv s \<and> session_records ops s"
    using session_run_records [OF run] .
  have no_ctrl: "ss_ctrl s1 = Some ctrl" if "session_run (new_session sid every) pre s1" "set pre \<subseteq> set ops"
    "ss_ctrl s1 \<noteq> None" for pre s1
    using run_ctrl [OF that(1)] that(2,3) starts(2) by fastforce
  have "ss_readyClosed s"
    using started_ready [OF run starts(1)] .
  with recs have c: "ss_ctrl s = Some ctrl"
    using no_ctrl [OF run] by (auto simp: session_inv_defs split: option.splits)
  have clean0: "sum_corrupted (path_reports ops) = 0"
    using clean by (rule sum_corrupted_zero)
  have "len_u64 data \<noteq> 0"
    using ctrl(2,3) unat_len_u64 [of data] by (auto simp: max_alloc_def)
  then have one: "ss_burstTracker s = None" "ss_reassembler s \<noteq> None"
    using recs c ctrl(1) by (auto simp: session_inv_defs)
  show ?thesis
  proof (cases "ss_results s = []")
    case True
    then have "ss_waiting s"
      using run_waits [OF run] one(2) by (simp add: waits_def)
    moreover have "ss_wg s + int (length (path_reports ops)) = uint (ch_NumPaths ctrl)"
      using recs c by (auto simp: session_inv_def session_count_def session_records_def)
    then have "ss_wg s = 0"
      using n by linarith
    ultimately have en: "op_enabled (OpWait now order ps) s"
      using one(1) by (simp add: enumerates_bursts_def)
    from session_verdict [OF run c ctrl split equalityD1 [OF good] en] obtain s' r where
      "op_exec (OpWait now order ps) s = Inr s'" "ss_results s' = [r]" "rr_Paths r = path_reports ops"
      "rr_IntegrityOK r" "map_option Reassembler_Bytes (ss_reassembler s') = Some data"
      using clean0 good by auto
    with en show ?thesis by blast
  next
    case False
    from result_from_wait [OF run False] obtain pre now' order' ps' post s1 s2 where
      ops: "ops = pre @ OpWait now' order' ps' # post" and pre: "session_run (new_session sid every) pre s1"
      and en: "op_enabled (OpWait now' order' ps') s1" and ex: "op_exec (OpWait now' order' ps') s1 = Inr s2"
      and res: "ss_results s = ss_results s2"
      by (elim exE conjE) (rule that)
    have recs1: "session_inv s1 \<and> session_records pre s1"
      using session_run_records [OF pre] .
    have "ss_ctrl s1 \<noteq> None"
      using recs1 en by (cases "ss_ctrl s1") (auto simp: session_inv_defs)
    then have c1: "ss_ctrl s1 = Some ctrl"
      using no_ctrl [OF pre] by (auto simp: ops)
    then have "int (length (path_reports pre)) = uint (ch_NumPaths ctrl)"
      using recs1 en c1 by (auto simp: session_inv_def session_count_def session_records_def)
    then have "length (path_reports pre) = length (path_reports ops)"
      using n by simp
    then have "path_reports post = []"
      by (simp add: ops)
    with settled [OF ops] have same: "good_arrivals ops = good_arrivals pre" "path_reports ops = path_reports pre"
      by (simp_all add: ops)
    obtain r where r: "ss_results s2 = [r]" "rr_Paths r = path_reports ops" "rr_IntegrityOK r"
        "map_option Reassembler_Bytes (ss_reassembler s2) = Some data"
      using session_verdict [OF pre c1 ctrl split equalityD1 [OF good [unfolded same(1)]] en] ex clean0 good same
      by auto
    have "ss_reassembler s2 = ss_reassembler s1"
      using ex by (auto simp: session_wait_def session_finalize_def Let_def split: option.splits sum.splits if_splits)
    also have "\<dots> = ss_reassembler s"
      using recs recs1 c c1 \<open>len_u64 data \<noteq> 0\<close> ctrl(1) by (auto simp: session_records_def same(1))
    finally show ?thesis
      using r res by (intro exI [of _ s] exI [of _ r]) simp
  qed
qed

section \<open>The history of a server\<close>

text \<open>
  Runs of the server with their history: the connections accepted so far, in order, and for
  every operation the session and the connection (none for a background goroutine) it was of.
\<close>

inductive server_trace :: "int \<Rightarrow> conn_result list \<Rightarrow> trace \<Rightarrow> server \<Rightarrow> bool" for every where
  st_start: "server_trace every [] [] (newSessionRegistry every)"
| st_accept: "server_trace every conns tr r \<Longrightarrow> handleConn env stream = Some res \<Longrightarrow>
     getOrCreate (cr_session res) r = (s, r') \<Longrightarrow>
     server_trace every (conns @ [res]) tr (r'\<lparr>sv_conns := sv_conns r' @ [(cr_session res, cr_ops res)]\<rparr>)"
| st_conn: "server_trace every conns tr r \<Longrightarrow> k < length (sv_conns r) \<Longrightarrow> sv_conns r ! k = (sid, op # ops) \<Longrightarrow>
     sv_sessions r sid = Some s \<Longrightarrow> op_enabled op s \<Longrightarrow> op_exec op s = Inr s' \<Longrightarrow>
     server_trace every conns (tr @ [(sid, Some k, op)])
       (r\<lparr>sv_sessions := (sv_sessions r)(sid \<mapsto> s'), sv_conns := (sv_conns r)[k := (sid, ops)]\<rparr>)"
| st_background: "server_trace every conns tr r \<Longrightarrow> background_op op \<Longrightarrow> sv_sessions r sid = Some s \<Longrightarrow>
     op_enabled op s \<Longrightarrow> op_exec op s = Inr s' \<Longrightarrow>
     server_trace every conns (tr @ [(sid, None, op)]) (r\<lparr>sv_sessions := (sv_sessions r)(sid \<mapsto> s')\<rparr>)"

lemma server_trace_refines: "server_trace every conns tr r \<Longrightarrow> refines every r conns tr"
  by (induction rule: server_trace.induct)
    (auto intro: refines_init refines_accept refines_conn refines_background)

lemma server_trace_reachable: "server_trace every conns tr r \<Longrightarrow> server_reachable every r"
  by (induction rule: server_trace.induct) (auto intro: server_reachable.intros server_step.intros)

text \<open>Every run has a history.\<close>

lemma reachable_traced: "server_reachable every r \<Longrightarrow> \<exists>conns tr. server_trace every conns tr r"
proof (induction rule: server_reachable.induct)
  case rs_init
  show ?case by (blast intro: st_start)
next
  case (rs_step r r')
  then obtain conns tr where "server_trace every conns tr r" by blast
  with rs_step.hyps(2) show ?case
    by cases (blast intro: st_accept st_conn st_background)+
qed

section \<open>Entries of a trace\<close>

lemma ops_append:
  "ops_of_session sid (tr1 @ tr2) = ops_of_session sid tr1 @ ops_of_session sid tr2"
  "ops_of_conn k (tr1 @ tr2) = ops_of_conn k tr1 @ ops_of_conn k tr2"
  by (simp_all add: ops_of_session_def ops_of_conn_def)

lemma set_ops:
  "op \<in> set (ops_of_session sid tr) \<longleftrightarrow> (\<exists>src. (sid, src, op) \<in> set tr)"
  "op \<in> set (ops_of_conn k tr) \<longleftrightarrow> (\<exists>i. (i, Some k, op) \<in> set tr)"
  by (force simp: ops_of_session_def ops_of_conn_def)+

lemma session_split:
  "ops_of_session sid tr = xs @ ys \<Longrightarrow>
     \<exists>tr1 tr2. tr = tr1 @ tr2 \<and> ops_of_session sid tr1 = xs \<and> ops_of_session sid tr2 = ys"
proof (induction tr arbitrary: xs)
  case Nil
  then show ?case by (simp add: ops_of_session_def)
next
  case (Cons e tr)
  show ?case
  proof (cases xs)
    case Nil
    with Cons.prems show ?thesis
      by (intro exI [of _ "[]"] exI [of _ "e # tr"]) (simp add: ops_of_session_def)
  next
    case (Cons x xs')
    have e: "ops_of_session sid (e # tr) = ops_of_session sid [e] @ ops_of_session sid tr" for tr
      using ops_append(1) [of sid "[e]" tr] by simp
    show ?thesis
    proof (cases "ops_of_session sid [e] = []")
      case True
      then have "ops_of_session sid tr = xs @ ys"
        using Cons.prems e [of tr] by simp
      with Cons.IH obtain tr1 tr2 where "tr = tr1 @ tr2" "ops_of_session sid tr1 = xs" "ops_of_session sid tr2 = ys"
        by blast
      with True e [of tr1] show ?thesis by (intro exI [of _ "e # tr1"] exI [of _ tr2]) simp
    next
      case False
      then have "ops_of_session sid [e] = [x]" "ops_of_session sid tr = xs' @ ys"
        using Cons.prems e [of tr] \<open>xs = x # xs'\<close> by (auto simp: ops_of_session_def split: if_splits prod.splits)
      with Cons.IH [of xs'] obtain tr1 tr2 where "tr = tr1 @ tr2" "ops_of_session sid tr1 = xs'" "ops_of_session sid tr2 = ys"
        by blast
      with \<open>ops_of_session sid [e] = [x]\<close> e [of tr1] \<open>xs = x # xs'\<close> show ?thesis
        by (intro exI [of _ "e # tr1"] exI [of _ tr2]) simp
    qed
  qed
qed

text \<open>Counting the operations of one kind, by session or by connection.\<close>

lemma trace_count:
  assumes "finite J" and "\<And>i src op. (i, src, op) \<in> set tr \<Longrightarrow> P op \<Longrightarrow> i = sid \<longleftrightarrow> (\<exists>j\<in>J. src = Some j)"
  shows "length (filter P (ops_of_session sid tr)) = (\<Sum>j\<in>J. length (filter P (ops_of_conn j tr)))"
  using assms(2)
proof (induction tr rule: rev_induct)
  case (snoc e tr)
  obtain i src op where e: "e = (i, src, op)" by (cases e)
  have "(\<Sum>j\<in>J. if src = Some j \<and> P op then 1 else 0) = (if i = sid \<and> P op then 1 else (0 :: nat))"
  proof (cases "P op")
    case True
    with snoc.prems [of i src op] e have "i = sid \<longleftrightarrow> (\<exists>j\<in>J. src = Some j)" by simp
    with True assms(1) show ?thesis
      by (cases src) (auto simp: sum.delta)
  qed simp
  moreover have "length (filter P (ops_of_conn j (tr @ [e]))) =
      length (filter P (ops_of_conn j tr)) + (if src = Some j \<and> P op then 1 else 0)" for j
    by (simp add: e)
  moreover have "length (filter P (ops_of_session sid tr)) = (\<Sum>j\<in>J. length (filter P (ops_of_conn j tr)))"
    by (rule snoc.IH) (use snoc.prems in auto)
  ultimately show ?case
    by (simp add: e sum.distrib)
qed simp

section \<open>The connections of one client\<close>

text \<open>
  \<open>pos k\<close> is the place of the connection of path \<open>k\<close> in the order of acceptance; nobody else
  named the session.
\<close>

definition our_conns :: "SessionID \<Rightarrow> conn_result list \<Rightarrow> (nat \<Rightarrow> nat) \<Rightarrow> conn_result list \<Rightarrow> bool" where
  "our_conns sid conns pos results \<longleftrightarrow> inj_on pos {..<length results} \<and>
     (\<forall>k<length results. pos k < length conns \<and> conns ! pos k = results ! k) \<and>
     (\<forall>j<length conns. cr_session (conns ! j) = sid \<longrightarrow> j \<in> pos ` {..<length results})"

definition is_done :: "session_op \<Rightarrow> bool" where
  "is_done op \<longleftrightarrow> (\<exists>p. op = OpPathDone p)"

lemma length_path_reports: "length (path_reports ops) = length (filter is_done ops)"
  by (induction ops) (auto simp: is_done_def split: session_op.splits)

lemma set_path_reports: "p \<in> set (path_reports ops) \<longleftrightarrow> OpPathDone p \<in> set ops"
  by (induction ops) (auto split: session_op.splits)

lemma handler_did_last:
  assumes "handler_did ctrl env k cs ops"
  shows "\<exists>ops' p. ops = ops' @ [OpPathDone p] \<and> filter is_done ops' = []"
proof -
  obtain p where "ops = (if k = 0 then [OpStart ctrl (ce_now (env 0))] else []) @ OpReady #
      chunk_ops (preamble_path (path_preamble ctrl k)) (ce_tm (env k)) 0 cs @ [OpPathDone p]"
    using assms unfolding handler_did_def by (elim exE conjE) (rule that)
  then show ?thesis
    by (intro exI [of _ "(if k = 0 then [OpStart ctrl (ce_now (env 0))] else []) @ OpReady #
        chunk_ops (preamble_path (path_preamble ctrl k)) (ce_tm (env k)) 0 cs"] exI [of _ p])
      (auto simp: filter_empty_conv is_done_def dest!: chunk_ops_set)
qed

lemma in_concat_map: "x \<in> set (concat (map f xs)) \<longleftrightarrow> (\<exists>k<length xs. x \<in> set (f (xs ! k)))"
  by (auto simp: set_conv_nth [of xs])

text \<open>
  Where the client's operations are: done by one of its connections, or still ahead of it; the
  background goroutines of its session did the rest.
\<close>

lemma our_entries:
  assumes ref: "refines every r conns tr" and ours: "our_conns sid conns pos results"
    and sess: "\<forall>k<length results. cr_session (results ! k) = sid"
  shows "k < length results \<Longrightarrow> pos k < length (sv_conns r) \<and> fst (sv_conns r ! pos k) = sid"
    and "k < length results \<Longrightarrow> cr_ops (results ! k) = ops_of_conn (pos k) tr @ snd (sv_conns r ! pos k)"
    and "(sid, src, op) \<in> set tr \<Longrightarrow>
      src = None \<and> background_op op \<or> (\<exists>k<length results. src = Some (pos k))"
    and "(i, Some (pos k), op) \<in> set tr \<Longrightarrow> k < length results \<Longrightarrow> i = sid"
    and "op \<in> set (ops_of_session sid tr) \<Longrightarrow> background_op op \<or> op \<in> set (concat (map cr_ops results))"
proof -
  let ?n = "length results"
  have tr: "trace_of conns tr"
    using ref by (simp add: refines_def)
  have pos: "pos k < length conns" "conns ! pos k = results ! k" "cr_session (conns ! pos k) = sid" if "k < ?n" for k
    using ours sess that by (simp_all add: our_conns_def)
  have conn: "length (sv_conns r) = length conns"
      "\<And>j. j < length conns \<Longrightarrow> fst (sv_conns r ! j) = cr_session (conns ! j) \<and>
         cr_ops (conns ! j) = ops_of_conn j tr @ snd (sv_conns r ! j)"
    using ref by (simp_all add: refines_def)
  show at_conn: "pos k < length (sv_conns r) \<and> fst (sv_conns r ! pos k) = sid" if "k < ?n" for k
    using pos(1,3) [OF that] conn(1) conn(2) [OF pos(1) [OF that]] by simp
  show ahead: "cr_ops (results ! k) = ops_of_conn (pos k) tr @ snd (sv_conns r ! pos k)" if "k < ?n" for k
    using pos(2) [OF that] conn(2) [OF pos(1) [OF that]] by simp
  show entry: "src = None \<and> background_op op \<or> (\<exists>k<?n. src = Some (pos k))" if "(sid, src, op) \<in> set tr" for src op
  proof (cases src)
    case (Some j)
    with tr that have "j < length conns" "cr_session (conns ! j) = sid"
      by (auto simp: trace_of_def)
    with ours Some show ?thesis by (auto simp: our_conns_def)
  qed (use tr that in \<open>auto simp: trace_of_def\<close>)
  show "i = sid" if "(i, Some (pos k), op) \<in> set tr" "k < ?n" for i k op
    using tr that pos(3) by (force simp: trace_of_def)
  show "background_op op \<or> op \<in> set (concat (map cr_ops results))" if "op \<in> set (ops_of_session sid tr)"
  proof -
    obtain src where "(sid, src, op) \<in> set tr"
      using \<open>op \<in> set (ops_of_session sid tr)\<close> by (auto simp: set_ops)
    from entry [OF this] show ?thesis
    proof (elim disjE exE conjE)
      fix k assume k: "k < ?n" "src = Some (pos k)"
      with \<open>(sid, src, op) \<in> set tr\<close> have "op \<in> set (ops_of_conn (pos k) tr)"
        unfolding set_ops(2) by blast
      then have "op \<in> set (cr_ops (results ! k))"
        using ahead [OF k(1)] by simp
      with k(1) show ?thesis unfolding in_concat_map by blast
    qed simp
  qed
qed

text \<open>How many paths have reported.\<close>

lemma our_reports:
  assumes ref: "refines every r conns tr" and ours: "our_conns sid conns pos results"
    and sess: "\<forall>k<length results. cr_session (results ! k) = sid"
  shows "length (path_reports (ops_of_session sid tr)) =
    (\<Sum>k<length results. length (filter is_done (ops_of_conn (pos k) tr)))"
proof -
  note entries = our_entries [OF ref ours sess]
  have "length (filter is_done (ops_of_session sid tr)) =
      (\<Sum>j\<in>pos ` {..<length results}. length (filter is_done (ops_of_conn j tr)))"
  proof (rule trace_count)
    fix i src op assume e: "(i, src, op) \<in> set tr" "is_done op"
    show "i = sid \<longleftrightarrow> (\<exists>j\<in>pos ` {..<length results}. src = Some j)"
      using e entries(3) [of src op] entries(4) by (force simp: is_done_def background_op_def)
  qed simp
  also have "\<dots> = (\<Sum>k<length results. length (filter is_done (ops_of_conn (pos k) tr)))"
    using ours by (simp add: our_conns_def sum.reindex)
  finally show ?thesis
    by (simp add: length_path_reports)
qed

lemma handlers_did_last:
  assumes "handlers_did ctrl env css (map cr_ops results)" and "k < length results"
  shows "\<exists>ops' p. cr_ops (results ! k) = ops' @ [OpPathDone p] \<and> filter is_done ops' = []"
  using assms handler_did_last by (fastforce simp: handlers_did_def)

lemma shared_ops:
  assumes ref: "refines every r conns tr" and ours: "our_conns sid conns pos results"
    and sess: "\<forall>k<length results. cr_session (results ! k) = sid"
    and over: "\<forall>k<length results. snd (sv_conns r ! pos k) = []"
    and did: "handlers_did ctrl env css (map cr_ops results)"
  shows "op \<in> set (concat (map cr_ops results)) \<Longrightarrow> op \<in> set (ops_of_session sid tr)"
    and "length (path_reports (ops_of_session sid tr)) = length results"
    and "ops_of_session sid tr = pre @ x # post \<Longrightarrow> path_reports (x # post) = [] \<Longrightarrow> list_all background_op post"
proof -
  let ?n = "length results"
  note entries = our_entries [OF ref ours sess]
  have all: "cr_ops (results ! k) = ops_of_conn (pos k) tr" if "k < ?n" for k
    using entries(2) [OF that] over that by simp
  note ended = handlers_did_last [OF did]
  show "op \<in> set (ops_of_session sid tr)" if "op \<in> set (concat (map cr_ops results))"
  proof -
    obtain k where k: "k < ?n" "op \<in> set (cr_ops (results ! k))"
      using \<open>op \<in> set (concat (map cr_ops results))\<close> unfolding in_concat_map by blast
    with all [OF k(1)] obtain i where "(i, Some (pos k), op) \<in> set tr"
      by (auto simp: set_ops)
    with entries(4) [OF this k(1)] show ?thesis
      by (auto simp: set_ops)
  qed
  have "length (path_reports (ops_of_session sid tr)) = (\<Sum>k<?n. length (filter is_done (ops_of_conn (pos k) tr)))"
    by (rule our_reports [OF ref ours sess])
  also have "\<dots> = (\<Sum>k<?n. 1)"
  proof (rule sum.cong)
    fix k assume "k \<in> {..<?n}"
    with ended [of k] all [of k] show "length (filter is_done (ops_of_conn (pos k) tr)) = 1"
      by (auto simp: is_done_def)
  qed simp
  finally show "length (path_reports (ops_of_session sid tr)) = ?n"
    by simp
  show "list_all background_op post" if split: "ops_of_session sid tr = pre @ x # post" "path_reports (x # post) = []"
  proof -
    obtain tr1 tr2 where tr12: "tr = tr1 @ tr2" "ops_of_session sid tr2 = x # post"
      using session_split [OF split(1)] by blast
    have "background_op op" if op: "op \<in> set (x # post)" for op
    proof (rule ccontr)
      assume fg: "\<not> background_op op"
      obtain src where src: "(sid, src, op) \<in> set tr2"
        using op unfolding tr12(2) [symmetric] by (auto simp: set_ops)
      with entries(3) [of src op] fg tr12(1) obtain k where k: "k < ?n" "src = Some (pos k)" by auto
      then have "ops_of_conn (pos k) tr2 \<noteq> []"
        using src by (metis set_ops(2) empty_iff list.set(1))
      moreover obtain ops' p where "ops_of_conn (pos k) tr1 @ ops_of_conn (pos k) tr2 = ops' @ [OpPathDone p]"
        using ended [OF k(1)] all [OF k(1)] by (auto simp: tr12(1) ops_append)
      ultimately have "OpPathDone p \<in> set (ops_of_conn (pos k) tr2)"
        by (metis last_appendR last_in_set last_snoc)
      then obtain i where i: "(i, Some (pos k), OpPathDone p) \<in> set tr2"
        by (auto simp: set_ops)
      then have "i = sid"
        using entries(4) [of i k] k(1) tr12(1) by auto
      with i have "OpPathDone p \<in> set (x # post)"
        unfolding tr12(2) [symmetric] by (auto simp: set_ops)
      with split(2) show False
        by (metis set_path_reports empty_iff list.set(1))
    qed
    then show ?thesis by (simp add: list_all_iff)
  qed
qed

text \<open>The one header the handlers started the session on, and the chunks they passed on.\<close>

lemma handlers_did_starts:
  assumes "handlers_did ctrl env css opss"
  shows "css \<noteq> [] \<Longrightarrow> OpStart ctrl (ce_now (env 0)) \<in> set (concat opss)"
    and "OpStart c t \<in> set (concat opss) \<Longrightarrow> c = ctrl"
proof -
  have len: "length opss = length css" and each: "\<And>k. k < length css \<Longrightarrow> handler_did ctrl env k (css ! k) (opss ! k)"
    using assms by (simp_all add: handlers_did_def)
  show "OpStart ctrl (ce_now (env 0)) \<in> set (concat opss)" if "css \<noteq> []"
  proof -
    have "OpStart ctrl (ce_now (env 0)) \<in> set (opss ! 0)"
      using each [of 0] that by (auto simp: handler_did_def)
    moreover have "opss ! 0 \<in> set opss"
      using len that by (intro nth_mem) simp
    ultimately show ?thesis by auto
  qed
  show "c = ctrl" if st: "OpStart c t \<in> set (concat opss)"
  proof -
    obtain k where "k < length css" "OpStart c t \<in> set (opss ! k)"
      using st in_concat_map [of "OpStart c t" "\<lambda>ops. ops" opss] len by (simp only: list.map_ident) blast
    with each [of k] show ?thesis
      by (auto simp: handler_did_def split: if_splits dest!: chunk_ops_set)
  qed
qed

lemma good_arrivals_iff:
  "c \<in> set (good_arrivals ops) \<longleftrightarrow> (\<exists>i t1 t2 t3. OpChunk i c t1 t2 t3 \<in> set ops) \<and> VerifyChecksum c"
  by (auto simp: good_arrivals_def set_arrived)

text \<open>The session is there from its first connection on.\<close>

lemma shared_session:
  assumes ref: "refines every r conns tr" and ours: "our_conns sid conns pos results"
    and sess: "\<forall>k<length results. cr_session (results ! k) = sid" and ne: "results \<noteq> []"
  shows "\<exists>s. sv_sessions r sid = Some s \<and> session_run (new_session sid every) (ops_of_session sid tr) s"
proof -
  have "pos 0 < length conns \<and> cr_session (conns ! pos 0) = sid"
    using ours sess ne by (auto simp: our_conns_def)
  then have "sid \<in> cr_session ` set conns"
    by (metis image_eqI nth_mem)
  moreover have "case sv_sessions r sid of None \<Rightarrow> sid \<notin> cr_session ` set conns
      | Some s \<Rightarrow> session_run (new_session sid every) (ops_of_session sid tr) s"
    using ref by (auto simp: refines_def split: option.splits dest: spec [of _ sid])
  ultimately show ?thesis
    by (auto split: option.splits)
qed

lemma started_ctrl:
  assumes run: "session_run (new_session sid every) ops s" and starts: "\<And>c t. OpStart c t \<in> set ops \<Longrightarrow> c = ctrl"
    and ready: "ss_readyClosed s"
  shows "ss_ctrl s = Some ctrl"
proof -
  have "ss_ctrl s \<noteq> None"
    using session_run_records [OF run] ready by (auto simp: session_inv_defs split: option.splits)
  then show ?thesis
    using run_ctrl [OF run] starts by fastforce
qed

text \<open>Enough about the run, and the shared session comes to the verdict.\<close>

lemma shared_verdict:
  assumes hist: "server_trace every conns tr r" and ours: "our_conns sid conns pos results"
    and sess: "\<forall>k<length results. cr_session (results ! k) = sid"
    and over: "\<forall>k<length results. snd (sv_conns r ! pos k) = []"
    and did: "handlers_did ctrl env css (map cr_ops results)" and ne: "css \<noteq> []"
    and n: "uint (ch_NumPaths ctrl) = int (length css)"
    and ctrl: "ch_TotalSize ctrl = len_u64 data" "data \<noteq> []" "length data \<le> max_alloc"
    and split: "Split data (ch_ChunkSize ctrl) b bb = Some chunks"
    and cover: "set (concat css) = stamp ` set chunks"
  shows "\<exists>s s' res. sv_sessions r sid = Some s \<and>
    (s' = s \<or> op_enabled (OpWait now order ps) s \<and> op_exec (OpWait now order ps) s = Inr s') \<and>
    ss_results s' = [res] \<and> rr_IntegrityOK res \<and> length (rr_Paths res) = length css \<and>
    map_option Reassembler_Bytes (ss_reassembler s') = Some data"
proof -
  let ?ops = "ops_of_session sid tr" and ?all = "concat (map cr_ops results)"
  have ref: "refines every r conns tr"
    using server_trace_refines [OF hist] .
  note our = our_entries [OF ref ours sess]
  note ops = shared_ops [OF ref ours sess over did]
  have len: "length results = length css"
    using did by (simp add: handlers_did_def)
  have "\<forall>cs\<in>set css. list_all VerifyChecksum cs"
    using cover by (force simp: list_all_iff)
  note facts = handlers_did_facts [OF did this]
  have chunk: "OpChunk i c t1 t2 t3 \<in> set ?ops \<longleftrightarrow> OpChunk i c t1 t2 t3 \<in> set ?all" for i c t1 t2 t3
    using our(5) [of "OpChunk i c t1 t2 t3"] ops(1) [of "OpChunk i c t1 t2 t3"] by (auto simp: background_op_def)
  have report: "OpPathDone p \<in> set ?ops \<longleftrightarrow> OpPathDone p \<in> set ?all" for p
    using our(5) [of "OpPathDone p"] ops(1) [of "OpPathDone p"] by (auto simp: background_op_def)
  have start: "OpStart c t \<in> set ?ops \<longleftrightarrow> OpStart c t \<in> set ?all" for c t
    using our(5) [of "OpStart c t"] ops(1) [of "OpStart c t"] by (auto simp: background_op_def)
  obtain s where s: "sv_sessions r sid = Some s" "session_run (new_session sid every) ?ops s"
    using shared_session [OF ref ours sess] ne len by (metis length_0_conv)
  have "set (good_arrivals ?ops) = set (good_arrivals ?all)"
    by (intro set_eqI) (simp only: good_arrivals_iff chunk)
  also have "\<dots> = stamp ` set chunks"
    using cover by (auto simp: good_arrivals_def facts(1))
  finally have good: "set (good_arrivals ?ops) = stamp ` set chunks" .
  have clean: "\<forall>p\<in>set (path_reports ?ops). ps_ChunksCorrupted p = 0"
  proof
    fix p assume "p \<in> set (path_reports ?ops)"
    then have "p \<in> set (path_reports ?all)"
      by (simp only: set_path_reports report)
    with facts(3) show "ps_ChunksCorrupted p = 0" by (rule bspec)
  qed
  have settled: "good_arrivals post = []"
    if post: "?ops = pre @ OpWait now' order' ps' # post" "path_reports post = []" for pre now' order' ps' post
  proof -
    have "list_all background_op post"
      using ops(3) [OF post(1)] post(2) by simp
    then have "c \<notin> set (good_arrivals post)" for c
      by (auto simp: list_all_iff good_arrivals_iff background_op_def)
    then show ?thesis
      by (metis list.set_intros(1) neq_Nil_conv)
  qed
  have start0: "OpStart ctrl (ce_now (env 0)) \<in> set ?ops"
    using handlers_did_starts(1) [OF did ne] by (simp only: start)
  have starts: "c = ctrl" if "OpStart c t \<in> set ?ops" for c t
    using handlers_did_starts(2) [OF did] that by (simp only: start)
  have n': "int (length (path_reports ?ops)) = uint (ch_NumPaths ctrl)"
    using ops(2) len n by simp
  have "\<exists>s' res. (s' = s \<or> op_enabled (OpWait now order ps) s \<and> op_exec (OpWait now order ps) s = Inr s') \<and>
      ss_results s' = [res] \<and> rr_IntegrityOK res \<and> rr_Paths res = path_reports ?ops \<and>
      map_option Reassembler_Bytes (ss_reassembler s') = Some data"
    by (rule session_outcome [OF s(2) start0 _ ctrl split good clean n']) (fact starts, fact settled)
  with s(1) ops(2) len show ?thesis by force
qed

section \<open>No client can be locked out\<close>

text \<open>A session started on the client's header holds parts of the client's payload.\<close>

lemma run_receiving:
  assumes run: "session_run (new_session sid every) ops s" and c: "ss_ctrl s = Some ctrl"
    and ctrl: "ch_TotalSize ctrl = len_u64 data" "data \<noteq> []" "length data \<le> max_alloc"
    and split: "Split data (ch_ChunkSize ctrl) b bb = Some chunks"
    and good: "set (good_arrivals ops) \<subseteq> stamp ` set chunks"
  shows "receiving data (unat (effective_chunk_size data (ch_ChunkSize ctrl))) s"
proof -
  let ?sz = "unat (effective_chunk_size data (ch_ChunkSize ctrl))"
  have total: "ch_TotalSize ctrl \<noteq> 0"
    using ctrl unat_len_u64 [of data] by (auto simp: max_alloc_def)
  obtain s1 where s1: "session_start ctrl 0 (new_session sid every) = Inr s1" "receiving data ?sz s1"
    using receiving_start [OF ctrl split, of 0 sid every] by blast
  obtain r0 where r0: "NewReassembler (ch_TotalSize ctrl) (ch_ChunkSize ctrl) = Inr r0" "holds_payload data ?sz r0"
    using s1 total by (auto simp: session_start_def new_session_def receiving_def Let_def split: sum.splits)
  have writes: "\<exists>r. run_writes cs r1 = Inr r \<and> holds_payload data ?sz r"
    if "holds_payload data ?sz r1" "set cs \<subseteq> stamp ` set chunks" for cs r1
    using that
  proof (induction cs arbitrary: r1)
    case (Cons c cs)
    have "payload_chunk data ?sz c"
      using stamped_payload [OF split ctrl(2,3), of c] Cons.prems(2) by simp
    from holds_payload_write [OF Cons.prems(1) this] obtain b r2 where
      "Reassembler_Write c r1 = Inr (b, r2)" "holds_payload data ?sz r2"
      by blast
    with Cons.IH [OF this(2)] Cons.prems(2) show ?case by simp
  qed simp
  have inv: "session_inv s" and rec: "session_records ops s"
    using session_run_records [OF run] by simp_all
  from rec c total r0(1) obtain r where r: "run_writes (good_arrivals ops) r0 = Inr r" "ss_reassembler s = Some r"
    unfolding session_records_def by auto
  then have "holds_payload data ?sz r"
    using writes [OF r0(2) good] by auto
  moreover have "ss_readyClosed s" and "ss_burstTracker s = None"
    using inv c total by (simp_all add: session_inv_defs)
  ultimately show ?thesis
    using r(2) by (simp add: receiving_def)
qed

lemma client_op_runs:
  assumes "handler_did ctrl env k cs ops" and "op \<in> set ops"
    and "receiving data sz s" and "\<forall>c\<in>set cs. VerifyChecksum c \<and> payload_chunk data sz c"
    and "is_done op \<Longrightarrow> 0 < ss_wg s"
  shows "op_enabled op s \<and> (\<exists>s'. op_exec op s = Inr s')"
proof -
  have ready: "ss_readyClosed s"
    using assms(3) by (simp add: receiving_def)
  from assms(1,2) consider (start) t where "op = OpStart ctrl t" | (ready) "op = OpReady"
    | (chunk) i c t1 t2 t3 where "op = OpChunk i c t1 t2 t3" "c \<in> set cs" | (path) p where "op = OpPathDone p"
    by (auto simp: handler_did_def split: if_splits dest!: chunk_ops_set)
  then show ?thesis
  proof cases
    case chunk
    with receiving_chunk [OF assms(3), of c i t1 t2 t3] assms(4) show ?thesis by auto
  next
    case path
    with assms(5) show ?thesis by (simp add: is_done_def pathDone_def Let_def)
  qed (use ready in \<open>simp_all add: session_start_def\<close>)
qed

text \<open>The wait group still counts a path whose handler has not come to its end.\<close>

lemma client_counted:
  assumes ref: "refines every r conns tr" and ours: "our_conns sid conns pos results"
    and sess: "\<forall>k<length results. cr_session (results ! k) = sid"
    and did: "handlers_did ctrl env css (map cr_ops results)"
    and n: "uint (ch_NumPaths ctrl) = int (length css)"
    and s: "session_run (new_session sid every) (ops_of_session sid tr) s" "ss_ctrl s = Some ctrl"
    and k: "k < length results" "snd (sv_conns r ! pos k) \<noteq> []"
  shows "0 < ss_wg s"
proof -
  let ?done = "\<lambda>k. length (filter is_done (ops_of_conn (pos k) tr))"
  note our = our_entries [OF ref ours sess]
  have one: "?done j \<le> 1 \<and> (snd (sv_conns r ! pos j) \<noteq> [] \<longrightarrow> ?done j = 0)" if j: "j < length results" for j
  proof -
    obtain ops' p where o: "ops_of_conn (pos j) tr @ snd (sv_conns r ! pos j) = ops' @ [OpPathDone p]" "filter is_done ops' = []"
      using handlers_did_last [OF did j] our(2) [OF j] by auto
    show ?thesis
    proof (cases "snd (sv_conns r ! pos j)" rule: rev_cases)
      case Nil
      with o show ?thesis by simp
    next
      case (snoc ys y)
      with o have "ops' = ops_of_conn (pos j) tr @ ys" by simp
      with o(2) show ?thesis by simp
    qed
  qed
  have "(\<Sum>j<length results. ?done j) < (\<Sum>j<length results. 1)"
    using one k by (intro sum_strict_mono_ex1) auto
  then have "length (path_reports (ops_of_session sid tr)) < length css"
    using our_reports [OF ref ours sess] did by (simp add: handlers_did_def)
  moreover have "ss_wg s + int (length (path_reports (ops_of_session sid tr))) = int (length css)"
    using session_run_records [OF s(1)] s(2) n by (auto simp: session_inv_def session_count_def session_records_def)
  ultimately show ?thesis by linarith
qed

text \<open>
  While a handler of the client has operations ahead of it, one of the client's handlers can
  go on, whatever the state of the server: the one with the header starts the session, and
  then none waits and none panics.
\<close>

lemma client_can_step:
  assumes hist: "server_trace every conns tr r" and ours: "our_conns sid conns pos results"
    and sess: "\<forall>k<length results. cr_session (results ! k) = sid"
    and did: "handlers_did ctrl env css (map cr_ops results)"
    and n: "uint (ch_NumPaths ctrl) = int (length css)"
    and ctrl: "ch_TotalSize ctrl = len_u64 data" "data \<noteq> []" "length data \<le> max_alloc"
    and split: "Split data (ch_ChunkSize ctrl) b bb = Some chunks"
    and cover: "set (concat css) = stamp ` set chunks"
    and k: "k < length results" "snd (sv_conns r ! pos k) \<noteq> []"
  shows "\<exists>j op ops s. j < length results \<and> snd (sv_conns r ! pos j) = op # ops \<and>
    server_trace every conns (tr @ [(sid, Some (pos j), op)])
      (r\<lparr>sv_sessions := (sv_sessions r)(sid \<mapsto> s), sv_conns := (sv_conns r)[pos j := (sid, ops)]\<rparr>)"
proof -
  let ?ops = "ops_of_session sid tr"
  have ref: "refines every r conns tr"
    using server_trace_refines [OF hist] .
  note our = our_entries [OF ref ours sess]
  have len: "length results = length css"
    using did by (simp add: handlers_did_def)
  then have ne: "results \<noteq> []" "css \<noteq> []"
    using k(1) by auto
  obtain s where s: "sv_sessions r sid = Some s" "session_run (new_session sid every) ?ops s"
    using shared_session [OF ref ours sess ne(1)] by blast
  have go: ?thesis if "j < length results" "snd (sv_conns r ! pos j) = op # ops" "op_enabled op s" "op_exec op s = Inr s'"
    for j op ops s'
  proof -
    have "pos j < length (sv_conns r)" "sv_conns r ! pos j = (sid, op # ops)"
      using our(1) [OF that(1)] that(2) by (simp_all add: prod_eq_iff)
    from st_conn [OF hist this s(1) that(3,4)] that(1,2) show ?thesis by blast
  qed
  show ?thesis
  proof (cases "ss_readyClosed s")
    case False
    have zero: "0 < length results" "OpStart ctrl (ce_now (env 0)) \<notin> set (ops_of_conn (pos 0) tr)"
    proof -
      show "0 < length results" using ne(1) by simp
      show "OpStart ctrl (ce_now (env 0)) \<notin> set (ops_of_conn (pos 0) tr)"
      proof
        assume "OpStart ctrl (ce_now (env 0)) \<in> set (ops_of_conn (pos 0) tr)"
        then have "OpStart ctrl (ce_now (env 0)) \<in> set ?ops"
          using our(4) ne(1) by (metis set_ops length_greater_0_conv)
        with started_ready [OF s(2)] False show False by blast
      qed
    qed
    obtain rest where "cr_ops (results ! 0) = OpStart ctrl (ce_now (env 0)) # rest"
      using did len zero(1) by (auto simp: handlers_did_def handler_did_def)
    with our(2) [OF zero(1)] zero(2) have ahead: "snd (sv_conns r ! pos 0) = OpStart ctrl (ce_now (env 0)) # rest"
      by (cases "ops_of_conn (pos 0) tr") auto
    obtain s1 where "session_start ctrl (ce_now (env 0)) (new_session sid every) = Inr s1"
      using receiving_start [OF ctrl split, of "ce_now (env 0)" sid every] by blast
    then obtain s2 where "session_start ctrl (ce_now (env 0)) s = Inr s2"
      using False by (auto simp: session_start_def new_session_def Let_def split: if_splits sum.splits)
    with go [OF zero(1) ahead] show ?thesis by simp
  next
    case True
    obtain op ops where head: "snd (sv_conns r ! pos k) = op # ops"
      using k(2) by (cases "snd (sv_conns r ! pos k)") auto
    have "\<exists>s'. op_enabled op s \<and> op_exec op s = Inr s'"
    proof -
      have own: "c \<in> set (concat css)" if "OpChunk i c t1 t2 t3 \<in> set ?ops" for i c t1 t2 t3
      proof -
        have "\<forall>cs\<in>set css. list_all VerifyChecksum cs"
          using cover by (force simp: list_all_iff)
        note arrived = handlers_did_facts(1) [OF did this]
        have "OpChunk i c t1 t2 t3 \<in> set (concat (map cr_ops results))"
          using our(5) [OF that] by (auto simp: background_op_def)
        then have "c \<in> set (arrived (concat (map cr_ops results)))"
          unfolding set_arrived by blast
        then show ?thesis
          by (simp only: arrived)
      qed
      have good: "set (good_arrivals ?ops) \<subseteq> stamp ` set chunks"
        using own [unfolded cover] by (auto simp: good_arrivals_iff)
      have starts: "c = ctrl" if "OpStart c t \<in> set ?ops" for c t
        using our(5) [OF that] handlers_did_starts(2) [OF did, of c t] by (auto simp: background_op_def)
      have c: "ss_ctrl s = Some ctrl"
        using started_ctrl [OF s(2) starts True] .
      have "handler_did ctrl env k (css ! k) (cr_ops (results ! k))" "op \<in> set (cr_ops (results ! k))"
        using did len k(1) our(2) [OF k(1)] head by (auto simp: handlers_did_def)
      moreover have "\<forall>c\<in>set (css ! k). VerifyChecksum c \<and> payload_chunk data (unat (effective_chunk_size data (ch_ChunkSize ctrl))) c"
      proof
        fix c assume "c \<in> set (css ! k)"
        then have "c \<in> set (concat css)"
          using len k(1) nth_mem [of k css] by auto
        then show "VerifyChecksum c \<and> payload_chunk data (unat (effective_chunk_size data (ch_ChunkSize ctrl))) c"
          using stamped_payload [OF split ctrl(2,3)] unfolding cover by blast
      qed
      moreover note run_receiving [OF s(2) c ctrl split good] client_counted [OF ref ours sess did n s(2) c k]
      ultimately show ?thesis
        using client_op_runs by blast
    qed
    with go [OF k(1) head] show ?thesis by blast
  qed
qed

text \<open>So from every state of the server all handlers of the client can get to their ends.\<close>

lemma client_can_finish:
  assumes hist: "server_trace every conns tr r" and ours: "our_conns sid conns pos results"
    and rest: "\<forall>k<length results. cr_session (results ! k) = sid"
      "handlers_did ctrl env css (map cr_ops results)"
      "uint (ch_NumPaths ctrl) = int (length css)"
      "ch_TotalSize ctrl = len_u64 data" "data \<noteq> []" "length data \<le> max_alloc"
      "Split data (ch_ChunkSize ctrl) b bb = Some chunks"
      "set (concat css) = stamp ` set chunks"
  shows "\<exists>tr' r'. server_trace every conns (tr @ tr') r' \<and>
    (\<forall>(i, src, op)\<in>set tr'. i = sid \<and> src \<in> (\<lambda>k. Some (pos k)) ` {..<length results}) \<and>
    (\<forall>k<length results. snd (sv_conns r' ! pos k) = [])"
  using hist
proof (induction "\<Sum>k<length results. length (snd (sv_conns r ! pos k))" arbitrary: tr r rule: less_induct)
  case less
  show ?case
  proof (cases "\<forall>k<length results. snd (sv_conns r ! pos k) = []")
    case True
    with less.prems show ?thesis
      by (intro exI [of _ "[]"] exI [of _ r]) simp
  next
    case False
    then obtain k where "k < length results" "snd (sv_conns r ! pos k) \<noteq> []" by blast
    from client_can_step [OF less.prems ours rest this] obtain j op ops s where
      j: "j < length results" "snd (sv_conns r ! pos j) = op # ops" and
      step: "server_trace every conns (tr @ [(sid, Some (pos j), op)])
        (r\<lparr>sv_sessions := (sv_sessions r)(sid \<mapsto> s), sv_conns := (sv_conns r)[pos j := (sid, ops)]\<rparr>)"
      by (elim exE conjE) (rule that)
    let ?r = "r\<lparr>sv_sessions := (sv_sessions r)(sid \<mapsto> s), sv_conns := (sv_conns r)[pos j := (sid, ops)]\<rparr>"
    have in_range: "pos i < length (sv_conns r)" if "i < length results" for i
      using our_entries(1) [OF server_trace_refines [OF less.prems] ours rest(1) that] by simp
    have "(\<Sum>k<length results. length (snd (sv_conns ?r ! pos k))) < (\<Sum>k<length results. length (snd (sv_conns r ! pos k)))"
      using j in_range by (intro sum_strict_mono_ex1) (auto simp: nth_list_update intro!: bexI [of _ j])
    from less.hyps [OF this step] obtain tr' r' where
      "server_trace every conns ((tr @ [(sid, Some (pos j), op)]) @ tr') r'"
      "\<forall>(i, src, op)\<in>set tr'. i = sid \<and> src \<in> (\<lambda>k. Some (pos k)) ` {..<length results}"
      "\<forall>k<length results. snd (sv_conns r' ! pos k) = []"
      by (elim exE conjE) (rule that)
    with j(1) show ?thesis
      by (intro exI [of _ "(sid, Some (pos j), op) # tr'"] exI [of _ r']) auto
  qed
qed

section \<open>Properties\<close>

text \<open>
  C2: a transfer comes to its verdict on a server it shares.  The client connects its paths
  and hands out every chunk of its payload; the server has accepted its connections, in any
  places \<open>pos\<close> among those of any other clients, with any bytes on their streams, that name
  other sessions, and is in any state \<open>r\<close> it can get into with them short of a panic, after the operations \<open>tr\<close>
  of the handlers of all clients and of the waits and tickers of all sessions.  Then each of
  the client's paths gets its acknowledgement; from \<open>r\<close> the client's handlers can always get
  to their ends, without waiting for anybody else; and whenever they did, the session has its
  one result, or its wait is ready to run and leaves it: the result says that integrity is
  intact over all paths, and the session holds exactly the payload.
\<close>

theorem transfer_on_shared_server:
  assumes accepted: "client_setup f sid = Inr pl" "\<not> fl_continuous f"
    and connected: "fresh_streams net" "client_connect net f pl = Inr paths" "length paths < 2 ^ 32"
    and payload: "GenerateRandomPayload rnd (fl_size f) = Inr (Inr data)" "length data = unat (fl_size f)"
      "fl_size f \<noteq> 0"
    and split: "Split data (ucast (fl_chunkSize f)) 0 (fl_size f) = Some chunks"
    and sent: "send_step\<^sup>*\<^sup>* (send_init chunks paths (pl_sched pl) progress) st" "send_final st"
    and received: "length results = length paths"
      "\<forall>k<length paths. ce_ready (env k) \<and>
         handleConn (env k) \<lparr>rbuf = wout (pc_stream (sd_paths st ! k)), rend = EOF\<rparr> = Some (results ! k)"
    and shared: "server_trace every conns tr r" "our_conns sid conns pos results"
  shows "(\<forall>k<length paths. cr_session (results ! k) = sid \<and> cr_ack (results ! k) = ce_ackOk (env k)) \<and>
    (\<exists>tr' r'. server_trace every conns (tr @ tr') r' \<and>
       (\<forall>(i, src, op)\<in>set tr'. i = sid \<and> src \<in> (\<lambda>k. Some (pos k)) ` {..<length paths}) \<and>
       (\<forall>k<length paths. snd (sv_conns r' ! pos k) = [])) \<and>
    ((\<forall>k<length paths. snd (sv_conns r ! pos k) = []) \<longrightarrow>
     (\<exists>s s' res. sv_sessions r sid = Some s \<and>
       (s' = s \<or> op_enabled (OpWait now order ps) s \<and> op_exec (OpWait now order ps) s = Inr s') \<and>
       ss_results s' = [res] \<and> rr_IntegrityOK res \<and> length (rr_Paths res) = length paths \<and>
       map_option Reassembler_Bytes (ss_reassembler s') = Some data))"
proof -
  note conn = client_connect_Inr [OF accepted(1) connected(1,2)]
  note plan = client_setup_plan [OF accepted(1)]
  have small: "length data \<le> max_alloc"
    using payload by (simp add: GenerateRandomPayload_def split: if_splits)
  have size: "fl_size f = len_u64 data"
    using payload(2) by (simp add: len_u64_def)
  have data: "data \<noteq> []"
    using payload(2,3) by (metis list.size(3) unat_eq_zero)
  obtain css where css: "length css = length paths" "set (concat css) = stamp ` set chunks"
      "handlers_did (pl_ctrl pl) env css (map cr_ops results)"
      "\<forall>k<length paths. cr_session (results ! k) = sid \<and> cr_ack (results ! k) = ce_ackOk (env k)"
    using transfer_handled [OF accepted(1) data client_connect_paths_wf [OF accepted(1) connected]
        conn(1) connected(3) _ split sent received] conn(2) by blast
  have n: "uint (ch_NumPaths (pl_ctrl pl)) = int (length css)"
    using conn(1) connected(3) css(1) by (simp add: plan(6) uint_nat unat_of_nat)
  have ne: "css \<noteq> []"
    using plan(1) conn(1) css(1) by auto
  have total: "ch_TotalSize (pl_ctrl pl) = len_u64 data"
    using accepted plan size by auto
  have chunked: "Split data (ch_ChunkSize (pl_ctrl pl)) 0 (fl_size f) = Some chunks"
    using split plan by auto
  have named: "\<forall>k<length results. cr_session (results ! k) = sid"
    using css(4) received(1) by auto
  show ?thesis
  proof (intro conjI impI)
    show "\<exists>tr' r'. server_trace every conns (tr @ tr') r' \<and>
        (\<forall>(i, src, op)\<in>set tr'. i = sid \<and> src \<in> (\<lambda>k. Some (pos k)) ` {..<length paths}) \<and>
        (\<forall>k<length paths. snd (sv_conns r' ! pos k) = [])"
      using client_can_finish [OF shared named css(3) n total data small chunked css(2)] received(1) by simp
    assume "\<forall>k<length paths. snd (sv_conns r ! pos k) = []"
    then have over: "\<forall>k<length results. snd (sv_conns r ! pos k) = []"
      using received(1) by simp
    show "\<exists>s s' res. sv_sessions r sid = Some s \<and>
        (s' = s \<or> op_enabled (OpWait now order ps) s \<and> op_exec (OpWait now order ps) s = Inr s') \<and>
        ss_results s' = [res] \<and> rr_IntegrityOK res \<and> length (rr_Paths res) = length paths \<and>
        map_option Reassembler_Bytes (ss_reassembler s') = Some data"
      using shared_verdict [OF shared named over css(3) ne n total data small chunked css(2)] css(1) by simp
  qed (fact css(4))
qed

text \<open>
  The witness: the transfer of two bytes over one path, on a server that another client has
  connected to as well.
\<close>

lemma trace_run:
  assumes "session_run (new_session sid every) ops s" and "handleConn env stream = Some res" and "cr_session res = sid"
  shows "cr_ops res = ops @ rest \<Longrightarrow> server_trace every [res] (map (\<lambda>op. (sid, Some 0, op)) ops)
    \<lparr>sv_sessions = [sid \<mapsto> s], sv_progressEvery = every, sv_conns = [(sid, rest)]\<rparr>"
  using assms(1)
proof (induction arbitrary: rest rule: session_run.induct)
  case sr_nil
  from st_accept [OF st_start [of every] assms(2), of "new_session sid every"
      "\<lparr>sv_sessions = [sid \<mapsto> new_session sid every], sv_progressEvery = every, sv_conns = []\<rparr>"] sr_nil assms(3)
  show ?case by (simp add: getOrCreate_def newSessionRegistry_def Let_def fun_upd_def)
next
  case (sr_op ops s op s')
  from sr_op.IH [of "op # rest"] sr_op.prems
  have "server_trace every [res] (map (\<lambda>op. (sid, Some 0, op)) ops)
      \<lparr>sv_sessions = [sid \<mapsto> s], sv_progressEvery = every, sv_conns = [(sid, op # rest)]\<rparr>"
    by (simp add: fun_upd_def)
  from st_conn [OF this, of 0 sid op rest s s'] sr_op.hyps(2,3) show ?case by (simp add: fun_upd_def cong: if_cong)
qed

lemma sample_other: "\<exists>stream res. handleConn sample_env stream = Some res \<and> cr_session res = 6"
proof -
  let ?pre = "PreHello \<lparr>ph_SessionID = 6, ph_PathIndex = 0\<rparr>"
  have "preamble_ok ?pre" "list_all chunk_ok []" "ce_ready sample_env"
    by (simp_all add: sample_env_def)
  from handler_complete [OF this] show ?thesis
    by (elim exE conjE) (intro exI conjI, assumption, simp add: handler_result_def preamble_session_def)
qed

theorem transfer_on_shared_server_witness:
  "\<exists>pl conns tr r s s' res. client_setup sample_flags 5 = Inr pl \<and>
     client_connect sample_net sample_flags pl = Inr [first_path (pl_ctrl pl)] \<and>
     server_trace 1 conns tr r \<and> map cr_session conns = [5, 6] \<and> sv_sessions r 5 = Some s \<and>
     (s' = s \<or> op_exec (OpWait 9 [] (\<lambda>_. [])) s = Inr s') \<and>
     ss_results s' = [res] \<and> rr_IntegrityOK res \<and> map_option Reassembler_Bytes (ss_reassembler s') = Some [7, 8]"
proof -
  let ?D = "[7, 8] :: byte list"
  obtain pl where pl: "client_setup sample_flags 5 = Inr pl" and n: "length (pl_locals pl) = 1"
    using sample_setup by blast
  let ?pc = "first_path (pl_ctrl pl)"
  have conn: "client_connect sample_net sample_flags pl = Inr [?pc]"
    using sample_connect [OF pl n] by (simp add: sample_flags_def)
  have wf: "paths_wf [?pc]"
    by (simp add: paths_wf_def first_path_def)
  obtain chunks where split: "Split ?D 1 0 2 = Some chunks"
    by (simp add: Split_eq_split_list effective_chunk_size_def)
  obtain st where st: "send_step\<^sup>*\<^sup>* (send_init chunks [?pc] (pl_sched pl) None) st" "send_final st"
    using send_run_exists [OF wf] by blast
  from sample_handler [OF pl split st] obtain res rest where
    res: "handleConn sample_env \<lparr>rbuf = wout (pc_stream (sd_paths st ! 0)), rend = EOF\<rparr> = Some res"
      "cr_ops res = OpStart (pl_ctrl pl) 0 # rest"
    by blast
  have got: "\<forall>k<length [?pc]. ce_ready sample_env \<and>
      handleConn sample_env \<lparr>rbuf = wout (pc_stream (sd_paths st ! k)), rend = EOF\<rparr> = Some ([res] ! k)"
    using res(1) by (simp add: sample_env_def)
  have mixed: "interleave (map cr_ops [res]) (OpStart (pl_ctrl pl) 0 # rest)"
    using interleave_one [of "cr_ops res"] res(2) by simp
  have pre: "\<forall>k<length [?pc]. send_preamble (pl_ctrl pl) k \<lparr>wout = [], wstat = Healthy\<rparr> = (None, pc_stream ([?pc] ! k))"
    by (simp add: send_preamble_def path_preamble_def first_path_def WriteControlHeader_healthy)
  have given: "\<not> fl_continuous sample_flags" "fresh_streams sample_net" "length [?pc] < 2 ^ 32"
      "GenerateRandomPayload (\<lambda>n. Inr [7, 8]) (fl_size sample_flags) = Inr (Inr ?D)"
      "length ?D = unat (fl_size sample_flags)" "fl_size sample_flags \<noteq> 0" "length [res] = length [?pc]"
      "is_start (OpStart (pl_ctrl pl) 0)"
      "Split ?D (ucast (fl_chunkSize sample_flags)) 0 (fl_size sample_flags) = Some chunks"
      "fl_size sample_flags = len_u64 ?D" "?D \<noteq> []" "length ?D \<le> max_alloc" "length [?pc] = length (pl_locals pl)"
    using split n by (simp_all add: sample_flags_def fresh_streams_def sample_net_def
        GenerateRandomPayload_def max_alloc_def len_u64_def)
  from transfer_verdict [OF pl given(1,10-12) wf given(13,3) pre given(9) st given(7) got mixed given(8),
      where every = 1 and now = 9 and order = "[]" and ps = "\<lambda>_. []"]
  obtain s0 where run: "session_run (new_session 5 1) (cr_ops res) s0" and id: "cr_session res = 5"
    unfolding res(2) [symmetric] by auto
  let ?r = "\<lparr>sv_sessions = [5 \<mapsto> s0], sv_progressEvery = 1, sv_conns = [(5, [])]\<rparr> :: server"
  let ?tr = "map (\<lambda>op. (5, Some 0, op)) (cr_ops res) :: trace"
  have alone: "server_trace 1 [res] ?tr ?r"
    using trace_run [OF run res(1) id, of "[]"] by simp
  obtain stream res' where other: "handleConn sample_env stream = Some res'" "cr_session res' = 6"
    using sample_other by blast
  let ?r' = "\<lparr>sv_sessions = [5 \<mapsto> s0, 6 \<mapsto> new_session 6 1], sv_progressEvery = 1,
      sv_conns = [(5, []), (6, cr_ops res')]\<rparr> :: server"
  have shared: "server_trace 1 [res, res'] ?tr ?r'"
    using st_accept [OF alone other(1) surjective_pairing] other(2) by (simp add: getOrCreate_def Let_def)
  have ours: "our_conns 5 [res, res'] (\<lambda>k. k) [res]" and over: "\<forall>k<length [?pc]. snd (sv_conns ?r' ! k) = []"
    using other(2) by (auto simp: our_conns_def less_Suc_eq)
  from transfer_on_shared_server [OF pl given(1,2) conn given(3-6,9) st given(7) got shared ours,
      of 9 "[]" "\<lambda>_. []"] over pl conn shared id other(2)
  show ?thesis
    by (intro exI [of _ pl] exI [of _ "[res, res']"] exI [of _ ?tr] exI [of _ ?r']) auto
qed

end
