(* ===== verification/Spec2Isabelle.thy ===== *)
theory Spec2Isabelle
  imports Mpq_Transfer Mpq_Report Mpq_BurstSpec Mpq_ServerSpec Mpq_Continuous Mpq_Crash
    Mpq_ClientMain Mpq_ServerMain Mpq_ServerFiles Mpq_SharedServer
begin

text \<open>
  \<^bold>\<open>A verification library for mpquic-experiment.\<close>

  The program measures how data moves over several network paths.  A client
  (\<^verbatim>\<open>cmd/client/main.go\<close>) opens one QUIC connection per local address, splits a payload into
  chunks, lets a scheduler decide which paths carry each chunk, and writes the chunks on the
  paths' streams.  A server (\<^verbatim>\<open>cmd/server/main.go\<close>) correlates the connections by session
  number, checks and reassembles the chunks and writes a result.  A run is either one-shot, one
  payload and one verdict, or continuous, a stream of numbered bursts that are reported one by
  one as they complete or are given up.

  \<^bold>\<open>Parts and theories.\<close>

  \<^item> \<^verbatim>\<open>Mpq_Base\<close>: machine integers, panics, collections of facts.  \<^verbatim>\<open>Mpq_Stream\<close>: byte
    streams as a reader and a writer see them, big-endian integers, reader combinators.
    \<^verbatim>\<open>Mpq_Crc32\<close>: the IEEE checksum.  \<^verbatim>\<open>Mpq_Float\<close>: float64 arithmetic as rounding of
    rationals.  \<^verbatim>\<open>Mpq_Registry\<close>: the contract of a name registry.
  \<^item> \<^verbatim>\<open>Mpq_Session\<close> models \<^verbatim>\<open>internal/transfer/session.go\<close> (stream kinds, \<^verbatim>\<open>ControlHeader\<close>,
    \<^verbatim>\<open>PathHello\<close>, their readers and writers); \<^verbatim>\<open>Mpq_Chunk\<close> and \<^verbatim>\<open>Mpq_Reassembler\<close> model
    \<^verbatim>\<open>internal/transfer/chunk.go\<close> (\<^verbatim>\<open>Split\<close>, \<^verbatim>\<open>WriteChunk\<close>, \<^verbatim>\<open>ReadChunk\<close>, \<^verbatim>\<open>Reassembler\<close>).
  \<^item> \<^verbatim>\<open>Mpq_Scheduler\<close> models \<^verbatim>\<open>internal/scheduler\<close>, the three schedulers as constructors of one
    type and the registry as an association list.
  \<^item> \<^verbatim>\<open>Mpq_Burst\<close> models \<^verbatim>\<open>internal/transfer/burst.go\<close>; \<^verbatim>\<open>Mpq_BurstSpec\<close> holds the reference it
    computes.
  \<^item> \<^verbatim>\<open>Mpq_Csv\<close> and \<^verbatim>\<open>Mpq_Metrics\<close> model \<^verbatim>\<open>internal/metrics/metrics.go\<close> with the parts of
    \<^verbatim>\<open>encoding/csv\<close>, \<^verbatim>\<open>bufio\<close> and \<^verbatim>\<open>strconv\<close> it uses: results, sample logs, CSV files, throughput,
    the progress printer.  \<^verbatim>\<open>Mpq_Results\<close> adds the JSON file and the console summary, over
    \<^verbatim>\<open>Mpq_Decimal\<close> (shortest decimals of a float64), \<^verbatim>\<open>Mpq_Time\<close> (calendar dates, RFC 3339 times,
    \<^verbatim>\<open>Duration.String\<close>) and \<^verbatim>\<open>Mpq_Json\<close> (documents, escaping, UTF-8, a reader).
  \<^item> \<^verbatim>\<open>Mpq_Congestion\<close> and \<^verbatim>\<open>Mpq_Reno\<close> model the vendored sender
    (\<^verbatim>\<open>third_party/quic-go/congestion\<close>: hybrid slow start, pacer, the NewReno form of
    \<^verbatim>\<open>cubicSender\<close>); \<^verbatim>\<open>Mpq_CCModules\<close> models \<^verbatim>\<open>internal/ccmodules\<close> (registry, \<^verbatim>\<open>cubic\<close>, the
    fixed-window template) and a path driven by such a controller.
  \<^item> \<^verbatim>\<open>Mpq_Server\<close> models \<^verbatim>\<open>cmd/server/main.go\<close>: \<^verbatim>\<open>serverSession\<close> is a record with one
    operation per method, \<^verbatim>\<open>handleConn\<close> is a function from the bytes of a stream to the operations
    it performs on its session, and \<open>server_step\<close> interleaves any number of handlers with the
    background goroutines.  \<^verbatim>\<open>Mpq_Delivery\<close> and \<^verbatim>\<open>Mpq_Sessions\<close> prove what sessions and
    handlers do, \<^verbatim>\<open>Mpq_ServerSpec\<close> what the whole server does, \<^verbatim>\<open>Mpq_BurstReports\<close> which rows a
    burst gets, \<^verbatim>\<open>Mpq_Crash\<close> what can take the server down.  \<^verbatim>\<open>Mpq_ServerMain\<close> is \<^verbatim>\<open>main\<close>: the
    listener, the accept loop and the goroutine that flushes all sessions on a signal;
    \<^verbatim>\<open>Mpq_ServerFiles\<close> says what the files of a session contain.
  \<^item> \<^verbatim>\<open>Mpq_Client\<close> models \<^verbatim>\<open>cmd/client/main.go\<close>: the flags, the send loop (a dispatcher, one
    bounded queue and one worker per path, as the step relation \<open>send_step\<close>), and results.
    \<^verbatim>\<open>Mpq_Connect\<close> adds dialing, the preambles, the drain handshake and \<^verbatim>\<open>internal/tlsconfig\<close>;
    \<^verbatim>\<open>Mpq_Bursts\<close> continuous mode; \<^verbatim>\<open>Mpq_Report\<close> the RTT samplers and the files left at the end;
    \<^verbatim>\<open>Mpq_ClientMain\<close> is \<^verbatim>\<open>main\<close> from the flags to the last file, with all the ways it can end.
  \<^item> \<^verbatim>\<open>Mpq_EndToEnd\<close> and \<^verbatim>\<open>Mpq_Transfer\<close> compose client and server for a one-shot run,
    \<^verbatim>\<open>Mpq_Continuous\<close> for a continuous one.  \<^verbatim>\<open>Mpq_SharedServer\<close> puts a one-shot run on a server
    that serves other clients: \<open>server_trace\<close> is \<open>server_step\<close> with its history.

  \<^bold>\<open>Interfaces.\<close>  Locales state what one part promises another, and each is interpreted on the
  program's own definitions: a wire format (\<open>preamble_wire\<close>, \<open>chunk_wire\<close>: encoding, decoding,
  consumption), a receiver that counts each item once whatever is repeated or reordered
  (\<open>delivery\<close>, for the reassembler and for a burst), a scheduler, a name registry (once for the schedulers, once for the congestion
  control modules), a congestion controller (\<open>send_algorithm\<close>, extended by \<open>loss_responsive\<close>, for
  the fixed window, for NewReno, and for the value the registry returns).

  \<^bold>\<open>What is shown.\<close>

  \<^item> End to end: a one-shot run, under any scheduler, congestion control and interleaving, over
    streams that do not fail, ends with one verdict, integrity confirmed and the payload in the
    buffer, also on a server busy with any other connections, which can crash it but not make
    it wait; a continuous run leaves exactly one complete row per burst; the flags decide the
    mode and how a run of the client ends; a confirmed drain proves delivery; the client's files
    say what was sent.
  \<^item> Wire formats: round trips, exactly which streams are accepted, which truncations look like a
    clean end, which corruptions the checksum detects, when splitting ends.
  \<^item> Reassembly and bursts: order, duplicates and corruption do not matter; completion is reported
    exactly when everything has arrived; the incremental tracker equals a reference that
    recomputes each burst from the history.
  \<^item> Schedulers and send loop: every chunk goes to an offered path, round robin is fair, the
    loop is bounded, cannot deadlock on its queues, and delivers in order per path.
  \<^item> Server: one verdict per session, sound; sessions do not influence each other (a refinement);
    the state is well typed; an idle burst is reported; an interrupt loses no burst; exactly what
    can crash it.
  \<^item> Congestion control: no panic, bounded bytes in flight, no stall; one reaction per window of
    losses; the pacing rate.
  \<^item> Files: the CSV and JSON files read back, throughput error, swallowed write errors.

  \<^bold>\<open>Parameters.\<close>  Clock readings, random bytes, the order in which Go enumerates a map, RTT
  values, the results of operating system, TLS and QUIC calls, and the scheduling of goroutines are
  arguments or choices of a step relation.  A QUIC stream is ordered and reliable: a reader has a
  prefix of what was written and sees the end only after all of it.

  \<^bold>\<open>Bounds.\<close>  Integers keep their width.  \<open>max_alloc\<close> is the \<open>2 ^ 48\<close> bytes a Go allocation can
  have at most; queues hold 64 chunks; the buffered writer holds 4096 bytes; a burst is given up
  after five seconds (\<open>burstTTL\<close>); congestion windows stay below 10,001 datagrams.  No definition
  uses fuel: \<open>split_loop\<close> is an option-valued \<^verbatim>\<open>partial_function\<close>, since it need not end, and the
  read loop ends because every frame takes at least forty bytes off the stream.

  \<^bold>\<open>Not modelled.\<close>  Logging; flag parsing; when signals arrive and tickers fire (both are choices of
  a step relation, and so is which of its channels wakes \<^verbatim>\<open>waitReady\<close>); qlog events; the Cubic growth
  function, never reached because the module \<^verbatim>\<open>cubic\<close> asks for NewReno; the rest of the vendored
  QUIC library; tests, documentation and scripts.
\<close>

end
